(* ===== verification/Xv6_Prelude.thy ===== *)
theory Xv6_Prelude
  imports Main "HOL-Library.Word"
begin

text \<open>
  Shared vocabulary of the development: the outcome of a C function (a value, a kernel
  panic or a memory error), the sequencing of fallible steps, a total-correctness
  predicate for outcomes with its rules, loops over index ranges, transition systems
  with their reachable states, and the generic facts on lists and machine words that
  several components use.
\<close>

unbundle bit_operations_syntax

section \<open>Outcomes of C functions\<close>

text \<open>
  \<open>Panic m\<close> is a call of \<^verbatim>\<open>panic(m)\<close>; \<open>Null_Deref\<close> and \<open>Out_Of_Bounds\<close> are accesses
  the C standard leaves undefined (a null pointer, an index outside the array);
  \<open>Overflow\<close> is a signed overflow; \<open>Out_Of_Fuel\<close> is a loop that has not
  ended within the bound the model gives it; \<open>Spins\<close> is a busy wait on a lock that another
  CPU holds; \<open>Blocks\<close> is a call of \<^verbatim>\<open>sleep\<close> in a function that is modelled in one go;
  \<open>Uninit\<close> is the use of a variable that has no value.
\<close>

datatype c_error =
    Panic string
  | Null_Deref
  | Out_Of_Bounds
  | Overflow
  | Out_Of_Fuel
  | Spins
  | Blocks
  | Uninit

type_synonym 'a result = "c_error + 'a"

definition bindr :: "'a result \<Rightarrow> ('a \<Rightarrow> 'b result) \<Rightarrow> 'b result" where
  "bindr m f = (case m of Inl e \<Rightarrow> Inl e | Inr x \<Rightarrow> f x)"

lemma bindr_simps [simp]:
  "bindr (Inl e) f = Inl e"
  "bindr (Inr x) f = f x"
  by (simp_all add: bindr_def)

lemma bindr_assoc: "bindr (bindr m f) g = bindr m (\<lambda>x. bindr (f x) g)"
  by (cases m) simp_all

lemma bindr_eq_Inr: "bindr m f = Inr y \<longleftrightarrow> (\<exists>x. m = Inr x \<and> f x = Inr y)"
  by (cases m) simp_all

lemma bindr_InrE:
  assumes "bindr m f = Inr y"
  obtains x where "m = Inr x" and "f x = Inr y"
  using assms by (auto simp: bindr_eq_Inr)

lemma bindr_if [simp]: "bindr (if b then m else n) f = (if b then bindr m f else bindr n f)"
  by simp

text \<open>A guard that panics, and reads of pointers that may be null.\<close>

definition panic_if :: "bool \<Rightarrow> string \<Rightarrow> unit result" where
  "panic_if b m = (if b then Inl (Panic m) else Inr ())"

definition deref :: "'a option \<Rightarrow> 'a result" where
  "deref p = (case p of None \<Rightarrow> Inl Null_Deref | Some x \<Rightarrow> Inr x)"

definition in_bounds :: "bool \<Rightarrow> unit result" where
  "in_bounds b = (if b then Inr () else Inl Out_Of_Bounds)"

lemma panic_if_simps [simp]:
  "panic_if True m = Inl (Panic m)"
  "panic_if False m = Inr ()"
  by (simp_all add: panic_if_def)

lemma deref_simps [simp]:
  "deref None = Inl Null_Deref"
  "deref (Some x) = Inr x"
  by (simp_all add: deref_def)

lemma in_bounds_simps [simp]:
  "in_bounds True = Inr ()"
  "in_bounds False = Inl Out_Of_Bounds"
  by (simp_all add: in_bounds_def)

lemma panic_if_Inr [simp]: "panic_if b m = Inr u \<longleftrightarrow> \<not> b"
  by (simp add: panic_if_def)

lemma in_bounds_Inr [simp]: "in_bounds b = Inr u \<longleftrightarrow> b"
  by (simp add: in_bounds_def)

lemma deref_Inr [simp]: "deref p = Inr x \<longleftrightarrow> p = Some x"
  by (simp add: deref_def split: option.splits)


text \<open>Signed addition at 32 bits, where the source does not bound the operands.\<close>

definition c_add :: "int \<Rightarrow> int \<Rightarrow> int result" where
  "c_add a b = (if - (2 ^ 31) \<le> a + b \<and> a + b < 2 ^ 31 then Inr (a + b) else Inl Overflow)"


section \<open>Total correctness of an outcome\<close>

text \<open>\<open>wp m Q\<close>: the computation returns, and its value satisfies \<open>Q\<close>.\<close>

definition wp :: "'a result \<Rightarrow> ('a \<Rightarrow> bool) \<Rightarrow> bool" where
  "wp m Q \<longleftrightarrow> (\<exists>x. m = Inr x \<and> Q x)"

named_theorems wp_simps \<open>equations that compute \<open>wp\<close> of a composed outcome\<close>

lemma wp_Inr [wp_simps, simp]: "wp (Inr x) Q \<longleftrightarrow> Q x"
  by (simp add: wp_def)

lemma wp_Inl [wp_simps, simp]: "\<not> wp (Inl e) Q"
  by (simp add: wp_def)

lemma wp_bindr [wp_simps]: "wp (bindr m f) Q \<longleftrightarrow> wp m (\<lambda>x. wp (f x) Q)"
  by (cases m) simp_all

lemma wp_panic_if [wp_simps]: "wp (panic_if b e) Q \<longleftrightarrow> \<not> b \<and> Q ()"
  by (cases b) simp_all

lemma wp_deref [wp_simps]: "wp (deref p) Q \<longleftrightarrow> (\<exists>x. p = Some x \<and> Q x)"
  by (cases p) simp_all

lemma wp_in_bounds [wp_simps]: "wp (in_bounds b) Q \<longleftrightarrow> b \<and> Q ()"
  by (cases b) simp_all

lemma wp_if [wp_simps]:
  "wp (if b then m else n) Q \<longleftrightarrow> (b \<longrightarrow> wp m Q) \<and> (\<not> b \<longrightarrow> wp n Q)"
  by simp

lemma wp_mono: "wp m P \<Longrightarrow> (\<And>x. P x \<Longrightarrow> Q x) \<Longrightarrow> wp m Q"
  by (auto simp: wp_def)

lemma wp_conj: "wp m P \<Longrightarrow> wp m Q \<Longrightarrow> wp m (\<lambda>x. P x \<and> Q x)"
  by (auto simp: wp_def)

lemma wpD: "wp m Q \<Longrightarrow> m = Inr x \<Longrightarrow> Q x"
  by (simp add: wp_def)

lemma wpE:
  assumes "wp m Q"
  obtains x where "m = Inr x" and "Q x"
  using assms by (auto simp: wp_def)


section \<open>Loops over index ranges\<close>

text \<open>\<open>iter f is s\<close> runs the body \<open>f\<close> once per index of the list, in order.\<close>

primrec iter :: "('i \<Rightarrow> 's \<Rightarrow> 's result) \<Rightarrow> 'i list \<Rightarrow> 's \<Rightarrow> 's result" where
  "iter f [] s = Inr s"
| "iter f (i # is) s = bindr (f i s) (iter f is)"

lemma bindr_cong [fundef_cong]:
  "m = n \<Longrightarrow> (\<And>x. n = Inr x \<Longrightarrow> f x = g x) \<Longrightarrow> bindr m f = bindr n g"
  by (cases n) simp_all

lemma iter_append: "iter f (is @ js) s = bindr (iter f is s) (iter f js)"
proof (induction "is" arbitrary: s)
  case Nil
  then show ?case by simp
next
  case (Cons i "is")
  then show ?case by (cases "f i s") simp_all
qed

lemma wp_seq: "wp m P \<Longrightarrow> (\<And>x. P x \<Longrightarrow> wp (f x) Q) \<Longrightarrow> wp (bindr m f) Q"
  unfolding wp_bindr by (rule wp_mono)

lemma wp_iter_aux:
  assumes step: "\<And>ys i zs s. is = ys @ i # zs \<Longrightarrow> I ys s \<Longrightarrow> wp (f i s) (I (ys @ [i]))"
  shows "is = ys @ zs \<Longrightarrow> I ys s \<Longrightarrow> wp (iter f zs s) (I is)"
proof (induction zs arbitrary: ys s)
  case Nil
  then show ?case by simp
next
  case (Cons i zs)
  from Cons.prems have "wp (f i s) (I (ys @ [i]))" by (rule step)
  moreover have "wp (iter f zs t) (I is)" if "I (ys @ [i]) t" for t
    by (rule Cons.IH [of "ys @ [i]"]) (use that Cons.prems(1) in simp_all)
  ultimately show ?case
    by (auto simp: wp_bindr elim!: wp_mono)
qed

lemma wp_iter:
  assumes "I [] s"
    and "\<And>ys i zs s. is = ys @ i # zs \<Longrightarrow> I ys s \<Longrightarrow> wp (f i s) (I (ys @ [i]))"
  shows "wp (iter f is s) (I is)"
  using wp_iter_aux [of "is" I f "[]" "is" s] assms by simp

lemma iter_preserves:
  assumes "\<And>i s s'. i \<in> set is \<Longrightarrow> P s \<Longrightarrow> f i s = Inr s' \<Longrightarrow> P s'"
    and "P s" and "iter f is s = Inr s'"
  shows "P s'"
  using assms
proof (induction "is" arbitrary: s)
  case Nil
  then show ?case by simp
next
  case (Cons i "is")
  from Cons.prems(3) obtain t where t: "f i s = Inr t" and rest: "iter f is t = Inr s'"
    by (auto elim: bindr_InrE)
  from Cons.prems(1,2) t have "P t" by auto
  then show ?case using Cons.IH [OF _ _ rest] Cons.prems(1) by auto
qed


section \<open>Transition systems\<close>

text \<open>
  Reachable states of a step relation from a set of start states, and the contract of
  an inductive invariant. Every state machine of the development is an instance.
\<close>

inductive reach :: "('s \<Rightarrow> bool) \<Rightarrow> ('s \<Rightarrow> 's \<Rightarrow> bool) \<Rightarrow> 's \<Rightarrow> bool"
  for start :: "'s \<Rightarrow> bool" and step :: "'s \<Rightarrow> 's \<Rightarrow> bool" where
  reach_start: "start s \<Longrightarrow> reach start step s"
| reach_step: "reach start step s \<Longrightarrow> step s t \<Longrightarrow> reach start step t"

locale invariant_system =
  fixes start :: "'s \<Rightarrow> bool"
    and step :: "'s \<Rightarrow> 's \<Rightarrow> bool"
    and inv :: "'s \<Rightarrow> bool"
  assumes inv_start: "start s \<Longrightarrow> inv s"
    and inv_step: "inv s \<Longrightarrow> step s t \<Longrightarrow> inv t"
begin

lemma inv_reach: "reach start step s \<Longrightarrow> inv s"
  by (induction rule: reach.induct) (auto intro: inv_start inv_step)

lemma inv_rtranclp: "step\<^sup>*\<^sup>* s t \<Longrightarrow> inv s \<Longrightarrow> inv t"
  by (induction rule: rtranclp_induct) (auto intro: inv_step)

end

section \<open>Machine words\<close>

lemma unat32_bound: "unat (a :: 32 word) < 4294967296"
proof -
  have "unat a < 2 ^ LENGTH(32)" by (rule unsigned_less)
  then show ?thesis by simp
qed

lemma unat8_bound: "unat (a :: 8 word) < 256"
proof -
  have "unat a < 2 ^ LENGTH(8)" by (rule unsigned_less)
  then show ?thesis by simp
qed

lemma unat_add32: "unat (a :: 32 word) + unat b < 4294967296 \<Longrightarrow> unat (a + b) = unat a + unat b"
  by (simp add: unat_word_ariths)

lemma unat_sub32: "unat (b :: 32 word) \<le> unat a \<Longrightarrow> unat (a - b) = unat a - unat b"
  by (simp add: unat_sub word_le_nat_alt)

end
