(* ===== verification/Kernel_Types.thy ===== *)
theory Kernel_Types
  imports Xv6_Prelude
begin

text \<open>
  The data model of the kernel, from the header files: the configuration constants of
  \<^verbatim>\<open>param.h\<close>, the structures of \<^verbatim>\<open>proc.h\<close>, \<^verbatim>\<open>spinlock.h\<close>,
  \<^verbatim>\<open>sleeplock.h\<close>, \<^verbatim>\<open>semaphore.h\<close>, \<^verbatim>\<open>file.h\<close>, \<^verbatim>\<open>buf.h\<close>,
  \<^verbatim>\<open>x86.h\<close>, and one record \<open>kernel\<close> that holds every global variable of the C files.

  Conventions. An array of structures (\<^verbatim>\<open>ptable.proc\<close>, \<^verbatim>\<open>sems.list\<close>, \<dots>) is a
  function on indices; a pointer into it is an index, a nullable pointer an index option.
  Accesses whose index the code does not bound are checked in the model
  (\<^const>\<open>Out_Of_Bounds\<close>). An \<^verbatim>\<open>int\<close> used as a truth value is a \<open>bool\<close>, other
  \<^verbatim>\<open>int\<close>s are \<open>int\<close>, and unsigned types are machine words.
\<close>

type_synonym uchar = "8 word"
type_synonym ushort = "16 word"
type_synonym uint = "32 word"

section \<open>Configuration (\<^verbatim>\<open>param.h\<close>)\<close>

definition NPROC :: nat where [simp]: "NPROC = 64"
definition KSTACKSIZE :: uint where [simp]: "KSTACKSIZE = 4096"
definition NCPU :: nat where [simp]: "NCPU = 8"
definition NOFILE :: nat where [simp]: "NOFILE = 16"
definition NFILE :: nat where [simp]: "NFILE = 100"
definition NINODE :: nat where [simp]: "NINODE = 50"
definition NDEV :: int where [simp]: "NDEV = 10"
definition ROOTDEV :: uint where [simp]: "ROOTDEV = 1"
definition MAXARG :: nat where [simp]: "MAXARG = 32"
definition MAXOPBLOCKS :: int where [simp]: "MAXOPBLOCKS = 10"
definition QUANTUM :: uint where [simp]: "QUANTUM = 3"
definition AGINGSTEP :: uint where [simp]: "AGINGSTEP = 50"
definition AGELIMIT :: uint where [simp]: "AGELIMIT = 5"
definition PLEVELS :: int where [simp]: "PLEVELS = 4"
definition DEFAULTPLEVEL :: int where [simp]: "DEFAULTPLEVEL = 0"
definition PROCMAXSEM :: int where [simp]: "PROCMAXSEM = 5"
definition SYSMAXSEM :: int where [simp]: "SYSMAXSEM = 20"
definition LOGSIZE :: int where [simp]: "LOGSIZE = MAXOPBLOCKS * 3"
definition NBUF :: nat where [simp]: "NBUF = 30"
definition FSSIZE :: uint where [simp]: "FSSIZE = 1000"


section \<open>Locks and sleep channels\<close>

text \<open>
  The spin locks of the kernel by name. A pipe's lock lives in the pipe's page, and the
  spin lock inside a sleep lock belongs to an inode or to a buffer.
\<close>

datatype lockid =
    Ptable_lock | Sems_lock | Kmem_lock | Tickslock | Cons_lock | Ftable_lock
  | Icache_lock | Bcache_lock | Log_lock | Idelock
  | Pipe_lock uint | Inode_lk nat | Buf_lk nat

text \<open>\<^verbatim>\<open>struct spinlock\<close>; the name and the call stack are debugging data.\<close>

record spinlock =
  lk_locked :: bool
  lk_cpu :: "nat option"

text \<open>\<^verbatim>\<open>struct sleeplock\<close>; its inner spin lock is named by a \<^typ>\<open>lockid\<close>.\<close>

record sleeplock =
  sl_locked :: bool
  sl_pid :: int

text \<open>
  Sleep channels. The code uses the address of the object a process waits for; distinct
  objects have distinct addresses, so a channel is the object's name.
\<close>

datatype chan =
    Chan_proc nat | Chan_sem int | Chan_ticks | Chan_log | Chan_input
  | Chan_nread uint | Chan_nwrite uint | Chan_buf nat
  | Chan_inode_lock nat | Chan_buf_lock nat


section \<open>Processes and CPUs (\<^verbatim>\<open>proc.h\<close>, \<^verbatim>\<open>x86.h\<close>)\<close>

datatype procstate = UNUSED | EMBRYO | SLEEPING | RUNNABLE | RUNNING | ZOMBIE

record trapframe =
  tf_edi :: uint
  tf_esi :: uint
  tf_ebp :: uint
  tf_oesp :: uint
  tf_ebx :: uint
  tf_edx :: uint
  tf_ecx :: uint
  tf_eax :: uint
  tf_gs :: ushort
  tf_fs :: ushort
  tf_es :: ushort
  tf_ds :: ushort
  tf_trapno :: uint
  tf_err :: uint
  tf_eip :: uint
  tf_cs :: ushort
  tf_eflags :: uint
  tf_esp :: uint
  tf_ss :: ushort

text \<open>
  \<^verbatim>\<open>struct proc\<close>. \<open>p_tf\<close> and \<open>p_context\<close> are the addresses of the trap frame and of the
  saved context on the kernel stack. A null \<^verbatim>\<open>pgdir\<close> or \<^verbatim>\<open>kstack\<close> is the address 0.
\<close>

record proc =
  p_sz :: uint
  p_pgdir :: uint
  p_kstack :: uint
  p_state :: procstate
  p_pid :: int
  p_parent :: "nat option"
  p_tf :: uint
  p_context :: uint
  p_chan :: "chan option"
  p_killed :: bool
  p_ofile :: "nat \<Rightarrow> nat option"
  p_cwd :: "nat option"
  p_name :: "nat \<Rightarrow> uchar"
  p_ticks_count :: uint
  p_nice :: int
  p_age :: uint
  p_semids :: "nat \<Rightarrow> int"
  p_semcount :: int
  p_next :: "nat option"
  p_back :: "nat option"

record level =
  lv_head :: "nat option"
  lv_last :: "nat option"

text \<open>
  \<^verbatim>\<open>struct cpu\<close> with the processor registers the kernel reads and writes: the
  interrupt flag of EFLAGS, the page-table base \<^verbatim>\<open>cr3\<close> and the fault address
  \<^verbatim>\<open>cr2\<close>, and the task-state fields that \<^verbatim>\<open>switchuvm\<close> sets.
\<close>

record cpu =
  c_apicid :: uchar
  c_started :: bool
  c_ncli :: int
  c_intena :: bool
  c_proc :: "nat option"
  c_if :: bool
  c_cr2 :: uint
  c_cr3 :: uint
  c_esp0 :: uint
  c_ss0 :: ushort
  c_iomb :: ushort


section \<open>Semaphores, files, pipes, inodes and buffers\<close>

record semaphore =
  sem_value :: int
  sem_references :: int

datatype ftype = FD_NONE | FD_PIPE | FD_INODE

record file_t =
  f_type :: ftype
  f_ref :: int
  f_readable :: bool
  f_writable :: bool
  f_pipe :: uint
  f_ip :: "nat option"
  f_off :: uint

record pipe =
  pi_data :: "nat \<Rightarrow> uchar"
  pi_nread :: uint
  pi_nwrite :: uint
  pi_readopen :: bool
  pi_writeopen :: bool

record inode =
  ip_dev :: uint
  ip_inum :: uint
  ip_ref :: int
  ip_lock :: sleeplock
  ip_valid :: bool
  ip_type :: ushort
  ip_major :: ushort
  ip_minor :: ushort
  ip_nlink :: ushort
  ip_size :: uint
  ip_addrs :: "nat \<Rightarrow> uint"

text \<open>A disk block is its bytes; the two bits of \<^verbatim>\<open>flags\<close> are two fields.\<close>

type_synonym block = "nat \<Rightarrow> uchar"

record buf =
  b_valid :: bool
  b_dirty :: bool
  b_dev :: uint
  b_blockno :: uint
  b_lock :: sleeplock
  b_refcnt :: uint
  b_prev :: nat
  b_next :: nat
  b_qnext :: "nat option"
  b_data :: block

record superblock =
  sb_size :: uint
  sb_nblocks :: uint
  sb_ninodes :: uint
  sb_nlog :: uint
  sb_logstart :: uint
  sb_inodestart :: uint
  sb_bmapstart :: uint

record logheader =
  lh_n :: int
  lh_block :: "nat \<Rightarrow> int"

record log =
  log_start :: int
  log_size :: int
  log_outstanding :: int
  log_committing :: bool
  log_dev :: int
  log_lh :: logheader

record input_buf =
  in_buf :: "nat \<Rightarrow> uchar"
  in_r :: uint
  in_w :: uint
  in_e :: uint


section \<open>The kernel state\<close>

text \<open>
  The globals of the C files, in the order spinlock, proc, trap, semaphore, kalloc,
  file, pipe, fs, bio, log, ide, console. \<open>this_cpu\<close> is the index \<^verbatim>\<open>mycpu()\<close> finds for the
  CPU that executes; \<open>mem\<close> is the physical memory at its kernel virtual addresses;
  \<open>disk\<close> the medium behind the driver and \<open>disksize\<close> its length in blocks; \<open>cons_out\<close> what
  has gone to the serial port; \<open>crt\<close> and \<open>crt_pos\<close> the display memory and its cursor
  register; \<open>devsw\<close> which devices have handlers; \<open>frames\<close> the trap frames by address, and
  \<open>kframe\<close> the address of the frame that a fault in kernel mode pushes; \<open>first_forkret\<close> the
  static variable of \<^verbatim>\<open>forkret\<close>; \<open>trapret_at\<close>, \<open>forkret_at\<close>, \<open>kend\<close> and \<open>kdata\<close> the linker's
  symbols \<^verbatim>\<open>trapret\<close>, \<^verbatim>\<open>forkret\<close>, \<^verbatim>\<open>end\<close> and \<^verbatim>\<open>data\<close>, which no operation changes.
\<close>

record kernel =
  cpus :: "nat \<Rightarrow> cpu"
  ncpu :: nat
  this_cpu :: nat
  locks :: "lockid \<Rightarrow> spinlock"
  procs :: "nat \<Rightarrow> proc"
  levels :: "nat \<Rightarrow> level"
  initproc :: "nat option"
  nextpid :: int
  ticks :: uint
  aging_ticks :: uint
  sems_list :: "nat \<Rightarrow> semaphore"
  sems_used :: int
  mem :: "uint \<Rightarrow> uchar"
  use_lock :: bool
  freelist :: uint
  cow_count :: "nat \<Rightarrow> uchar"
  kpgdir :: uint
  ftable :: "nat \<Rightarrow> file_t"
  pipes :: "uint \<Rightarrow> pipe"
  sb :: superblock
  icache :: "nat \<Rightarrow> inode"
  bcache :: "nat \<Rightarrow> buf"
  log_st :: log
  idequeue :: "nat option"
  disk :: "nat \<Rightarrow> block"
  input :: input_buf
  cons_locking :: bool
  panicked :: bool
  cons_out :: "int list"
  crt :: "nat \<Rightarrow> ushort"
  crt_pos :: int
  disksize :: uint
  devsw :: "nat \<Rightarrow> bool"
  frames :: "uint \<Rightarrow> trapframe"
  kframe :: uint
  first_forkret :: bool
  trapret_at :: uint
  forkret_at :: uint
  kend :: uint
  kdata :: uint

text \<open>Updates of one element of an array of structures.\<close>

definition upd_proc :: "nat \<Rightarrow> (proc \<Rightarrow> proc) \<Rightarrow> kernel \<Rightarrow> kernel" where
  "upd_proc i f s = s\<lparr>procs := (procs s)(i := f (procs s i))\<rparr>"

definition upd_level :: "nat \<Rightarrow> (level \<Rightarrow> level) \<Rightarrow> kernel \<Rightarrow> kernel" where
  "upd_level i f s = s\<lparr>levels := (levels s)(i := f (levels s i))\<rparr>"

definition upd_cpu :: "(cpu \<Rightarrow> cpu) \<Rightarrow> kernel \<Rightarrow> kernel" where
  "upd_cpu f s = s\<lparr>cpus := (cpus s)(this_cpu s := f (cpus s (this_cpu s)))\<rparr>"

definition upd_lock :: "lockid \<Rightarrow> (spinlock \<Rightarrow> spinlock) \<Rightarrow> kernel \<Rightarrow> kernel" where
  "upd_lock l f s = s\<lparr>locks := (locks s)(l := f (locks s l))\<rparr>"

definition upd_sem :: "nat \<Rightarrow> (semaphore \<Rightarrow> semaphore) \<Rightarrow> kernel \<Rightarrow> kernel" where
  "upd_sem i f s = s\<lparr>sems_list := (sems_list s)(i := f (sems_list s i))\<rparr>"

definition upd_file :: "nat \<Rightarrow> (file_t \<Rightarrow> file_t) \<Rightarrow> kernel \<Rightarrow> kernel" where
  "upd_file i f s = s\<lparr>ftable := (ftable s)(i := f (ftable s i))\<rparr>"

definition upd_pipe :: "uint \<Rightarrow> (pipe \<Rightarrow> pipe) \<Rightarrow> kernel \<Rightarrow> kernel" where
  "upd_pipe a f s = s\<lparr>pipes := (pipes s)(a := f (pipes s a))\<rparr>"

definition upd_inode :: "nat \<Rightarrow> (inode \<Rightarrow> inode) \<Rightarrow> kernel \<Rightarrow> kernel" where
  "upd_inode i f s = s\<lparr>icache := (icache s)(i := f (icache s i))\<rparr>"

definition upd_buf :: "nat \<Rightarrow> (buf \<Rightarrow> buf) \<Rightarrow> kernel \<Rightarrow> kernel" where
  "upd_buf i f s = s\<lparr>bcache := (bcache s)(i := f (bcache s i))\<rparr>"

definition upd_log :: "(log \<Rightarrow> log) \<Rightarrow> kernel \<Rightarrow> kernel" where
  "upd_log f s = s\<lparr>log_st := f (log_st s)\<rparr>"

lemmas upd_defs [simp] =
  upd_proc_def upd_level_def upd_cpu_def upd_lock_def upd_sem_def upd_file_def
  upd_pipe_def upd_inode_def upd_buf_def upd_log_def

section \<open>The initial state\<close>

text \<open>
  Static storage is zero: null pointers, empty tables, free locks. \<open>booted n\<close> is the state
  once \<^verbatim>\<open>mpinit\<close> has entered \<open>n\<close> CPUs, CPU 0 executing.
\<close>

definition zero_proc :: proc where
  "zero_proc = \<lparr>p_sz = 0, p_pgdir = 0, p_kstack = 0, p_state = UNUSED, p_pid = 0, p_parent = None, p_tf = 0,
     p_context = 0, p_chan = None, p_killed = False, p_ofile = (\<lambda>_. None), p_cwd = None, p_name = (\<lambda>_. 0),
     p_ticks_count = 0, p_nice = 0, p_age = 0, p_semids = (\<lambda>_. 0), p_semcount = 0, p_next = None, p_back = None\<rparr>"

definition zero_cpu :: cpu where
  "zero_cpu = \<lparr>c_apicid = 0, c_started = False, c_ncli = 0, c_intena = False, c_proc = None, c_if = False,
     c_cr2 = 0, c_cr3 = 0, c_esp0 = 0, c_ss0 = 0, c_iomb = 0\<rparr>"

definition zero_sleeplock :: sleeplock where
  "zero_sleeplock = \<lparr>sl_locked = False, sl_pid = 0\<rparr>"

definition zero_file :: file_t where
  "zero_file = \<lparr>f_type = FD_NONE, f_ref = 0, f_readable = False, f_writable = False, f_pipe = 0, f_ip = None,
     f_off = 0\<rparr>"

definition zero_pipe :: pipe where
  "zero_pipe = \<lparr>pi_data = (\<lambda>_. 0), pi_nread = 0, pi_nwrite = 0, pi_readopen = False, pi_writeopen = False\<rparr>"

definition zero_inode :: inode where
  "zero_inode = \<lparr>ip_dev = 0, ip_inum = 0, ip_ref = 0, ip_lock = zero_sleeplock, ip_valid = False, ip_type = 0,
     ip_major = 0, ip_minor = 0, ip_nlink = 0, ip_size = 0, ip_addrs = (\<lambda>_. 0)\<rparr>"

definition zero_buf :: buf where
  "zero_buf = \<lparr>b_valid = False, b_dirty = False, b_dev = 0, b_blockno = 0, b_lock = zero_sleeplock, b_refcnt = 0,
     b_prev = 0, b_next = 0, b_qnext = None, b_data = (\<lambda>_. 0)\<rparr>"

definition zero_sb :: superblock where
  "zero_sb = \<lparr>sb_size = 0, sb_nblocks = 0, sb_ninodes = 0, sb_nlog = 0, sb_logstart = 0, sb_inodestart = 0,
     sb_bmapstart = 0\<rparr>"

definition zero_log :: log where
  "zero_log = \<lparr>log_start = 0, log_size = 0, log_outstanding = 0, log_committing = False, log_dev = 0,
     log_lh = \<lparr>lh_n = 0, lh_block = (\<lambda>_. 0)\<rparr>\<rparr>"

definition zero_frame :: trapframe where
  "zero_frame = \<lparr>tf_edi = 0, tf_esi = 0, tf_ebp = 0, tf_oesp = 0, tf_ebx = 0, tf_edx = 0, tf_ecx = 0, tf_eax = 0,
     tf_gs = 0, tf_fs = 0, tf_es = 0, tf_ds = 0, tf_trapno = 0, tf_err = 0, tf_eip = 0, tf_cs = 0, tf_eflags = 0,
     tf_esp = 0, tf_ss = 0\<rparr>"

definition booted :: "nat \<Rightarrow> kernel" where
  "booted n = \<lparr>cpus = (\<lambda>i. zero_cpu\<lparr>c_apicid := of_nat i\<rparr>), ncpu = n, this_cpu = 0,
     locks = (\<lambda>_. \<lparr>lk_locked = False, lk_cpu = None\<rparr>), procs = (\<lambda>_. zero_proc),
     levels = (\<lambda>_. \<lparr>lv_head = None, lv_last = None\<rparr>), initproc = None, nextpid = 1, ticks = 0, aging_ticks = 0,
     sems_list = (\<lambda>_. \<lparr>sem_value = 0, sem_references = 0\<rparr>), sems_used = 0, mem = (\<lambda>_. 0), use_lock = False,
     freelist = 0, cow_count = (\<lambda>_. 0), kpgdir = 0, ftable = (\<lambda>_. zero_file), pipes = (\<lambda>_. zero_pipe),
     sb = zero_sb, icache = (\<lambda>_. zero_inode), bcache = (\<lambda>_. zero_buf), log_st = zero_log, idequeue = None,
     disk = (\<lambda>_ _. 0), input = \<lparr>in_buf = (\<lambda>_. 0), in_r = 0, in_w = 0, in_e = 0\<rparr>, cons_locking = False,
     panicked = False, cons_out = [], crt = (\<lambda>_. 0), crt_pos = 0, disksize = 0, devsw = (\<lambda>_. False),
     frames = (\<lambda>_. zero_frame), kframe = 0, first_forkret = True, trapret_at = 0, forkret_at = 0,
     kend = 0x80120000, kdata = 0x80110000\<rparr>"

lemmas zero_defs = zero_proc_def zero_cpu_def zero_sleeplock_def zero_file_def zero_pipe_def zero_inode_def
  zero_buf_def zero_sb_def zero_log_def zero_frame_def

lemma zero_cpu_fields [simp]:
  "c_apicid zero_cpu = 0" "c_ncli zero_cpu = 0" "c_intena zero_cpu = False" "c_proc zero_cpu = None"
  "c_if zero_cpu = False" "c_cr2 zero_cpu = 0" "c_cr3 zero_cpu = 0"
  by (simp_all add: zero_cpu_def)

lemma booted_simps [simp]:
  "cpus (booted n) = (\<lambda>i. zero_cpu\<lparr>c_apicid := of_nat i\<rparr>)" "ncpu (booted n) = n" "this_cpu (booted n) = 0"
  "locks (booted n) = (\<lambda>_. \<lparr>lk_locked = False, lk_cpu = None\<rparr>)" "procs (booted n) = (\<lambda>_. zero_proc)"
  "levels (booted n) = (\<lambda>_. \<lparr>lv_head = None, lv_last = None\<rparr>)" "sems_used (booted n) = 0"
  "sems_list (booted n) = (\<lambda>_. \<lparr>sem_value = 0, sem_references = 0\<rparr>)" "pipes (booted n) = (\<lambda>_. zero_pipe)"
  "freelist (booted n) = 0" "use_lock (booted n) = False" "log_st (booted n) = zero_log"
  "initproc (booted n) = None" "nextpid (booted n) = 1" "mem (booted n) = (\<lambda>_. 0)" "kend (booted n) = 0x80120000"
  "cow_count (booted n) = (\<lambda>_. 0)" "icache (booted n) = (\<lambda>_. zero_inode)" "bcache (booted n) = (\<lambda>_. zero_buf)"
  "ftable (booted n) = (\<lambda>_. zero_file)" "frames (booted n) = (\<lambda>_. zero_frame)" "panicked (booted n) = False"
  "crt_pos (booted n) = 0" "cons_out (booted n) = []" "disk (booted n) = (\<lambda>_ _. 0)" "disksize (booted n) = 0"
  by (simp_all add: booted_def)

end
