(* ===== verification/Spinlock.thy ===== *)
theory Spinlock
  imports Kernel_Types
begin

text \<open>
  Spin locks (\<^verbatim>\<open>spinlock.c\<close>) and the identification of the executing CPU
  (\<^verbatim>\<open>mycpu\<close>, \<^verbatim>\<open>cpuid\<close> and \<^verbatim>\<open>myproc\<close> of \<^verbatim>\<open>proc.c\<close>). The section ends with
  the closed forms of \<^verbatim>\<open>acquire\<close> and \<^verbatim>\<open>release\<close> that every client uses, and with
  the interleaving of the CPUs' lock operations.
\<close>

section \<open>The executing CPU\<close>

definition readeflags_if :: "kernel \<Rightarrow> bool" where
  "readeflags_if s = c_if (cpus s (this_cpu s))"

definition cli :: "kernel \<Rightarrow> kernel" where
  "cli s = upd_cpu (\<lambda>c. c\<lparr>c_if := False\<rparr>) s"

definition sti :: "kernel \<Rightarrow> kernel" where
  "sti s = upd_cpu (\<lambda>c. c\<lparr>c_if := True\<rparr>) s"

text \<open>The local APIC's identifier register names the CPU that reads it.\<close>

definition lapicid :: "kernel \<Rightarrow> uchar" where
  "lapicid s = c_apicid (cpus s (this_cpu s))"

definition mycpu :: "kernel \<Rightarrow> nat result" where
  "mycpu s =
     (if readeflags_if s then Inl (Panic ''mycpu called with interrupts enabled\<newline>'')
      else case find (\<lambda>i. c_apicid (cpus s i) = lapicid s) [0..<ncpu s] of
             None \<Rightarrow> Inl (Panic ''unknown apicid\<newline>'')
           | Some i \<Rightarrow> Inr i)"

definition cpuid :: "kernel \<Rightarrow> nat result" where
  "cpuid s = mycpu s"

section \<open>Nested disabling of interrupts\<close>

definition pushcli :: "kernel \<Rightarrow> kernel result" where
  "pushcli s =
     (let eflags = readeflags_if s; s = cli s in
      bindr (mycpu s) (\<lambda>c.
        let s = (if c_ncli (cpus s c) = 0
                 then s\<lparr>cpus := (cpus s)(c := (cpus s c)\<lparr>c_intena := eflags\<rparr>)\<rparr> else s)
        in Inr (s\<lparr>cpus := (cpus s)(c := (cpus s c)\<lparr>c_ncli := c_ncli (cpus s c) + 1\<rparr>)\<rparr>)))"

definition popcli :: "kernel \<Rightarrow> kernel result" where
  "popcli s =
     bindr (panic_if (readeflags_if s) ''popcli - interruptible'') (\<lambda>_.
     bindr (mycpu s) (\<lambda>c.
       let s = s\<lparr>cpus := (cpus s)(c := (cpus s c)\<lparr>c_ncli := c_ncli (cpus s c) - 1\<rparr>)\<rparr> in
       bindr (panic_if (c_ncli (cpus s c) < 0) ''popcli'') (\<lambda>_.
       Inr (if c_ncli (cpus s c) = 0 \<and> c_intena (cpus s c) then sti s else s))))"

definition myproc :: "kernel \<Rightarrow> (nat option \<times> kernel) result" where
  "myproc s =
     bindr (pushcli s) (\<lambda>s.
     bindr (mycpu s) (\<lambda>c.
     let p = c_proc (cpus s c) in
     bindr (popcli s) (\<lambda>s. Inr (p, s))))"

section \<open>Locks\<close>

definition initlock :: "lockid \<Rightarrow> kernel \<Rightarrow> kernel" where
  "initlock lk s = upd_lock lk (\<lambda>l. l\<lparr>lk_locked := False, lk_cpu := None\<rparr>) s"

definition holding :: "lockid \<Rightarrow> kernel \<Rightarrow> (bool \<times> kernel) result" where
  "holding lk s =
     bindr (pushcli s) (\<lambda>s.
     bindr (mycpu s) (\<lambda>c.
     let r = (lk_locked (locks s lk) \<and> lk_cpu (locks s lk) = Some c) in
     bindr (popcli s) (\<lambda>s. Inr (r, s))))"

text \<open>The exchange loop ends at once on a free lock; on a lock another CPU holds it spins.\<close>

definition acquire :: "lockid \<Rightarrow> kernel \<Rightarrow> kernel result" where
  "acquire lk s =
     bindr (pushcli s) (\<lambda>s.
     bindr (holding lk s) (\<lambda>(h, s).
     bindr (panic_if h ''acquire'') (\<lambda>_.
     if lk_locked (locks s lk) then Inl Spins
     else
       let s = upd_lock lk (\<lambda>l. l\<lparr>lk_locked := True\<rparr>) s in
       bindr (mycpu s) (\<lambda>c.
       Inr (upd_lock lk (\<lambda>l. l\<lparr>lk_cpu := Some c\<rparr>) s)))))"

definition release :: "lockid \<Rightarrow> kernel \<Rightarrow> kernel result" where
  "release lk s =
     bindr (holding lk s) (\<lambda>(h, s).
     bindr (panic_if (\<not> h) ''release'') (\<lambda>_.
     let s = upd_lock lk (\<lambda>l. l\<lparr>lk_cpu := None\<rparr>) s;
         s = upd_lock lk (\<lambda>l. l\<lparr>lk_locked := False\<rparr>) s
     in popcli s))"

text \<open>
  The call stack recorded for debugging: up to ten return addresses along the chain of
  saved frame pointers, then zeros. \<open>ld\<close> reads a word of kernel memory.
\<close>

fun callerpcs :: "(uint \<Rightarrow> uint) \<Rightarrow> nat \<Rightarrow> uint \<Rightarrow> uint list" where
  "callerpcs ld 0 ebp = []"
| "callerpcs ld (Suc n) ebp =
     (if ebp = 0 \<or> ebp < 0x80000000 \<or> ebp = 0xffffffff then replicate (Suc n) 0
      else ld (ebp + 4) # callerpcs ld n (ld ebp))"

definition getcallerpcs :: "(uint \<Rightarrow> uint) \<Rightarrow> uint \<Rightarrow> uint list" where
  "getcallerpcs ld v = callerpcs ld 10 (v - 8)"

section \<open>Closed forms\<close>

text \<open>
  \<open>cpu_view n k c\<close>: CPU \<open>n\<close> of \<open>k\<close> is one of the machine's CPUs, APIC identifiers are
  distinct, the nesting depth is not negative, and interrupts are off while it is positive.
\<close>

definition distinct_ids :: "nat \<Rightarrow> (nat \<Rightarrow> cpu) \<Rightarrow> bool" where
  "distinct_ids k c \<longleftrightarrow> inj_on (\<lambda>i. c_apicid (c i)) {..<k}"

definition cpu_view :: "nat \<Rightarrow> nat \<Rightarrow> (nat \<Rightarrow> cpu) \<Rightarrow> bool" where
  "cpu_view n k c \<longleftrightarrow>
     n < k \<and> distinct_ids k c \<and>
     0 \<le> c_ncli (c n) \<and> (0 < c_ncli (c n) \<longrightarrow> \<not> c_if (c n))"

abbreviation cpu_wf :: "kernel \<Rightarrow> bool" where
  "cpu_wf s \<equiv> cpu_view (this_cpu s) (ncpu s) (cpus s)"

abbreviation lock_free :: "lockid \<Rightarrow> kernel \<Rightarrow> bool" where
  "lock_free lk s \<equiv> \<not> lk_locked (locks s lk)"

abbreviation lock_held :: "lockid \<Rightarrow> kernel \<Rightarrow> bool" where
  "lock_held lk s \<equiv> locks s lk = \<lparr>lk_locked = True, lk_cpu = Some (this_cpu s)\<rparr>"

definition push1 :: "cpu \<Rightarrow> cpu" where
  "push1 c = c\<lparr>c_if := False, c_ncli := c_ncli c + 1,
              c_intena := (if c_ncli c = 0 then c_if c else c_intena c)\<rparr>"

definition pop1 :: "cpu \<Rightarrow> cpu" where
  "pop1 c = c\<lparr>c_ncli := c_ncli c - 1, c_if := (c_ncli c = 1 \<and> c_intena c)\<rparr>"

definition acq :: "lockid \<Rightarrow> kernel \<Rightarrow> kernel" where
  "acq lk s = s\<lparr>cpus := (cpus s)(this_cpu s := push1 (cpus s (this_cpu s))),
                locks := (locks s)(lk := \<lparr>lk_locked = True, lk_cpu = Some (this_cpu s)\<rparr>)\<rparr>"

definition rel :: "lockid \<Rightarrow> kernel \<Rightarrow> kernel" where
  "rel lk s = s\<lparr>cpus := (cpus s)(this_cpu s := pop1 (cpus s (this_cpu s))),
                locks := (locks s)(lk := \<lparr>lk_locked = False, lk_cpu = None\<rparr>)\<rparr>"

lemma mycpu_this:
  assumes "cpu_wf s" and "\<not> c_if (cpus s (this_cpu s))"
  shows "mycpu s = Inr (this_cpu s)"
proof -
  have "find (\<lambda>i. c_apicid (cpus s i) = lapicid s) [0..<ncpu s] = Some (this_cpu s)"
    using assms(1)
    by (auto simp: find_Some_iff cpu_view_def distinct_ids_def lapicid_def dest: inj_onD intro!: exI [of _ "this_cpu s"])
  with assms(2) show ?thesis by (simp add: mycpu_def readeflags_if_def)
qed

lemma distinct_ids_upd [simp]:
  assumes "c_apicid d = c_apicid (c n)"
  shows "distinct_ids k (c(n := d)) = distinct_ids k c"
proof -
  have "(\<lambda>i. c_apicid ((c(n := d)) i)) = (\<lambda>i. c_apicid (c i))"
    using assms by auto
  then show ?thesis by (simp add: distinct_ids_def)
qed

lemma push1_fields [simp]:
  "c_apicid (push1 c) = c_apicid c" "c_ncli (push1 c) = c_ncli c + 1" "\<not> c_if (push1 c)"
  "c_proc (push1 c) = c_proc c" "c_cr2 (push1 c) = c_cr2 c" "c_cr3 (push1 c) = c_cr3 c"
  by (simp_all add: push1_def)

lemma pop1_fields [simp]:
  "c_apicid (pop1 c) = c_apicid c" "c_ncli (pop1 c) = c_ncli c - 1"
  "c_proc (pop1 c) = c_proc c" "c_cr2 (pop1 c) = c_cr2 c" "c_cr3 (pop1 c) = c_cr3 c"
  "c_if (pop1 c) \<longleftrightarrow> c_ncli c = 1 \<and> c_intena c"
  by (simp_all add: pop1_def)

lemma cpu_view_push1 [simp]: "cpu_view n k c \<Longrightarrow> cpu_view n k (c(n := push1 (c n)))"
  by (simp add: cpu_view_def)

lemma cpu_view_pop1 [simp]:
  "cpu_view n k c \<Longrightarrow> 0 < c_ncli (c n) \<Longrightarrow> cpu_view n k (c(n := pop1 (c n)))"
  by (simp add: cpu_view_def)

lemma pushcli_eq:
  assumes "cpu_wf s"
  shows "pushcli s = Inr (upd_cpu push1 s)"
proof -
  have "cpu_wf (cli s)"
    using assms by (simp add: cli_def cpu_view_def)
  then have "mycpu (cli s) = Inr (this_cpu s)"
    by (subst mycpu_this) (simp_all add: cli_def)
  then show ?thesis
    by (cases "cpus s (this_cpu s)") (simp add: pushcli_def Let_def readeflags_if_def cli_def push1_def)
qed

lemma popcli_eq:
  assumes "cpu_wf s" and "0 < c_ncli (cpus s (this_cpu s))"
  shows "popcli s = Inr (upd_cpu pop1 s)"
proof -
  have "\<not> c_if (cpus s (this_cpu s))" using assms by (simp add: cpu_view_def)
  with assms show ?thesis
    by (cases "cpus s (this_cpu s)") (auto simp: popcli_def Let_def readeflags_if_def mycpu_this sti_def pop1_def)
qed

text \<open>Under a held lock, a matched pair of \<^verbatim>\<open>pushcli\<close> and \<^verbatim>\<open>popcli\<close> is invisible.\<close>

lemma pop1_push1: "0 < c_ncli c \<Longrightarrow> \<not> c_if c \<Longrightarrow> pop1 (push1 c) = c"
  by (simp add: pop1_def push1_def)

text \<open>At depth zero only the dead field \<^verbatim>\<open>intena\<close> may differ.\<close>

lemma pop1_push1_zero: "c_ncli c = 0 \<Longrightarrow> pop1 (push1 c) = c\<lparr>c_intena := c_if c\<rparr>"
  by (simp add: pop1_def push1_def)

lemma upd_cpu_push_nested:
  assumes "cpu_wf s" and "0 < c_ncli (cpus s (this_cpu s))"
  shows "upd_cpu pop1 (upd_cpu push1 s) = s"
proof -
  have "pop1 (push1 (cpus s (this_cpu s))) = cpus s (this_cpu s)"
    using assms by (intro pop1_push1) (auto simp: cpu_view_def)
  then show ?thesis by simp
qed

lemma myproc_eq:
  assumes "cpu_wf s"
  shows "myproc s = Inr (c_proc (cpus s (this_cpu s)), upd_cpu (pop1 \<circ> push1) s)"
proof -
  have "0 \<le> c_ncli (cpus s (this_cpu s))" using assms by (simp add: cpu_view_def)
  with assms show ?thesis
    by (simp add: myproc_def pushcli_eq mycpu_this popcli_eq)
qed

lemma holding_eq:
  assumes "cpu_wf s" and "0 < c_ncli (cpus s (this_cpu s))"
  shows "holding lk s =
    Inr (lk_locked (locks s lk) \<and> lk_cpu (locks s lk) = Some (this_cpu s), s)"
proof -
  have "pop1 (push1 (cpus s (this_cpu s))) = cpus s (this_cpu s)"
    using assms by (intro pop1_push1) (auto simp: cpu_view_def)
  with assms show ?thesis
    by (simp add: holding_def pushcli_eq mycpu_this popcli_eq Let_def)
qed

lemma acquire_free [simp]:
  assumes "cpu_wf s" and "lock_free lk s"
  shows "acquire lk s = Inr (acq lk s)"
proof -
  have "0 \<le> c_ncli (cpus s (this_cpu s))" using assms by (simp add: cpu_view_def)
  with assms show ?thesis
    by (cases "locks s lk") (simp add: acquire_def pushcli_eq holding_eq mycpu_this acq_def)
qed

lemma acquire_own:
  assumes "cpu_wf s" and "lock_held lk s"
  shows "acquire lk s = Inl (Panic ''acquire'')"
proof -
  have "0 \<le> c_ncli (cpus s (this_cpu s))" using assms by (simp add: cpu_view_def)
  with assms show ?thesis by (simp add: acquire_def pushcli_eq holding_eq)
qed

lemma acquire_other:
  assumes "cpu_wf s" and "lk_locked (locks s lk)" and "lk_cpu (locks s lk) \<noteq> Some (this_cpu s)"
  shows "acquire lk s = Inl Spins"
proof -
  have "0 \<le> c_ncli (cpus s (this_cpu s))" using assms by (simp add: cpu_view_def)
  with assms show ?thesis by (simp add: acquire_def pushcli_eq holding_eq)
qed

lemma release_held [simp]:
  assumes "cpu_wf s" and "lock_held lk s" and "0 < c_ncli (cpus s (this_cpu s))"
  shows "release lk s = Inr (rel lk s)"
  using assms by (simp add: release_def holding_eq popcli_eq rel_def)

lemma release_not_held:
  assumes "cpu_wf s" and "0 < c_ncli (cpus s (this_cpu s))"
    and "\<not> (lk_locked (locks s lk) \<and> lk_cpu (locks s lk) = Some (this_cpu s))"
  shows "release lk s = Inl (Panic ''release'')"
  using assms by (auto simp: release_def holding_eq)

lemma holding_any:
  assumes "cpu_wf s"
  shows "holding lk s =
    Inr (lk_locked (locks s lk) \<and> lk_cpu (locks s lk) = Some (this_cpu s), upd_cpu (pop1 \<circ> push1) s)"
proof -
  have "0 \<le> c_ncli (cpus s (this_cpu s))" using assms by (simp add: cpu_view_def)
  with assms show ?thesis
    by (simp add: holding_def pushcli_eq mycpu_this popcli_eq Let_def)
qed

lemma release_panics:
  assumes "cpu_wf s" and "\<not> (lk_locked (locks s lk) \<and> lk_cpu (locks s lk) = Some (this_cpu s))"
  shows "release lk s = Inl (Panic ''release'')"
  using assms by (auto simp: release_def holding_any)

text \<open>The closed forms keep the executing CPU well formed, and all other state.\<close>

lemma acq_fields [simp]:
  "this_cpu (acq lk s) = this_cpu s" "ncpu (acq lk s) = ncpu s" "procs (acq lk s) = procs s"
  "levels (acq lk s) = levels s" "initproc (acq lk s) = initproc s" "nextpid (acq lk s) = nextpid s"
  "ticks (acq lk s) = ticks s" "aging_ticks (acq lk s) = aging_ticks s"
  "sems_list (acq lk s) = sems_list s" "sems_used (acq lk s) = sems_used s" "mem (acq lk s) = mem s"
  "use_lock (acq lk s) = use_lock s" "freelist (acq lk s) = freelist s"
  "cow_count (acq lk s) = cow_count s" "kpgdir (acq lk s) = kpgdir s" "ftable (acq lk s) = ftable s"
  "pipes (acq lk s) = pipes s" "sb (acq lk s) = sb s" "icache (acq lk s) = icache s"
  "bcache (acq lk s) = bcache s" "log_st (acq lk s) = log_st s" "idequeue (acq lk s) = idequeue s"
  "disk (acq lk s) = disk s" "input (acq lk s) = input s" "cons_locking (acq lk s) = cons_locking s"
  "panicked (acq lk s) = panicked s" "cons_out (acq lk s) = cons_out s" "crt (acq lk s) = crt s"
  "crt_pos (acq lk s) = crt_pos s" "disksize (acq lk s) = disksize s" "devsw (acq lk s) = devsw s"
  "frames (acq lk s) = frames s" "kframe (acq lk s) = kframe s"
  "first_forkret (acq lk s) = first_forkret s" "trapret_at (acq lk s) = trapret_at s" "forkret_at (acq lk s) = forkret_at s"
  "kend (acq lk s) = kend s" "kdata (acq lk s) = kdata s"
  by (simp_all add: acq_def)

lemma rel_fields [simp]:
  "this_cpu (rel lk s) = this_cpu s" "ncpu (rel lk s) = ncpu s" "procs (rel lk s) = procs s"
  "levels (rel lk s) = levels s" "initproc (rel lk s) = initproc s" "nextpid (rel lk s) = nextpid s"
  "ticks (rel lk s) = ticks s" "aging_ticks (rel lk s) = aging_ticks s"
  "sems_list (rel lk s) = sems_list s" "sems_used (rel lk s) = sems_used s" "mem (rel lk s) = mem s"
  "use_lock (rel lk s) = use_lock s" "freelist (rel lk s) = freelist s"
  "cow_count (rel lk s) = cow_count s" "kpgdir (rel lk s) = kpgdir s" "ftable (rel lk s) = ftable s"
  "pipes (rel lk s) = pipes s" "sb (rel lk s) = sb s" "icache (rel lk s) = icache s"
  "bcache (rel lk s) = bcache s" "log_st (rel lk s) = log_st s" "idequeue (rel lk s) = idequeue s"
  "disk (rel lk s) = disk s" "input (rel lk s) = input s" "cons_locking (rel lk s) = cons_locking s"
  "panicked (rel lk s) = panicked s" "cons_out (rel lk s) = cons_out s" "crt (rel lk s) = crt s"
  "crt_pos (rel lk s) = crt_pos s" "disksize (rel lk s) = disksize s" "devsw (rel lk s) = devsw s"
  "frames (rel lk s) = frames s" "kframe (rel lk s) = kframe s"
  "first_forkret (rel lk s) = first_forkret s" "trapret_at (rel lk s) = trapret_at s" "forkret_at (rel lk s) = forkret_at s"
  "kend (rel lk s) = kend s" "kdata (rel lk s) = kdata s"
  by (simp_all add: rel_def)

lemma acq_locks [simp]:
  "locks (acq lk s) = (locks s)(lk := \<lparr>lk_locked = True, lk_cpu = Some (this_cpu s)\<rparr>)"
  "cpus (acq lk s) = (cpus s)(this_cpu s := push1 (cpus s (this_cpu s)))"
  by (simp_all add: acq_def)

lemma rel_locks [simp]:
  "locks (rel lk s) = (locks s)(lk := \<lparr>lk_locked = False, lk_cpu = None\<rparr>)"
  "cpus (rel lk s) = (cpus s)(this_cpu s := pop1 (cpus s (this_cpu s)))"
  by (simp_all add: rel_def)

section \<open>CPUs interleaving on locks\<close>

text \<open>
  A step of the machine, as far as locks go: some CPU returns from \<^verbatim>\<open>acquire\<close> or
  \<^verbatim>\<open>release\<close>, or a CPU outside every critical section changes its interrupt flag (the
  scheduler's \<^verbatim>\<open>sti\<close>, entry to and return from user mode).
\<close>

abbreviation on_cpu :: "nat \<Rightarrow> kernel \<Rightarrow> kernel" where
  "on_cpu i s \<equiv> s\<lparr>this_cpu := i\<rparr>"

inductive lock_step :: "kernel \<Rightarrow> kernel \<Rightarrow> bool" where
  ls_acquire: "i < ncpu s \<Longrightarrow> acquire lk (on_cpu i s) = Inr t \<Longrightarrow> lock_step s t"
| ls_release: "i < ncpu s \<Longrightarrow> release lk (on_cpu i s) = Inr t \<Longrightarrow> lock_step s t"
| ls_intr: "i < ncpu s \<Longrightarrow> c_ncli (cpus s i) = 0 \<Longrightarrow>
    lock_step s (upd_cpu (\<lambda>c. c\<lparr>c_if := b\<rparr>) (on_cpu i s))"

definition lock_start :: "kernel \<Rightarrow> bool" where
  "lock_start s \<longleftrightarrow> distinct_ids (ncpu s) (cpus s) \<and>
     (\<forall>lk. locks s lk = \<lparr>lk_locked = False, lk_cpu = None\<rparr>) \<and>
     (\<forall>i < ncpu s. c_ncli (cpus s i) = 0)"

definition held_by :: "(lockid \<Rightarrow> spinlock) \<Rightarrow> nat \<Rightarrow> lockid set" where
  "held_by ls i = {lk. lk_cpu (ls lk) = Some i}"

definition cpu_locks_ok :: "(lockid \<Rightarrow> spinlock) \<Rightarrow> nat \<Rightarrow> cpu \<Rightarrow> bool" where
  "cpu_locks_ok ls i c \<longleftrightarrow>
     finite (held_by ls i) \<and> c_ncli c = int (card (held_by ls i)) \<and> (0 < c_ncli c \<longrightarrow> \<not> c_if c)"

definition lock_inv :: "kernel \<Rightarrow> bool" where
  "lock_inv s \<longleftrightarrow> distinct_ids (ncpu s) (cpus s) \<and>
     (\<forall>lk. lk_locked (locks s lk) \<longleftrightarrow> lk_cpu (locks s lk) \<noteq> None) \<and>
     (\<forall>i < ncpu s. cpu_locks_ok (locks s) i (cpus s i))"

lemma lock_inv_cpu_wf: "lock_inv s \<Longrightarrow> i < ncpu s \<Longrightarrow> cpu_wf (on_cpu i s)"
  by (simp add: lock_inv_def cpu_view_def cpu_locks_ok_def)

lemma lock_inv_start: "lock_start s \<Longrightarrow> lock_inv s"
  by (simp add: lock_start_def lock_inv_def cpu_locks_ok_def held_by_def)

lemma held_by_acquire:
  "lk_cpu (ls lk) = None \<Longrightarrow>
   held_by (ls(lk := \<lparr>lk_locked = b, lk_cpu = Some i\<rparr>)) j =
     (if j = i then insert lk (held_by ls j) else held_by ls j)"
  by (auto simp: held_by_def)

lemma held_by_release:
  "lk_cpu (ls lk) = Some i \<Longrightarrow>
   held_by (ls(lk := \<lparr>lk_locked = b, lk_cpu = None\<rparr>)) j =
     (if j = i then held_by ls j - {lk} else held_by ls j)"
  by (auto simp: held_by_def)

lemma lock_inv_acq:
  assumes inv: "lock_inv s" and i: "i < ncpu s" and free: "lock_free lk s"
  shows "lock_inv (acq lk (on_cpu i s))"
proof -
  have none: "lk_cpu (locks s lk) = None" using inv free by (auto simp: lock_inv_def)
  then have new: "lk \<notin> held_by (locks s) i" by (simp add: held_by_def)
  have "cpu_locks_ok (locks (acq lk (on_cpu i s))) j (cpus (acq lk (on_cpu i s)) j)"
    if "j < ncpu s" for j
    using inv that new none by (auto simp: lock_inv_def cpu_locks_ok_def held_by_acquire)
  then show ?thesis
    using inv by (auto simp: lock_inv_def)
qed

lemma lock_inv_rel:
  assumes inv: "lock_inv s" and i: "i < ncpu s" and own: "lk_cpu (locks s lk) = Some i"
  shows "lock_inv (rel lk (on_cpu i s))"
proof -
  have mem: "lk \<in> held_by (locks s) i" using own by (simp add: held_by_def)
  have "cpu_locks_ok (locks (rel lk (on_cpu i s))) j (cpus (rel lk (on_cpu i s)) j)"
    if j: "j < ncpu s" for j
  proof (cases "j = i")
    case True
    have ok: "cpu_locks_ok (locks s) i (cpus s i)" using inv i by (simp add: lock_inv_def)
    then have "card (held_by (locks s) i) = Suc (card (held_by (locks s) i - {lk}))"
      using mem card.remove [of "held_by (locks s) i" lk] by (simp add: cpu_locks_ok_def)
    with True ok show ?thesis
      by (auto simp: cpu_locks_ok_def held_by_release [of "locks s" lk i] own card_gt_0_iff)
  next
    case False
    with inv j show ?thesis by (simp add: lock_inv_def cpu_locks_ok_def held_by_release [of "locks s" lk i] own)
  qed
  then show ?thesis
    using inv by (auto simp: lock_inv_def)
qed

lemma lock_inv_step: "lock_inv s \<Longrightarrow> lock_step s t \<Longrightarrow> lock_inv t"
proof (erule lock_step.cases; clarify)
  fix i s lk t
  assume inv: "lock_inv s" and i: "i < ncpu s" and ret: "acquire lk (on_cpu i s) = Inr t"
  note wf = lock_inv_cpu_wf [OF inv i]
  have free: "lock_free lk s"
  proof (rule ccontr)
    assume "\<not> lock_free lk s"
    then have "acquire lk (on_cpu i s) \<noteq> Inr t"
      using acquire_own [OF wf, of lk] acquire_other [OF wf, of lk]
      by (cases "locks s lk"; cases "lk_cpu (locks s lk) = Some i") auto
    with ret show False by simp
  qed
  with ret wf have "t = acq lk (on_cpu i s)" by simp
  with lock_inv_acq [OF inv i free] show "lock_inv t" by simp
next
  fix i s lk t
  assume inv: "lock_inv s" and i: "i < ncpu s" and ret: "release lk (on_cpu i s) = Inr t"
  note wf = lock_inv_cpu_wf [OF inv i]
  have own: "lk_locked (locks s lk) \<and> lk_cpu (locks s lk) = Some i"
    using release_panics [OF wf, of lk] ret by (cases "lk_locked (locks s lk) \<and> lk_cpu (locks s lk) = Some i") auto
  have "cpu_locks_ok (locks s) i (cpus s i)" using inv i by (simp add: lock_inv_def)
  moreover have "lk \<in> held_by (locks s) i" using own by (simp add: held_by_def)
  ultimately have "0 < c_ncli (cpus s i)" by (auto simp: cpu_locks_ok_def card_gt_0_iff)
  with ret wf own have "t = rel lk (on_cpu i s)" by (cases "locks s lk") simp
  with lock_inv_rel [OF inv i] own show "lock_inv t" by simp
next
  fix i s b
  assume "lock_inv s" and "i < ncpu s" and "c_ncli (cpus s i) = 0"
  then show "lock_inv (upd_cpu (\<lambda>c. c\<lparr>c_if := b\<rparr>) (on_cpu i s))"
    by (auto simp: lock_inv_def cpu_locks_ok_def)
qed

interpretation spin: invariant_system lock_start lock_step lock_inv
  by unfold_locales (auto intro: lock_inv_start lock_inv_step)

section \<open>Mutual exclusion\<close>

text \<open>
  C2. Spin locks exclude, for any number of CPUs and any interleaving of returns from
  acquire and release: whenever CPU i is recorded as the holder of a lock, i has its
  interrupts off and its nesting depth is the number of locks it holds; a CPU that is not
  the holder keeps spinning in acquire and panics in release; the holder itself panics on a
  second acquire and succeeds in release.
\<close>

theorem lock_mutual_exclusion:
  assumes "reach lock_start lock_step s" and "i < ncpu s" and "lk_cpu (locks s lk) = Some i"
  shows "\<not> c_if (cpus s i) \<and> c_ncli (cpus s i) = int (card (held_by (locks s) i)) \<and>
    (\<forall>j < ncpu s. j \<noteq> i \<longrightarrow>
       acquire lk (on_cpu j s) = Inl Spins \<and> release lk (on_cpu j s) = Inl (Panic ''release'')) \<and>
    acquire lk (on_cpu i s) = Inl (Panic ''acquire'') \<and>
    release lk (on_cpu i s) = Inr (rel lk (on_cpu i s))"
proof (intro conjI allI impI)
  have inv: "lock_inv s" using assms(1) by (rule spin.inv_reach)
  have ok: "cpu_locks_ok (locks s) i (cpus s i)" using inv assms(2) by (simp add: lock_inv_def)
  have mem: "lk \<in> held_by (locks s) i" using assms(3) by (simp add: held_by_def)
  have pos: "0 < c_ncli (cpus s i)" using ok mem by (auto simp: cpu_locks_ok_def card_gt_0_iff)
  have locked: "lk_locked (locks s lk)" using inv assms(3) by (auto simp: lock_inv_def)
  have held: "lock_held lk (on_cpu i s)" using locked assms(3) by (cases "locks s lk") simp
  show "\<not> c_if (cpus s i)" using ok pos by (simp add: cpu_locks_ok_def)
  show "c_ncli (cpus s i) = int (card (held_by (locks s) i))" using ok by (simp add: cpu_locks_ok_def)
  show "acquire lk (on_cpu i s) = Inl (Panic ''acquire'')"
    by (rule acquire_own [OF lock_inv_cpu_wf [OF inv assms(2)] held])
  show "release lk (on_cpu i s) = Inr (rel lk (on_cpu i s))"
    by (rule release_held [OF lock_inv_cpu_wf [OF inv assms(2)] held]) (use pos in simp)
  fix j
  assume j: "j < ncpu s" "j \<noteq> i"
  show "acquire lk (on_cpu j s) = Inl Spins"
    using acquire_other [OF lock_inv_cpu_wf [OF inv j(1)], of lk] locked assms(3) j(2) by simp
  show "release lk (on_cpu j s) = Inl (Panic ''release'')"
    using release_panics [OF lock_inv_cpu_wf [OF inv j(1)], of lk] assms(3) j(2) by simp
qed

lemma cpu_wf_booted [simp]: "0 < n \<Longrightarrow> n \<le> 256 \<Longrightarrow> cpu_view 0 n (\<lambda>i. zero_cpu\<lparr>c_apicid := of_nat i\<rparr>)"
  by (auto simp: cpu_view_def distinct_ids_def zero_cpu_def inj_on_def word_unat_eq_iff unat_of_nat)

theorem lock_mutual_exclusion_witness:
  "\<exists>s. reach lock_start lock_step s \<and> lk_cpu (locks s Ptable_lock) = Some 0 \<and>
     acquire Ptable_lock (on_cpu 1 s) = Inl Spins"
proof -
  let ?s = "acq Ptable_lock (booted 2)"
  have "lock_start (booted 2)"
    by (auto simp: lock_start_def distinct_ids_def zero_cpu_def inj_on_def word_unat_eq_iff unat_of_nat)
  moreover have "lock_step (booted 2) ?s"
    using ls_acquire [of 0 "booted 2" Ptable_lock ?s] by simp
  ultimately have r: "reach lock_start lock_step ?s" by (auto intro: reach.intros)
  from lock_mutual_exclusion [OF r, of 0 Ptable_lock]
  have "acquire Ptable_lock (on_cpu 1 ?s) = Inl Spins" by simp
  with r show ?thesis by (intro exI [of _ ?s]) simp
qed

section \<open>What the lock operations leave alone\<close>

text \<open>
  Whatever the state, a lock operation that returns has changed only interrupt flags,
  nesting counts and lock words.
\<close>

definition lk_frame :: "kernel \<Rightarrow> kernel \<Rightarrow> bool" where
  "lk_frame s t \<longleftrightarrow> t = s\<lparr>cpus := cpus t, locks := locks t\<rparr> \<and>
     (\<forall>i. c_proc (cpus t i) = c_proc (cpus s i) \<and> c_apicid (cpus t i) = c_apicid (cpus s i))"

lemma lk_frame_refl [simp]: "lk_frame s s"
  by (simp add: lk_frame_def)

lemma lk_frame_trans: "lk_frame s t \<Longrightarrow> lk_frame t u \<Longrightarrow> lk_frame s u"
  by (cases s; cases t; cases u) (simp add: lk_frame_def)

lemma lk_frame_locks [simp]: "lk_frame s (t\<lparr>locks := l\<rparr>) = lk_frame s t" "lk_frame (s\<lparr>locks := l\<rparr>) t = lk_frame s t"
  by (cases s; cases t; simp add: lk_frame_def)+

lemma lk_frame_cpus [simp]:
  "c_proc c = c_proc (cpus t n) \<Longrightarrow> c_apicid c = c_apicid (cpus t n) \<Longrightarrow>
   lk_frame s t \<Longrightarrow> lk_frame s (t\<lparr>cpus := (cpus t)(n := c)\<rparr>)"
  by (cases s; cases t) (simp add: lk_frame_def)

lemma lk_frame_fields:
  assumes "lk_frame s t"
  shows "procs t = procs s" "levels t = levels s" "sems_list t = sems_list s" "sems_used t = sems_used s"
    "mem t = mem s" "this_cpu t = this_cpu s" "ncpu t = ncpu s" "bcache t = bcache s" "icache t = icache s"
    "ftable t = ftable s" "pipes t = pipes s" "log_st t = log_st s" "disk t = disk s" "freelist t = freelist s"
    "cow_count t = cow_count s" "use_lock t = use_lock s" "nextpid t = nextpid s" "initproc t = initproc s"
    "frames t = frames s" "disksize t = disksize s" "sb t = sb s" "input t = input s" "kend t = kend s"
  using assms by (cases s; cases t; simp add: lk_frame_def)+

lemma cli_frame [simp]: "lk_frame s (cli s)"
  by (simp add: cli_def)

lemma sti_frame [simp]: "lk_frame s t \<Longrightarrow> lk_frame s (sti t)"
  by (simp add: sti_def)

lemma pushcli_frame: "pushcli s = Inr t \<Longrightarrow> lk_frame s t"
proof -
  assume "pushcli s = Inr t"
  then obtain c where t: "t = (let u = (if c_ncli (cpus (cli s) c) = 0
      then (cli s)\<lparr>cpus := (cpus (cli s))(c := (cpus (cli s) c)\<lparr>c_intena := readeflags_if s\<rparr>)\<rparr> else cli s)
      in u\<lparr>cpus := (cpus u)(c := (cpus u c)\<lparr>c_ncli := c_ncli (cpus u c) + 1\<rparr>)\<rparr>)"
    unfolding pushcli_def Let_def bindr_eq_Inr by blast
  have "lk_frame s u" if "u = (if c_ncli (cpus (cli s) c) = 0
      then (cli s)\<lparr>cpus := (cpus (cli s))(c := (cpus (cli s) c)\<lparr>c_intena := readeflags_if s\<rparr>)\<rparr> else cli s)" for u
    unfolding that by simp
  then show ?thesis unfolding t Let_def by (intro lk_frame_cpus) simp_all
qed

lemma popcli_frame: "popcli s = Inr t \<Longrightarrow> lk_frame s t"
proof -
  assume "popcli s = Inr t"
  then obtain c u where u: "u = s\<lparr>cpus := (cpus s)(c := (cpus s c)\<lparr>c_ncli := c_ncli (cpus s c) - 1\<rparr>)\<rparr>"
      and t: "t = (if c_ncli (cpus u c) = 0 \<and> c_intena (cpus u c) then sti u else u)"
    unfolding popcli_def Let_def bindr_eq_Inr by blast
  have "lk_frame s u" unfolding u by simp
  then show ?thesis unfolding t by simp
qed

lemma holding_frame: "holding lk s = Inr (b, t) \<Longrightarrow> lk_frame s t"
  by (auto simp: holding_def bindr_eq_Inr Let_def dest!: pushcli_frame popcli_frame intro: lk_frame_trans)

lemma acquire_frame: "acquire lk s = Inr t \<Longrightarrow> lk_frame s t"
  by (auto simp: acquire_def bindr_eq_Inr Let_def dest!: pushcli_frame holding_frame split: if_splits intro: lk_frame_trans)

lemma release_frame: "release lk s = Inr t \<Longrightarrow> lk_frame s t"
  unfolding release_def
  by (auto simp: bindr_eq_Inr Let_def dest!: popcli_frame holding_frame intro: lk_frame_trans)

text \<open>The process of the executing CPU, as \<^verbatim>\<open>myproc\<close> finds it.\<close>

definition me :: "kernel \<Rightarrow> nat option" where
  "me s = (case find (\<lambda>i. c_apicid (cpus s i) = lapicid s) [0..<ncpu s] of
             None \<Rightarrow> None | Some i \<Rightarrow> c_proc (cpus s i))"

lemma me_frame: "lk_frame s t \<Longrightarrow> me t = me s"
proof -
  assume f: "lk_frame s t"
  then have "c_apicid (cpus t i) = c_apicid (cpus s i)" "c_proc (cpus t i) = c_proc (cpus s i)" for i
    by (simp_all add: lk_frame_def)
  then show ?thesis by (simp add: me_def lapicid_def lk_frame_fields [OF f] cong: option.case_cong)
qed

lemma mycpu_me: "mycpu s = Inr c \<Longrightarrow> me s = c_proc (cpus s c)"
  by (auto simp: mycpu_def me_def split: if_splits option.splits)

lemma myproc_frame: "myproc s = Inr (p, t) \<Longrightarrow> lk_frame s t \<and> p = me s"
proof -
  assume "myproc s = Inr (p, t)"
  then obtain u c where "pushcli s = Inr u" "mycpu u = Inr c" "popcli u = Inr t" "p = c_proc (cpus u c)"
    by (auto simp: myproc_def bindr_eq_Inr Let_def)
  then show ?thesis
    using pushcli_frame popcli_frame mycpu_me me_frame lk_frame_trans by metis
qed

lemma me_upd [simp]: "me (s\<lparr>procs := h\<rparr>) = me s" "me (s\<lparr>sems_list := l\<rparr>) = me s" "me (s\<lparr>sems_used := n\<rparr>) = me s"
  by (simp_all add: me_def lapicid_def cong: option.case_cong)

lemma cpu_view_pp: "cpu_view n k c \<Longrightarrow> cpu_view n k (c(n := pop1 (push1 (c n))))"
  by (auto simp: cpu_view_def)

end
