(* ===== verification/Runqueue.thy ===== *)
theory Runqueue
  imports Spinlock
begin

text \<open>
  The priority levels of \<^verbatim>\<open>proc.c\<close>: one doubly linked list of processes per level, threaded
  through the \<^verbatim>\<open>next\<close> and \<^verbatim>\<open>back\<close> fields of \<^verbatim>\<open>struct proc\<close>. The operations are
  translated statement by statement on the pointer structure and shown to implement
  FIFO queues (abstraction \<open>queue_of\<close>).
\<close>

section \<open>Operations\<close>

abbreviation set_state :: "procstate \<Rightarrow> nat \<Rightarrow> kernel \<Rightarrow> kernel" where
  "set_state st p s \<equiv> upd_proc p (\<lambda>q. q\<lparr>p_state := st\<rparr>) s"

definition enqueue :: "nat option \<Rightarrow> kernel \<Rightarrow> kernel result" where
  "enqueue ptr s =
     (case ptr of
        None \<Rightarrow> Inl (Panic ''enqueue called with null process\<newline>'')
      | Some p \<Rightarrow>
          (let s = set_state RUNNABLE p s; nice = p_nice (procs s p); l = nat nice in
           bindr (in_bounds (0 \<le> nice \<and> nice < PLEVELS)) (\<lambda>_.
           let s = upd_proc p (\<lambda>q. q\<lparr>p_next := lv_head (levels s l)\<rparr>) s;
               s = upd_proc p (\<lambda>q. q\<lparr>p_back := None\<rparr>) s;
               s = (case lv_head (levels s l) of
                      Some h \<Rightarrow> upd_proc h (\<lambda>q. q\<lparr>p_back := Some p\<rparr>) s
                    | None \<Rightarrow> upd_level l (\<lambda>v. v\<lparr>lv_last := Some p\<rparr>) s)
           in Inr (upd_level l (\<lambda>v. v\<lparr>lv_head := Some p\<rparr>) s))))"

definition dequeue :: "int \<Rightarrow> kernel \<Rightarrow> (nat \<times> kernel) result" where
  "dequeue level s =
     bindr (in_bounds (0 \<le> level \<and> level < PLEVELS)) (\<lambda>_.
     let l = nat level in
     case lv_last (levels s l) of
       None \<Rightarrow> Inl (Panic ''dequeue of empty priority level\<newline>'')
     | Some p \<Rightarrow>
         let s = (case p_back (procs s p) of
                    None \<Rightarrow> upd_level l (\<lambda>v. v\<lparr>lv_head := None\<rparr>) (upd_level l (\<lambda>v. v\<lparr>lv_last := None\<rparr>) s)
                  | Some b \<Rightarrow> upd_level l (\<lambda>v. v\<lparr>lv_last := Some b\<rparr>)
                               (upd_proc b (\<lambda>q. q\<lparr>p_next := None\<rparr>) s));
             s = upd_proc p (\<lambda>q. q\<lparr>p_back := None\<rparr>) s;
             s = upd_proc p (\<lambda>q. q\<lparr>p_next := None\<rparr>) s
         in Inr (p, s))"

definition isempty :: "int \<Rightarrow> kernel \<Rightarrow> bool result" where
  "isempty level s =
     bindr (panic_if (level < 0 \<or> level \<ge> PLEVELS) ''is empty call over invalid level value\<newline>'')
       (\<lambda>_. Inr (lv_head (levels s (nat level)) = None))"

definition decreasepriority :: "nat option \<Rightarrow> kernel \<Rightarrow> kernel result" where
  "decreasepriority ptr s =
     (case ptr of
        None \<Rightarrow> Inl (Panic ''decrease priority of null process\<newline>'')
      | Some p \<Rightarrow> Inr (if p_nice (procs s p) < PLEVELS - 1
                        then upd_proc p (\<lambda>q. q\<lparr>p_nice := p_nice q + 1\<rparr>) s else s))"

definition increasepriority :: "nat option \<Rightarrow> kernel \<Rightarrow> kernel result" where
  "increasepriority ptr s =
     (case ptr of
        None \<Rightarrow> Inl (Panic ''increase priority of null process\<newline>'')
      | Some p \<Rightarrow> Inr (if p_nice (procs s p) > 0
                        then upd_proc p (\<lambda>q. q\<lparr>p_nice := p_nice q - 1\<rparr>) s else s))"

definition removefromlevel :: "nat \<Rightarrow> int \<Rightarrow> kernel \<Rightarrow> kernel result" where
  "removefromlevel p level s =
     bindr (in_bounds (0 \<le> level \<and> level < PLEVELS)) (\<lambda>_.
     let l = nat level;
         s = (case (p_back (procs s p), p_next (procs s p)) of
                (None, None) \<Rightarrow>
                  upd_level l (\<lambda>v. v\<lparr>lv_last := None\<rparr>) (upd_level l (\<lambda>v. v\<lparr>lv_head := None\<rparr>) s)
              | (Some b, None) \<Rightarrow>
                  upd_level l (\<lambda>v. v\<lparr>lv_last := Some b\<rparr>) (upd_proc b (\<lambda>q. q\<lparr>p_next := None\<rparr>) s)
              | (None, Some n) \<Rightarrow>
                  upd_proc n (\<lambda>q. q\<lparr>p_back := None\<rparr>) (upd_level l (\<lambda>v. v\<lparr>lv_head := Some n\<rparr>) s)
              | (Some b, Some n) \<Rightarrow>
                  upd_proc n (\<lambda>q. q\<lparr>p_back := Some b\<rparr>) (upd_proc b (\<lambda>q. q\<lparr>p_next := Some n\<rparr>) s));
         s = upd_proc p (\<lambda>q. q\<lparr>p_back := None\<rparr>) s;
         s = upd_proc p (\<lambda>q. q\<lparr>p_next := None\<rparr>) s
     in Inr s)"

text \<open>
  The scheduler's search for the first level that is not empty; \<open>PLEVELS\<close> if all are.
\<close>

fun first_level :: "nat \<Rightarrow> int \<Rightarrow> kernel \<Rightarrow> int result" where
  "first_level 0 i s = Inr i"
| "first_level (Suc n) i s =
     (if i < PLEVELS then bindr (isempty i s) (\<lambda>e. if e then first_level n (i + 1) s else Inr i)
      else Inr i)"

section \<open>The lists in the process table\<close>

definition hdp :: "nat list \<Rightarrow> nat option \<Rightarrow> nat option" where
  "hdp xs e = (case xs of [] \<Rightarrow> e | x # _ \<Rightarrow> Some x)"

definition lastp :: "nat list \<Rightarrow> nat option \<Rightarrow> nat option" where
  "lastp xs b = (if xs = [] then b else Some (last xs))"

lemma hdp_simps [simp]: "hdp [] e = e" "hdp (x # xs) e = Some x"
  by (simp_all add: hdp_def)

lemma lastp_simps [simp]: "lastp [] b = b" "lastp (x # xs) b = lastp xs (Some x)" "lastp (xs @ [x]) b = Some x"
  by (simp_all add: lastp_def)

text \<open>
  \<open>dl h b xs e\<close>: the processes \<open>xs\<close> are linked in this order, the first one's \<^verbatim>\<open>back\<close> is
  \<open>b\<close> and the last one's \<^verbatim>\<open>next\<close> is \<open>e\<close>.
\<close>

primrec dl :: "(nat \<Rightarrow> proc) \<Rightarrow> nat option \<Rightarrow> nat list \<Rightarrow> nat option \<Rightarrow> bool" where
  "dl h b [] e \<longleftrightarrow> True"
| "dl h b (x # xs) e \<longleftrightarrow> p_back (h x) = b \<and> p_next (h x) = hdp xs e \<and> dl h (Some x) xs e"

lemma hdp_append [simp]: "hdp (xs @ ys) e = hdp xs (hdp ys e)"
  by (cases xs) simp_all

lemma lastp_append [simp]: "lastp (xs @ ys) b = lastp ys (lastp xs b)"
  by (simp add: lastp_def)

lemma dl_append [simp]: "dl h b (xs @ ys) e \<longleftrightarrow> dl h b xs (hdp ys e) \<and> dl h (lastp xs b) ys e"
  by (induction xs arbitrary: b) auto

lemma dl_cong:
  "(\<And>x. x \<in> set xs \<Longrightarrow> p_next (h x) = p_next (h' x) \<and> p_back (h x) = p_back (h' x)) \<Longrightarrow>
   dl h b xs e = dl h' b xs e"
  by (induction xs arbitrary: b) auto

lemma dl_frame [simp]: "p \<notin> set xs \<Longrightarrow> dl (h(p := q)) b xs e = dl h b xs e"
  by (rule dl_cong) auto

lemma dl_same_links [simp]:
  "p_next q = p_next (h p) \<Longrightarrow> p_back q = p_back (h p) \<Longrightarrow> dl (h(p := q)) b xs e = dl h b xs e"
  by (rule dl_cong) auto

lemma dl_set_first:
  "dl h b (x # xs) e \<Longrightarrow> x \<notin> set xs \<Longrightarrow> dl (h(x := (h x)\<lparr>p_back := b'\<rparr>)) b' (x # xs) e"
  by simp

lemma dl_set_last:
  "dl h b (xs @ [x]) e \<Longrightarrow> x \<notin> set xs \<Longrightarrow> dl (h(x := (h x)\<lparr>p_next := e'\<rparr>)) b (xs @ [x]) e'"
  by simp

definition level_rep :: "(nat \<Rightarrow> proc) \<Rightarrow> level \<Rightarrow> nat list \<Rightarrow> bool" where
  "level_rep h lv xs \<longleftrightarrow>
     lv_head lv = hdp xs None \<and> lv_last lv = lastp xs None \<and> dl h None xs None \<and> distinct xs"

text \<open>The list a level holds, read off by following \<^verbatim>\<open>next\<close> from its head.\<close>

fun follow :: "(nat \<Rightarrow> proc) \<Rightarrow> nat \<Rightarrow> nat option \<Rightarrow> nat list" where
  "follow h n None = []"
| "follow h 0 (Some p) = []"
| "follow h (Suc n) (Some p) = p # follow h n (p_next (h p))"

definition queue_of :: "kernel \<Rightarrow> nat \<Rightarrow> nat list" where
  "queue_of s i = follow (procs s) NPROC (lv_head (levels s i))"

lemma follow_dl: "dl h b xs None \<Longrightarrow> length xs \<le> n \<Longrightarrow> follow h n (hdp xs None) = xs"
proof (induction xs arbitrary: b n)
  case Nil
  then show ?case by simp
next
  case (Cons x xs)
  then show ?case by (cases n) auto
qed

section \<open>Run queues\<close>

text \<open>
  \<open>runq s Q\<close>: level \<open>i\<close> holds the list \<open>Q i\<close>, no process is on two levels, and every
  process of a level is an entry of the process table.
\<close>

definition runq :: "kernel \<Rightarrow> (nat \<Rightarrow> nat list) \<Rightarrow> bool" where
  "runq s Q \<longleftrightarrow>
     (\<forall>i < 4. level_rep (procs s) (levels s i) (Q i) \<and> set (Q i) \<subseteq> {..<NPROC}) \<and>
     (\<forall>i < 4. \<forall>j < 4. i \<noteq> j \<longrightarrow> set (Q i) \<inter> set (Q j) = {})"

lemma runq_level: "runq s Q \<Longrightarrow> i < 4 \<Longrightarrow> level_rep (procs s) (levels s i) (Q i)"
  by (simp add: runq_def)

lemma runq_queue_of:
  assumes "runq s Q" and "i < 4"
  shows "queue_of s i = Q i"
proof -
  have rep: "level_rep (procs s) (levels s i) (Q i)" and sub: "set (Q i) \<subseteq> {..<NPROC}"
    using assms by (auto simp: runq_def)
  have "length (Q i) = card (set (Q i))"
    using rep by (simp add: level_rep_def distinct_card)
  also have "\<dots> \<le> card {..<NPROC}" using sub by (intro card_mono) auto
  finally show ?thesis
    using rep follow_dl [of "procs s" None "Q i" NPROC] by (simp add: queue_of_def level_rep_def)
qed

lemma level_rep_cong:
  "level_rep h lv xs \<Longrightarrow> dl h' None xs None = dl h None xs None \<Longrightarrow> level_rep h' lv xs"
  by (simp add: level_rep_def)

text \<open>Replacing the list of one level, when the other levels' links are untouched.\<close>

lemma runq_update:
  assumes "runq s Q" and "l < 4" and "distinct xs" and "set xs \<subseteq> {..<NPROC}"
    and "level_rep (procs t) (levels t l) xs"
    and "\<And>i. i < 4 \<Longrightarrow> i \<noteq> l \<Longrightarrow> levels t i = levels s i"
    and "\<And>i. i < 4 \<Longrightarrow> i \<noteq> l \<Longrightarrow> dl (procs t) None (Q i) None = dl (procs s) None (Q i) None"
    and "\<And>i. i < 4 \<Longrightarrow> i \<noteq> l \<Longrightarrow> set xs \<inter> set (Q i) = {}"
  shows "runq t (Q(l := xs))"
  using assms unfolding runq_def level_rep_def by (auto 4 0) blast

definition not_queued :: "(nat \<Rightarrow> nat list) \<Rightarrow> nat \<Rightarrow> bool" where
  "not_queued Q p \<longleftrightarrow> (\<forall>i < 4. p \<notin> set (Q i))"

lemma runq_disjoint:
  "runq s Q \<Longrightarrow> i < 4 \<Longrightarrow> j < 4 \<Longrightarrow> x \<in> set (Q i) \<Longrightarrow> x \<in> set (Q j) \<Longrightarrow> i = j"
  unfolding runq_def by blast

lemma runq_bound: "runq s Q \<Longrightarrow> i < 4 \<Longrightarrow> x \<in> set (Q i) \<Longrightarrow> x < 64"
  unfolding runq_def by (auto simp: subset_eq)

text \<open>What a run-queue operation leaves of a process: everything but its links.\<close>

definition same_but_links :: "proc \<Rightarrow> proc \<Rightarrow> bool" where
  "same_but_links q r \<longleftrightarrow> q\<lparr>p_next := None, p_back := None\<rparr> = r\<lparr>p_next := None, p_back := None\<rparr>"

lemma same_but_links_refl [simp]: "same_but_links q q"
  by (simp add: same_but_links_def)

lemma same_but_links_fields:
  assumes "same_but_links q r"
  shows "p_state q = p_state r" "p_nice q = p_nice r" "p_age q = p_age r" "p_pid q = p_pid r"
    "p_chan q = p_chan r" "p_killed q = p_killed r" "p_parent q = p_parent r" "p_ticks_count q = p_ticks_count r"
    "p_semids q = p_semids r" "p_semcount q = p_semcount r" "p_kstack q = p_kstack r" "p_pgdir q = p_pgdir r"
    "p_sz q = p_sz r" "p_ofile q = p_ofile r" "p_cwd q = p_cwd r" "p_name q = p_name r" "p_tf q = p_tf r"
    "p_context q = p_context r"
  using assms by (cases q; cases r; simp add: same_but_links_def)+

text \<open>Run-queue operations change the process table and the levels only.\<close>

definition rq_frame :: "kernel \<Rightarrow> kernel \<Rightarrow> bool" where
  "rq_frame s t \<longleftrightarrow> t = s\<lparr>procs := procs t, levels := levels t\<rparr>"

lemma rq_frame_refl [simp]: "rq_frame s s"
  by (simp add: rq_frame_def)

lemma rq_frame_trans: "rq_frame s t \<Longrightarrow> rq_frame t u \<Longrightarrow> rq_frame s u"
  by (cases s; cases t; cases u) (simp add: rq_frame_def)

lemma rq_frame_upd [simp]:
  "rq_frame s (t\<lparr>procs := h\<rparr>) = rq_frame s t" "rq_frame s (t\<lparr>levels := lv\<rparr>) = rq_frame s t"
  by (cases s; cases t; simp add: rq_frame_def)+

lemma enqueue_runq:
  assumes rq: "runq s Q" and p: "p < NPROC" "not_queued Q p"
    and nice: "0 \<le> p_nice (procs s p)" "p_nice (procs s p) < PLEVELS"
  defines "l \<equiv> nat (p_nice (procs s p))"
  shows "wp (enqueue (Some p) s) (\<lambda>t. runq t (Q(l := p # Q l)) \<and>
     rq_frame s t \<and> (\<forall>q. same_but_links (procs t q) (procs (set_state RUNNABLE p s) q)))"
proof -
  have l: "l < 4" using nice by (simp add: l_def)
  have rep: "level_rep (procs s) (levels s l) (Q l)" using rq l by (rule runq_level)
  have new: "p \<notin> set (Q i)" if "i < 4" for i using p(2) that by (simp add: not_queued_def)
  show ?thesis
  proof (cases "Q l")
    case Nil
    have "runq (s\<lparr>procs := (procs s)(p := (procs s p)\<lparr>p_state := RUNNABLE, p_next := None, p_back := None\<rparr>),
                  levels := (levels s)(l := (levels s l)\<lparr>lv_last := Some p, lv_head := Some p\<rparr>)\<rparr>) (Q(l := [p]))"
      using p(1) l new
      by (intro runq_update [OF rq]) (auto simp: level_rep_def Nil)
    with Nil rep nice l show ?thesis
      by (auto simp: enqueue_def Let_def l_def [symmetric] level_rep_def same_but_links_def)
  next
    case (Cons h xs)
    then have hp: "h \<noteq> p" "p \<notin> set xs" "h \<notin> set xs" using new [OF l] rep by (auto simp: level_rep_def)
    have hq: "h \<notin> set (Q i)" if "i < 4" "i \<noteq> l" for i
      using runq_disjoint [OF rq that(1) l, of h] that(2) Cons by auto
    have "runq (s\<lparr>procs := ((procs s)(p := (procs s p)\<lparr>p_state := RUNNABLE, p_next := Some h, p_back := None\<rparr>))
                            (h := (procs s h)\<lparr>p_back := Some p\<rparr>),
                  levels := (levels s)(l := (levels s l)\<lparr>lv_head := Some p\<rparr>)\<rparr>) (Q(l := p # h # xs))"
    proof (rule runq_update [OF rq l])
      show "distinct (p # h # xs)" using rep hp Cons by (simp add: level_rep_def)
      show "set (p # h # xs) \<subseteq> {..<NPROC}" using runq_bound [OF rq l] p(1) Cons by auto
    qed (use rep hp Cons new hq runq_disjoint [OF rq _ l] in \<open>auto simp: level_rep_def\<close>)
    with Cons hp rep nice l show ?thesis
      by (auto simp: enqueue_def Let_def l_def [symmetric] level_rep_def same_but_links_def)
  qed
qed

text \<open>
  Unlinking \<open>p\<close> between \<open>ys\<close> and \<open>zs\<close>: the neighbours are joined, or the level's ends
  are moved. Both \<^verbatim>\<open>dequeue\<close> and \<^verbatim>\<open>removefromlevel\<close> are instances.
\<close>

lemma level_rep_unlink:
  assumes rep: "level_rep h lv (ys @ p # zs)"
    and links: "\<And>q. q \<noteq> p \<Longrightarrow> p_next (h' q) = (if lastp ys None = Some q then hdp zs None else p_next (h q))"
      "\<And>q. q \<noteq> p \<Longrightarrow> p_back (h' q) = (if hdp zs None = Some q then lastp ys None else p_back (h q))"
    and ends: "lv_head lv' = hdp (ys @ zs) None" "lv_last lv' = lastp (ys @ zs) None"
  shows "level_rep h' lv' (ys @ zs)"
proof -
  have dist: "distinct (ys @ p # zs)" and d: "dl h None ys (Some p)" "dl h (Some p) zs None"
    using rep by (auto simp: level_rep_def)
  have left: "dl h' None ys (hdp zs None)"
  proof (cases ys rule: rev_cases)
    case Nil
    then show ?thesis by simp
  next
    case (snoc us u)
    have "p_next (h' x) = p_next (h x) \<and> p_back (h' x) = p_back (h x)" if "x \<in> set us" for x
    proof -
      have "x \<noteq> p" "lastp ys None \<noteq> Some x" "hdp zs None \<noteq> Some x"
        using that snoc dist by (auto simp: hdp_def split: list.splits)
      then show ?thesis by (simp add: links)
    qed
    then have "dl h' None us (Some u) = dl h None us (Some u)" by (rule dl_cong)
    with snoc d dist links show ?thesis by (cases zs) auto
  qed
  have right: "dl h' (lastp ys None) zs None"
  proof (cases zs)
    case Nil
    then show ?thesis by simp
  next
    case (Cons v vs)
    have "p_next (h' x) = p_next (h x) \<and> p_back (h' x) = p_back (h x)" if "x \<in> set vs" for x
    proof -
      have "x \<noteq> p" "lastp ys None \<noteq> Some x" "hdp zs None \<noteq> Some x"
        using that Cons dist by (auto simp: lastp_def dest: last_in_set)
      then show ?thesis by (simp add: links)
    qed
    then have "dl h' (Some v) vs None = dl h (Some v) vs None" by (rule dl_cong)
    with Cons d dist links show ?thesis by (cases ys rule: rev_cases) auto
  qed
  from left right ends dist show ?thesis by (simp add: level_rep_def)
qed

lemma level_rep_links:
  assumes "level_rep h lv (ys @ p # zs)"
  shows "p_back (h p) = lastp ys None" "p_next (h p) = hdp zs None"
    "lv_head lv = hdp ys (Some p)" "lv_last lv = lastp zs (Some p)"
  using assms by (simp_all add: level_rep_def)

lemma runq_unlink:
  assumes rq: "runq s Q" and l: "l < 4" and Q: "Q l = ys @ p # zs"
    and links: "\<And>q. q \<noteq> p \<Longrightarrow> p_next (h q) = (if lastp ys None = Some q then hdp zs None else p_next (procs s q))"
      "\<And>q. q \<noteq> p \<Longrightarrow> p_back (h q) = (if hdp zs None = Some q then lastp ys None else p_back (procs s q))"
    and lv: "lv_head (lv l) = hdp (ys @ zs) None" "lv_last (lv l) = lastp (ys @ zs) None"
      "\<And>i. i \<noteq> l \<Longrightarrow> lv i = levels s i"
  shows "runq (s\<lparr>procs := h, levels := lv\<rparr>) (Q(l := ys @ zs))"
proof (rule runq_update [OF rq l])
  have rep: "level_rep (procs s) (levels s l) (ys @ p # zs)" using runq_level [OF rq l] Q by simp
  then show "distinct (ys @ zs)" by (simp add: level_rep_def)
  show "level_rep (procs (s\<lparr>procs := h, levels := lv\<rparr>)) (levels (s\<lparr>procs := h, levels := lv\<rparr>) l) (ys @ zs)"
    using level_rep_unlink [OF rep links lv(1,2)] by simp
  show "set (ys @ zs) \<subseteq> {..<NPROC}" using runq_bound [OF rq l] Q by auto
  fix i assume i: "i < 4" "i \<noteq> l"
  then show "levels (s\<lparr>procs := h, levels := lv\<rparr>) i = levels s i" using lv(3) by simp
  have other: "x \<notin> set (Q i)" if "x \<in> set (ys @ p # zs)" for x
    using runq_disjoint [OF rq l i(1), of x] that Q i(2) by auto
  then show "set (ys @ zs) \<inter> set (Q i) = {}" by auto
  have "p_next (h x) = p_next (procs s x) \<and> p_back (h x) = p_back (procs s x)" if "x \<in> set (Q i)" for x
  proof -
    have "x \<noteq> p" "lastp ys None \<noteq> Some x" "hdp zs None \<noteq> Some x"
      using that other by (auto simp: lastp_def hdp_def split: list.splits if_splits)
    then show ?thesis by (simp add: links)
  qed
  then show "dl (procs (s\<lparr>procs := h, levels := lv\<rparr>)) None (Q i) None = dl (procs s) None (Q i) None"
    by (intro dl_cong) simp
qed

lemma removefromlevel_runq:
  assumes rq: "runq s Q" and l: "l < 4" and p: "p \<in> set (Q l)"
  shows "wp (removefromlevel p (int l) s) (\<lambda>t. runq t (Q(l := remove1 p (Q l))) \<and>
     rq_frame s t \<and> (\<forall>q. same_but_links (procs t q) (procs s q)))"
proof -
  obtain ys zs where Q: "Q l = ys @ p # zs" and ny: "p \<notin> set ys"
    using p by (metis split_list_first)
  have rep: "level_rep (procs s) (levels s l) (ys @ p # zs)" using runq_level [OF rq l] Q by simp
  then have dist: "distinct (ys @ p # zs)" by (simp add: level_rep_def)
  note lnk = level_rep_links [OF rep]
  have rem: "remove1 p (Q l) = ys @ zs" using Q ny by (simp add: remove1_append)
  have ins: "runq t (Q(l := remove1 p (Q l)))"
    if "\<And>q. q \<noteq> p \<Longrightarrow> p_next (procs t q) = (if lastp ys None = Some q then hdp zs None else p_next (procs s q))"
      "\<And>q. q \<noteq> p \<Longrightarrow> p_back (procs t q) = (if hdp zs None = Some q then lastp ys None else p_back (procs s q))"
      "lv_head (levels t l) = hdp (ys @ zs) None" "lv_last (levels t l) = lastp (ys @ zs) None"
      "\<And>i. i \<noteq> l \<Longrightarrow> levels t i = levels s i" "rq_frame s t" for t
    using runq_unlink [OF rq l Q that(1-5)] that(6) unfolding rem rq_frame_def by simp
  show ?thesis
    using dist l lnk
    by (cases ys rule: rev_cases; cases zs)
       (auto simp: removefromlevel_def Let_def same_but_links_def intro!: ins)
qed

lemma dequeue_runq:
  assumes rq: "runq s Q" and l: "l < 4" and ne: "Q l \<noteq> []"
  shows "wp (dequeue (int l) s) (\<lambda>(p, t). p = last (Q l) \<and> runq t (Q(l := butlast (Q l))) \<and>
     rq_frame s t \<and> (\<forall>q. same_but_links (procs t q) (procs s q)))"
proof -
  define ys p where "ys = butlast (Q l)" and "p = last (Q l)"
  have Q: "Q l = ys @ p # []" using ne by (simp add: ys_def p_def)
  have rep: "level_rep (procs s) (levels s l) (ys @ p # [])" using runq_level [OF rq l] Q by simp
  then have dist: "distinct (ys @ [p])" by (simp add: level_rep_def)
  note lnk = level_rep_links [OF rep]
  have ins: "runq t (Q(l := xs))" if "xs = ys"
      "\<And>q. q \<noteq> p \<Longrightarrow> p_next (procs t q) = (if lastp ys None = Some q then None else p_next (procs s q))"
      "\<And>q. q \<noteq> p \<Longrightarrow> p_back (procs t q) = p_back (procs s q)"
      "lv_head (levels t l) = hdp ys None" "lv_last (levels t l) = lastp ys None"
      "\<And>i. i \<noteq> l \<Longrightarrow> levels t i = levels s i" "rq_frame s t" for t xs
    using runq_unlink [OF rq l Q, of "procs t" "levels t"] that unfolding rq_frame_def by simp
  have "wp (dequeue (int l) s) (\<lambda>(q, t). q = p \<and> runq t (Q(l := ys)) \<and>
     rq_frame s t \<and> (\<forall>q. same_but_links (procs t q) (procs s q)))"
    using dist l lnk
    by (cases ys rule: rev_cases)
       (auto simp: dequeue_def Let_def same_but_links_def intro!: ins)
  then show ?thesis by (simp add: ys_def p_def)
qed

lemma isempty_runq: "runq s Q \<Longrightarrow> l < 4 \<Longrightarrow> isempty (int l) s = Inr (Q l = [])"
  using runq_level [of s Q l] by (cases "Q l") (auto simp: isempty_def level_rep_def)

section \<open>The contract of the levels: one FIFO queue each\<close>

text \<open>
  An operation of a multi-level queue: process \<open>p\<close> enters level \<open>l\<close> or leaves it. A run is
  a sequence of operations that return; \<open>ready s l p\<close> is the caller's obligation that \<open>p\<close>
  belongs to level \<open>l\<close> and is on no queue.
\<close>

datatype qop = Enq nat nat | Deq nat nat

fun enqs :: "nat \<Rightarrow> qop list \<Rightarrow> nat list" where
  "enqs l [] = []"
| "enqs l (Enq i p # tr) = (if i = l then p # enqs l tr else enqs l tr)"
| "enqs l (Deq i p # tr) = enqs l tr"

fun deqs :: "nat \<Rightarrow> qop list \<Rightarrow> nat list" where
  "deqs l [] = []"
| "deqs l (Enq i p # tr) = deqs l tr"
| "deqs l (Deq i p # tr) = (if i = l then p # deqs l tr else deqs l tr)"

inductive qrun :: "('s \<Rightarrow> nat \<Rightarrow> nat \<Rightarrow> bool) \<Rightarrow> (nat \<Rightarrow> 's \<Rightarrow> 's result) \<Rightarrow>
    (nat \<Rightarrow> 's \<Rightarrow> (nat \<times> 's) result) \<Rightarrow> nat \<Rightarrow> 's \<Rightarrow> qop list \<Rightarrow> 's \<Rightarrow> bool"
  for ready :: "'s \<Rightarrow> nat \<Rightarrow> nat \<Rightarrow> bool" and enq :: "nat \<Rightarrow> 's \<Rightarrow> 's result"
    and deq :: "nat \<Rightarrow> 's \<Rightarrow> (nat \<times> 's) result" and n :: nat where
  qr_done: "qrun ready enq deq n s [] s"
| qr_enq: "l < n \<Longrightarrow> ready s l p \<Longrightarrow> enq p s = Inr t \<Longrightarrow> qrun ready enq deq n t tr u \<Longrightarrow>
    qrun ready enq deq n s (Enq l p # tr) u"
| qr_deq: "l < n \<Longrightarrow> deq l s = Inr (p, t) \<Longrightarrow> qrun ready enq deq n t tr u \<Longrightarrow>
    qrun ready enq deq n s (Deq l p # tr) u"

locale multilevel_fifo =
  fixes nlev :: nat
    and invar :: "'s \<Rightarrow> bool"
    and q :: "'s \<Rightarrow> nat \<Rightarrow> nat list"
    and ready :: "'s \<Rightarrow> nat \<Rightarrow> nat \<Rightarrow> bool"
    and enq :: "nat \<Rightarrow> 's \<Rightarrow> 's result"
    and deq :: "nat \<Rightarrow> 's \<Rightarrow> (nat \<times> 's) result"
  assumes enq_law: "invar s \<Longrightarrow> l < nlev \<Longrightarrow> ready s l p \<Longrightarrow>
      wp (enq p s) (\<lambda>t. invar t \<and> (\<forall>i < nlev. q t i = (if i = l then p # q s l else q s i)))"
    and deq_law: "invar s \<Longrightarrow> l < nlev \<Longrightarrow> q s l \<noteq> [] \<Longrightarrow>
      wp (deq l s) (\<lambda>(p, t). p = last (q s l) \<and> invar t \<and>
        (\<forall>i < nlev. q t i = (if i = l then butlast (q s l) else q s i)))"
    and deq_empty: "invar s \<Longrightarrow> l < nlev \<Longrightarrow> q s l = [] \<Longrightarrow> \<exists>m. deq l s = Inl (Panic m)"
begin

lemma run_fifo:
  assumes "qrun ready enq deq nlev s tr u" and "invar s"
  shows "invar u \<and> (\<forall>l < nlev. rev (q s l) @ enqs l tr = deqs l tr @ rev (q u l))"
  using assms
proof (induction rule: qrun.induct)
  case (qr_done s)
  then show ?case by simp
next
  case (qr_enq l s p t tr u)
  from wpD [OF enq_law [OF qr_enq.prems qr_enq.hyps(1,2)] qr_enq.hyps(3)]
  have t: "invar t" "\<forall>i < nlev. q t i = (if i = l then p # q s l else q s i)" by auto
  with qr_enq.IH have "\<forall>i < nlev. rev (q t i) @ enqs i tr = deqs i tr @ rev (q u i)" "invar u" by auto
  with t(2) show ?case by auto
next
  case (qr_deq l s p t tr u)
  have ne: "q s l \<noteq> []" using deq_empty [OF qr_deq.prems qr_deq.hyps(1)] qr_deq.hyps(2) by auto
  from wpD [OF deq_law [OF qr_deq.prems qr_deq.hyps(1) ne] qr_deq.hyps(2)]
  have t: "p = last (q s l)" "invar t" "\<forall>i < nlev. q t i = (if i = l then butlast (q s l) else q s i)"
    by auto
  have cons: "rev (q s l) = p # rev (butlast (q s l))"
    using ne t(1) by (metis append_butlast_last_id rev.simps(2) rev_rev_ident)
  from t qr_deq.IH have IH: "\<forall>i < nlev. rev (q t i) @ enqs i tr = deqs i tr @ rev (q u i)" "invar u" by auto
  have "rev (q s i) @ enqs i (Deq l p # tr) = deqs i (Deq l p # tr) @ rev (q u i)" if "i < nlev" for i
  proof (cases "i = l")
    case True
    with IH(1) t(3) that have "rev (butlast (q s l)) @ enqs l tr = deqs l tr @ rev (q u l)" by auto
    with True show ?thesis by (simp only: cons) simp
  next
    case False
    with t(3) that have "q t i = q s i" by simp
    with IH(1) that have "rev (q s i) @ enqs i tr = deqs i tr @ rev (q u i)" by metis
    with False show ?thesis by simp
  qed
  with IH(2) show ?case by blast
qed

text \<open>Bounded waiting: what is queued leaves in order, before whatever enters later.\<close>

lemma served_in_order:
  assumes "qrun ready enq deq nlev s tr u" and "invar s" and "l < nlev"
    and "length (deqs l tr) = length (q s l)"
  shows "deqs l tr = rev (q s l)"
  using run_fifo [OF assms(1,2)] assms(3,4) by (metis append_eq_append_conv length_rev)

end

definition queues_ok :: "kernel \<Rightarrow> bool" where
  "queues_ok s \<longleftrightarrow> runq s (queue_of s)"

definition ready_for :: "kernel \<Rightarrow> nat \<Rightarrow> nat \<Rightarrow> bool" where
  "ready_for s l p \<longleftrightarrow> p < NPROC \<and> not_queued (queue_of s) p \<and> p_nice (procs s p) = int l"

lemma runq_cong: "(\<And>i. i < 4 \<Longrightarrow> Q i = Q' i) \<Longrightarrow> runq s Q \<Longrightarrow> runq s Q'"
  by (auto simp: runq_def)

lemma runq_self: "runq s Q \<Longrightarrow> runq s (queue_of s)"
  using runq_cong [of Q "queue_of s" s] runq_queue_of by simp

interpretation levels: multilevel_fifo 4 queues_ok queue_of ready_for
  "\<lambda>p. enqueue (Some p)" "\<lambda>l. dequeue (int l)"
proof
  fix s l p
  assume ok: "queues_ok s" and l: "l < 4" and r: "ready_for s l p"
  have "wp (enqueue (Some p) s) (\<lambda>t. runq t ((queue_of s)(l := p # queue_of s l)))"
    using enqueue_runq [of s "queue_of s" p] ok r l
    by (auto simp: queues_ok_def ready_for_def elim!: wp_mono)
  then show "wp (enqueue (Some p) s) (\<lambda>t. queues_ok t \<and>
      (\<forall>i < 4. queue_of t i = (if i = l then p # queue_of s l else queue_of s i)))"
    by (rule wp_mono) (auto simp: queues_ok_def runq_self dest: runq_queue_of)
next
  fix s l
  assume ok: "queues_ok s" and l: "l < 4" and ne: "queue_of s l \<noteq> []"
  have "wp (dequeue (int l) s) (\<lambda>(p, t). p = last (queue_of s l) \<and> runq t ((queue_of s)(l := butlast (queue_of s l))))"
    using dequeue_runq [of s "queue_of s" l] ok l ne by (auto simp: queues_ok_def elim!: wp_mono)
  then show "wp (dequeue (int l) s) (\<lambda>(p, t). p = last (queue_of s l) \<and> queues_ok t \<and>
      (\<forall>i < 4. queue_of t i = (if i = l then butlast (queue_of s l) else queue_of s i)))"
    by (rule wp_mono) (auto simp: queues_ok_def runq_self dest: runq_queue_of)
next
  fix s l
  assume ok: "queues_ok s" and l: "l < 4" and e: "queue_of s l = []"
  then have "lv_last (levels s l) = None"
    using runq_level [of s "queue_of s" l] by (simp add: queues_ok_def level_rep_def)
  with l show "\<exists>m. dequeue (int l) s = Inl (Panic m)" by (simp add: dequeue_def)
qed

text \<open>
  C1. The four levels are FIFO queues.
\<close>

theorem levels_are_fifo:
  assumes "qrun ready_for (\<lambda>p. enqueue (Some p)) (\<lambda>l. dequeue (int l)) 4 s tr u" and "queues_ok s"
  shows "queues_ok u \<and> (\<forall>l < 4. rev (queue_of s l) @ enqs l tr = deqs l tr @ rev (queue_of u l))"
  by (rule levels.run_fifo [OF assms])

lemma queue_of_booted [simp]: "queue_of (booted n) l = []"
  by (simp add: queue_of_def)

lemma queues_ok_booted: "queues_ok (booted n)"
  by (simp add: queues_ok_def runq_def level_rep_def)

theorem levels_are_fifo_witness:
  "\<exists>u. qrun ready_for (\<lambda>p. enqueue (Some p)) (\<lambda>l. dequeue (int l)) 4 (booted 1) [Enq 0 3, Enq 0 5, Deq 0 3] u \<and>
     queues_ok (booted 1) \<and> queue_of u 0 = [5]"
proof -
  let ?tr = "[Enq 0 3, Enq 0 5, Deq 0 3]"
  have "\<exists>u. qrun ready_for (\<lambda>p. enqueue (Some p)) (\<lambda>l. dequeue (int l)) 4 (booted 1) ?tr u"
    apply (rule exI)
    apply (rule qr_enq [of 0], simp, simp add: ready_for_def not_queued_def zero_proc_def,
        simp add: enqueue_def zero_proc_def)
    apply (rule qr_enq [of 0], simp, simp add: ready_for_def not_queued_def zero_proc_def queue_of_def eval_nat_numeral,
        simp add: enqueue_def zero_proc_def)
    apply (rule qr_deq [of 0], simp, simp add: dequeue_def zero_proc_def)
    apply (rule qr_done)
    done
  then obtain u where run: "qrun ready_for (\<lambda>p. enqueue (Some p)) (\<lambda>l. dequeue (int l)) 4 (booted 1) ?tr u" by blast
  have "(0::nat) < 4" by simp
  from conjunct2 [OF levels_are_fifo [OF run queues_ok_booted], rule_format, OF this]
  have "rev (queue_of (booted 1) 0) @ enqs 0 ?tr = deqs 0 ?tr @ rev (queue_of u 0)" .
  then have "queue_of u 0 = [5]" by (cases "queue_of u 0" rule: rev_cases) auto
  with run show ?thesis using queues_ok_booted by blast
qed

end
