(* ===== verification/Mmu.thy ===== *)
theory Mmu
  imports Spinlock
begin

text \<open>
  Address arithmetic and page-table entries (\<^verbatim>\<open>mmu.h\<close>, \<^verbatim>\<open>memlayout.h\<close>), little-endian
  words in byte memory, and the loading of page-table bases by \<^verbatim>\<open>switchkvm\<close> and
  \<^verbatim>\<open>switchuvm\<close>.
\<close>

section \<open>Memory layout\<close>

definition EXTMEM :: uint where [simp]: "EXTMEM = 0x100000"
definition PHYSTOP :: uint where [simp]: "PHYSTOP = 0xE000000"
definition DEVSPACE :: uint where [simp]: "DEVSPACE = 0xFE000000"
definition KERNBASE :: uint where [simp]: "KERNBASE = 0x80000000"
definition KERNLINK :: uint where [simp]: "KERNLINK = KERNBASE + EXTMEM"

definition V2P :: "uint \<Rightarrow> uint" where "V2P a = a - KERNBASE"
definition P2V :: "uint \<Rightarrow> uint" where "P2V a = a + KERNBASE"

definition FL_IF :: uint where [simp]: "FL_IF = 0x200"
definition SEG_KCODE :: ushort where [simp]: "SEG_KCODE = 1"
definition SEG_KDATA :: ushort where [simp]: "SEG_KDATA = 2"
definition SEG_UCODE :: ushort where [simp]: "SEG_UCODE = 3"
definition SEG_UDATA :: ushort where [simp]: "SEG_UDATA = 4"
definition SEG_TSS :: ushort where [simp]: "SEG_TSS = 5"
definition DPL_USER :: ushort where [simp]: "DPL_USER = 3"

section \<open>Pages and page-table entries\<close>

definition PGSIZE :: uint where [simp]: "PGSIZE = 4096"
definition NPDENTRIES :: nat where [simp]: "NPDENTRIES = 1024"

definition PDX :: "uint \<Rightarrow> uint" where "PDX va = drop_bit 22 va AND 0x3FF"
definition PTX :: "uint \<Rightarrow> uint" where "PTX va = drop_bit 12 va AND 0x3FF"

definition PGADDR :: "uint \<Rightarrow> uint \<Rightarrow> uint \<Rightarrow> uint" where
  "PGADDR d t off = push_bit 22 d OR push_bit 12 t OR off"

definition PGROUNDUP :: "uint \<Rightarrow> uint" where
  "PGROUNDUP sz = (sz + PGSIZE - 1) AND NOT (PGSIZE - 1)"

definition PGROUNDDOWN :: "uint \<Rightarrow> uint" where
  "PGROUNDDOWN a = a AND NOT (PGSIZE - 1)"

definition PTE_P :: uint where [simp]: "PTE_P = 0x001"
definition PTE_W :: uint where [simp]: "PTE_W = 0x002"
definition PTE_U :: uint where [simp]: "PTE_U = 0x004"
definition PTE_PS :: uint where [simp]: "PTE_PS = 0x080"

definition PTE_ADDR :: "uint \<Rightarrow> uint" where "PTE_ADDR pte = pte AND NOT 0xFFF"
definition PTE_FLAGS :: "uint \<Rightarrow> uint" where "PTE_FLAGS pte = pte AND 0xFFF"

lemma mask12: "(0xFFF :: uint) = mask 12" "(4096 - 1 :: uint) = mask 12"
  by (simp_all add: mask_eq_exp_minus_1)

lemma PGROUNDDOWN_eq: "PGROUNDDOWN a = PTE_ADDR a"
  by (simp add: PGROUNDDOWN_def PTE_ADDR_def)

lemma PTE_ADDR_mult: "PTE_ADDR a = (a div 4096) * 4096"
proof -
  have "PTE_ADDR a = push_bit 12 (drop_bit 12 a)"
    unfolding PTE_ADDR_def mask12 by (rule bit_word_eqI) (auto simp: bit_simps)
  then show ?thesis by (simp add: push_bit_eq_mult drop_bit_eq_div)
qed

lemma PTE_FLAGS_mod: "PTE_FLAGS a = a mod 4096"
proof -
  have "PTE_FLAGS a = take_bit 12 a"
    unfolding PTE_FLAGS_def mask12 by (rule bit_word_eqI) (auto simp: bit_simps)
  then show ?thesis by (simp add: take_bit_eq_mod)
qed

lemma unat_PTE_ADDR: "unat (PTE_ADDR a) = unat a div 4096 * 4096"
proof -
  have "unat a div 4096 * 4096 \<le> unat a" by simp
  also have "\<dots> < 2 ^ 32" using unat32_bound [of a] by simp
  finally show ?thesis
    by (simp add: PTE_ADDR_mult unat_word_ariths unat_div_distrib)
qed

lemma unat_PTE_FLAGS: "unat (PTE_FLAGS a) = unat a mod 4096"
  by (simp add: PTE_FLAGS_mod unat_mod_distrib)

lemma unat_PGROUNDDOWN: "unat (PGROUNDDOWN a) = unat a div 4096 * 4096"
  by (simp add: PGROUNDDOWN_eq unat_PTE_ADDR)

lemma unat_PGROUNDUP:
  assumes "unat a + 4095 < 2 ^ 32"
  shows "unat (PGROUNDUP a) = (unat a + 4095) div 4096 * 4096"
proof -
  have "PGROUNDUP a = PTE_ADDR (a + 4095)"
    by (simp add: PGROUNDUP_def PTE_ADDR_def add.commute)
  moreover have "unat (a + 4095) = unat a + 4095"
    using assms by (simp add: unat_word_ariths)
  ultimately show ?thesis by (simp add: unat_PTE_ADDR)
qed

lemma unat_PDX: "unat (PDX va) = unat va div 2 ^ 22"
proof -
  have "PDX va = take_bit 10 (drop_bit 22 va)"
    unfolding PDX_def by (simp add: take_bit_eq_mask mask_eq_exp_minus_1)
  then have "unat (PDX va) = unat va div 2 ^ 22 mod 2 ^ 10"
    by (simp add: take_bit_eq_mod drop_bit_eq_div unat_div_distrib unat_mod_distrib)
  also have "\<dots> = unat va div 2 ^ 22"
    using unat32_bound [of va] by (intro mod_less) (simp add: less_mult_imp_div_less)
  finally show ?thesis .
qed

lemma unat_PTX: "unat (PTX va) = unat va div 2 ^ 12 mod 2 ^ 10"
proof -
  have "PTX va = take_bit 10 (drop_bit 12 va)"
    unfolding PTX_def by (simp add: take_bit_eq_mask mask_eq_exp_minus_1)
  then show ?thesis
    by (simp add: take_bit_eq_mod drop_bit_eq_div unat_div_distrib unat_mod_distrib)
qed

lemma V2P_P2V [simp]: "V2P (P2V a) = a" "P2V (V2P a) = a"
  by (simp_all add: V2P_def P2V_def)

section \<open>Words in byte memory\<close>

type_synonym memory = "uint \<Rightarrow> uchar"

definition byte_of :: "nat \<Rightarrow> uint \<Rightarrow> uchar" where
  "byte_of k w = ucast (drop_bit (8 * k) w)"

definition word_of :: "uchar \<Rightarrow> uchar \<Rightarrow> uchar \<Rightarrow> uchar \<Rightarrow> uint" where
  "word_of a b c d =
     ucast a OR push_bit 8 (ucast b) OR push_bit 16 (ucast c) OR push_bit 24 (ucast d)"

definition load32 :: "memory \<Rightarrow> uint \<Rightarrow> uint" where
  "load32 m a = word_of (m a) (m (a + 1)) (m (a + 2)) (m (a + 3))"

definition store32 :: "uint \<Rightarrow> uint \<Rightarrow> memory \<Rightarrow> memory" where
  "store32 a w m = m(a := byte_of 0 w, a + 1 := byte_of 1 w, a + 2 := byte_of 2 w, a + 3 := byte_of 3 w)"

lemma word_of_bytes [simp]: "word_of (byte_of 0 w) (byte_of 1 w) (byte_of 2 w) (byte_of 3 w) = w"
proof (rule bit_word_eqI)
  fix n :: nat
  assume "n < LENGTH(32)"
  then have "n < 8 \<or> (8 \<le> n \<and> n < 16) \<or> (16 \<le> n \<and> n < 24) \<or> (24 \<le> n \<and> n < 32)" by auto
  then show "bit (word_of (byte_of 0 w) (byte_of 1 w) (byte_of 2 w) (byte_of 3 w)) n = bit w n"
    by (auto simp: word_of_def byte_of_def bit_simps)
qed

lemma byte_of_word [simp]:
  "byte_of 0 (word_of a b c d) = a" "byte_of (Suc 0) (word_of a b c d) = b"
  "byte_of 1 (word_of a b c d) = b" "byte_of 2 (word_of a b c d) = c" "byte_of 3 (word_of a b c d) = d"
  by (rule bit_word_eqI; auto simp: word_of_def byte_of_def bit_simps dest: bit_imp_le_length)+

lemma offsets_distinct:
  "a + 1 \<noteq> (a :: uint)" "a + 2 \<noteq> a" "a + 3 \<noteq> a" "a + 1 \<noteq> a + 2" "a + 1 \<noteq> a + 3" "a + 2 \<noteq> a + 3"
  by simp_all

lemma load32_store32_same [simp]: "load32 (store32 a w m) a = w"
  using word_of_bytes [of w] by (simp add: load32_def store32_def)

text \<open>Two aligned words are equal or disjoint.\<close>

definition aligned4 :: "uint \<Rightarrow> bool" where
  "aligned4 a \<longleftrightarrow> unat a mod 4 = 0"

lemma aligned4_offset:
  assumes "aligned4 a" and "k < 4"
  shows "unat (a + of_nat k) = unat a + k"
proof -
  have "unat a div 4 < 2 ^ 30" using unat32_bound [of a] by simp
  moreover have "unat a = unat a div 4 * 4" using assms(1) by (simp add: aligned4_def) presburger
  ultimately have "unat a + k < 2 ^ 32" using assms(2) by simp
  then show ?thesis using assms(2) by (simp add: unat_word_ariths unat_of_nat)
qed

lemma aligned4_disjoint:
  assumes "aligned4 a" and "aligned4 b" and "a \<noteq> b" and "j < 4" and "k < 4"
  shows "a + of_nat j \<noteq> b + of_nat k"
proof
  assume "a + of_nat j = b + of_nat k"
  then have "unat a + j = unat b + k"
    using aligned4_offset [OF assms(1,4)] aligned4_offset [OF assms(2,5)] by metis
  with assms have "unat a = unat b" unfolding aligned4_def by presburger
  with assms(3) show False by (simp add: word_unat_eq_iff)
qed

lemma load32_store32_other [simp]:
  assumes "aligned4 a" and "aligned4 b" and "a \<noteq> b"
  shows "load32 (store32 a w m) b = load32 m b"
proof -
  have "store32 a w m (b + of_nat k) = m (b + of_nat k)" if "k < 4" for k
    using aligned4_disjoint [OF assms, of 0 k] aligned4_disjoint [OF assms, of 1 k]
      aligned4_disjoint [OF assms, of 2 k] aligned4_disjoint [OF assms, of 3 k] that
    by (simp add: store32_def)
  from this [of 0] this [of 1] this [of 2] this [of 3] show ?thesis
    by (simp add: load32_def)
qed

lemma store32_outside: "unat (x - a) \<ge> 4 \<Longrightarrow> store32 a w m x = m x"
  by (auto simp: store32_def)

section \<open>Switching address spaces\<close>

definition lcr3 :: "uint \<Rightarrow> kernel \<Rightarrow> kernel" where
  "lcr3 v s = upd_cpu (\<lambda>c. c\<lparr>c_cr3 := v\<rparr>) s"

definition switchkvm :: "kernel \<Rightarrow> kernel" where
  "switchkvm s = lcr3 (V2P (kpgdir s)) s"

text \<open>
  \<^verbatim>\<open>switchuvm\<close>: the task-state fields the CPU uses on entry to the kernel, and the
  process's page directory. The descriptor of the task-state segment only points at them.
\<close>

definition switchuvm :: "nat option \<Rightarrow> kernel \<Rightarrow> kernel result" where
  "switchuvm ptr s =
     (case ptr of
        None \<Rightarrow> Inl (Panic ''switchuvm: no process'')
      | Some p \<Rightarrow>
          bindr (panic_if (p_kstack (procs s p) = 0) ''switchuvm: no kstack'') (\<lambda>_.
          bindr (panic_if (p_pgdir (procs s p) = 0) ''switchuvm: no pgdir'') (\<lambda>_.
          bindr (pushcli s) (\<lambda>s.
          bindr (mycpu s) (\<lambda>n.
          let s = s\<lparr>cpus := (cpus s)(n := (cpus s n)
                      \<lparr>c_ss0 := push_bit 3 SEG_KDATA,
                       c_esp0 := p_kstack (procs s p) + KSTACKSIZE,
                       c_iomb := 0xFFFF\<rparr>)\<rparr>;
              s = lcr3 (V2P (p_pgdir (procs s p))) s
          in popcli s)))))"

end
