(* ===== verification/Sched.thy ===== *)
theory Sched
  imports Runqueue Mmu
begin

text \<open>
  Scheduling (\<^verbatim>\<open>proc.c\<close>): sleeping and waking, yielding, the scheduler loop, aging, \<^verbatim>\<open>kill\<close> and
  \<^verbatim>\<open>nice\<close>. A context switch \<^verbatim>\<open>swtch\<close> cuts a C function in two: what the process runs before
  it leaves the CPU (\<open>_enter\<close>) and what it runs once it is chosen again (\<open>_exit\<close>);
  between the two the CPU runs the rest of the scheduler's iteration (\<open>scheduler_back\<close>)
  and later picks a process (\<open>scheduler_pick\<close>).
\<close>

section \<open>Operations\<close>

text \<open>\<^verbatim>\<open>myproc()\<close> where its result is dereferenced.\<close>

definition my :: "kernel \<Rightarrow> (nat \<times> kernel) result" where
  "my s = bindr (myproc s) (\<lambda>(p, s). bindr (deref p) (\<lambda>p. Inr (p, s)))"

definition wakeup1 :: "chan option \<Rightarrow> kernel \<Rightarrow> kernel result" where
  "wakeup1 chan s =
     iter (\<lambda>p s. if p_state (procs s p) = SLEEPING \<and> p_chan (procs s p) = chan
                  then bindr (increasepriority (Some p) s) (enqueue (Some p)) else Inr s)
       [0..<NPROC] s"

definition wakeup :: "chan option \<Rightarrow> kernel \<Rightarrow> kernel result" where
  "wakeup chan s =
     bindr (acquire Ptable_lock s) (\<lambda>s. bindr (wakeup1 chan s) (release Ptable_lock))"

text \<open>
  \<^verbatim>\<open>sched\<close> up to the switch: its checks, and the saved \<^verbatim>\<open>intena\<close>, which belongs to the
  kernel thread and is restored when the thread runs again.
\<close>

definition sched_enter :: "kernel \<Rightarrow> (bool \<times> kernel) result" where
  "sched_enter s =
     bindr (my s) (\<lambda>(p, s).
     bindr (holding Ptable_lock s) (\<lambda>(h, s).
     bindr (panic_if (\<not> h) ''sched ptable.lock'') (\<lambda>_.
     bindr (mycpu s) (\<lambda>c.
     bindr (panic_if (c_ncli (cpus s c) \<noteq> 1) ''sched locks'') (\<lambda>_.
     bindr (panic_if (p_state (procs s p) = RUNNING) ''sched running'') (\<lambda>_.
     bindr (panic_if (readeflags_if s) ''sched interruptible'') (\<lambda>_.
     Inr (c_intena (cpus s c), s))))))))"

definition sched_exit :: "bool \<Rightarrow> kernel \<Rightarrow> kernel result" where
  "sched_exit intena s =
     bindr (mycpu s) (\<lambda>c. Inr (s\<lparr>cpus := (cpus s)(c := (cpus s c)\<lparr>c_intena := intena\<rparr>)\<rparr>))"

definition yield_enter :: "kernel \<Rightarrow> (bool \<times> kernel) result" where
  "yield_enter s =
     bindr (acquire Ptable_lock s) (\<lambda>s.
     bindr (my s) (\<lambda>(p, s).
     let s = upd_proc p (\<lambda>q. q\<lparr>p_ticks_count := 0\<rparr>) s in
     bindr (myproc s) (\<lambda>(p, s).
     bindr (decreasepriority p s) (\<lambda>s.
     bindr (myproc s) (\<lambda>(p, s).
     bindr (enqueue p s) sched_enter)))))"

definition yield_exit :: "bool \<Rightarrow> kernel \<Rightarrow> kernel result" where
  "yield_exit intena s = bindr (sched_exit intena s) (release Ptable_lock)"

definition sleep_enter :: "chan option \<Rightarrow> lockid option \<Rightarrow> kernel \<Rightarrow> (bool \<times> kernel) result" where
  "sleep_enter chan lk s =
     bindr (myproc s) (\<lambda>(ptr, s).
     case ptr of
       None \<Rightarrow> Inl (Panic ''sleep'')
     | Some p \<Rightarrow>
        (case lk of
           None \<Rightarrow> Inl (Panic ''sleep without lk'')
         | Some lk \<Rightarrow>
            bindr (if lk \<noteq> Ptable_lock
                   then bindr (acquire Ptable_lock s) (release lk) else Inr s) (\<lambda>s.
            let s = upd_proc p (\<lambda>q. q\<lparr>p_chan := chan\<rparr>) s in
            sched_enter (set_state SLEEPING p s))))"

definition sleep_exit :: "nat \<Rightarrow> lockid \<Rightarrow> bool \<Rightarrow> kernel \<Rightarrow> kernel result" where
  "sleep_exit p lk intena s =
     bindr (sched_exit intena s) (\<lambda>s.
     let s = upd_proc p (\<lambda>q. q\<lparr>p_chan := None\<rparr>) s in
     if lk \<noteq> Ptable_lock then bindr (release Ptable_lock s) (acquire lk) else Inr s)"

text \<open>
  One iteration of the scheduler loop. \<open>scheduler_pick\<close> ends at the switch to the chosen
  process, with \<^verbatim>\<open>ptable.lock\<close> held, or at the end of the iteration if no process is
  runnable; \<open>scheduler_back\<close> is what follows the switch.
\<close>

definition scheduler_pick :: "kernel \<Rightarrow> (nat option \<times> kernel) result" where
  "scheduler_pick s =
     (let s = sti s in
      bindr (acquire Ptable_lock s) (\<lambda>s.
      bindr (first_level (nat PLEVELS) 0 s) (\<lambda>i.
      if i < PLEVELS then
        bindr (dequeue i s) (\<lambda>(p, s).
        let s = upd_cpu (\<lambda>c. c\<lparr>c_proc := Some p\<rparr>) s in
        bindr (switchuvm (Some p) s) (\<lambda>s.
        Inr (Some p, set_state RUNNING p s)))
      else bindr (release Ptable_lock s) (\<lambda>s. Inr (None, s)))))"

definition scheduler_back :: "kernel \<Rightarrow> kernel result" where
  "scheduler_back s =
     (let s = switchkvm s; s = upd_cpu (\<lambda>c. c\<lparr>c_proc := None\<rparr>) s
      in release Ptable_lock s)"

text \<open>
  \<^verbatim>\<open>aging\<close>: the inner loop follows \<^verbatim>\<open>next\<close> from a level's head, at most \<open>NPROC\<close> times on a
  well-formed level.
\<close>

fun aging_loop :: "nat \<Rightarrow> int \<Rightarrow> nat option \<Rightarrow> kernel \<Rightarrow> kernel result" where
  "aging_loop n i None s = Inr s"
| "aging_loop 0 i (Some p) s = Inl Out_Of_Fuel"
| "aging_loop (Suc n) i (Some p) s =
     (let nxt = p_next (procs s p);
          s = upd_proc p (\<lambda>q. q\<lparr>p_age := p_age q + 1\<rparr>) s in
      bindr (if AGELIMIT \<le> p_age (procs s p)
             then bindr (removefromlevel p i s) (\<lambda>s.
                  bindr (increasepriority (Some p) s) (enqueue (Some p)))
             else Inr s)
        (aging_loop n i nxt))"

definition aging_level :: "int \<Rightarrow> kernel \<Rightarrow> kernel result" where
  "aging_level i s = aging_loop NPROC i (lv_head (levels s (nat i))) s"

definition aging :: "kernel \<Rightarrow> kernel result" where
  "aging s =
     bindr (acquire Ptable_lock s) (\<lambda>s.
     bindr (iter aging_level [1..PLEVELS - 1] s) (release Ptable_lock))"

definition kill :: "int \<Rightarrow> kernel \<Rightarrow> (int \<times> kernel) result" where
  "kill pid s =
     bindr (acquire Ptable_lock s) (\<lambda>s.
     case find (\<lambda>p. p_pid (procs s p) = pid) [0..<NPROC] of
       Some p \<Rightarrow>
         let s = upd_proc p (\<lambda>q. q\<lparr>p_killed := True\<rparr>) s in
         bindr (if p_state (procs s p) = SLEEPING then enqueue (Some p) s else Inr s) (\<lambda>s.
         bindr (release Ptable_lock s) (\<lambda>s. Inr (0, s)))
     | None \<Rightarrow> bindr (release Ptable_lock s) (\<lambda>s. Inr (-1, s)))"

definition nice :: "int \<Rightarrow> kernel \<Rightarrow> (int \<times> kernel) result" where
  "nice inc s =
     bindr (acquire Ptable_lock s) (\<lambda>s.
     bindr (my s) (\<lambda>(p, s).
     let newnice = p_nice (procs s p) + inc in
     if newnice < 0 \<or> newnice > PLEVELS - 1
     then bindr (release Ptable_lock s) (\<lambda>s. Inr (-1, s))
     else
       let s = upd_proc p (\<lambda>q. q\<lparr>p_nice := newnice\<rparr>) s in
       bindr (release Ptable_lock s) (\<lambda>s. Inr (newnice, s))))"

text \<open>
  A function that may sleep is modelled by its pass up to its return or up to its call of
  \<^verbatim>\<open>sleep\<close>, whose saved \<^verbatim>\<open>intena\<close> is the argument of \<open>Sleeps\<close>; the next pass starts with
  \<open>sleep_exit\<close>. Where a caller is modelled in one go, a pass that sleeps is \<open>Blocks\<close>.
\<close>

datatype wait = Returns int | Sleeps bool

definition one_go :: "(wait \<times> kernel) result \<Rightarrow> (int \<times> kernel) result" where
  "one_go m = bindr m (\<lambda>(w, s). case w of Returns r \<Rightarrow> Inr (r, s) | Sleeps b \<Rightarrow> Inl Blocks)"

section \<open>The scheduling invariant\<close>

text \<open>
  Every priority is a level, and level \<open>i\<close> holds exactly the runnable processes of
  priority \<open>i\<close>.
\<close>

definition runnable_at :: "(nat \<Rightarrow> proc) \<Rightarrow> nat \<Rightarrow> nat set" where
  "runnable_at h i = {p. p < NPROC \<and> p_state (h p) = RUNNABLE \<and> p_nice (h p) = int i}"

definition sched_inv :: "kernel \<Rightarrow> bool" where
  "sched_inv s \<longleftrightarrow> runq s (queue_of s) \<and>
     (\<forall>p < NPROC. 0 \<le> p_nice (procs s p) \<and> p_nice (procs s p) < PLEVELS) \<and>
     (\<forall>i < 4. set (queue_of s i) = runnable_at (procs s) i)"

lemma sched_invI:
  assumes "runq s Q" and "\<And>p. p < NPROC \<Longrightarrow> 0 \<le> p_nice (procs s p) \<and> p_nice (procs s p) < PLEVELS"
    and "\<And>i. i < 4 \<Longrightarrow> set (Q i) = runnable_at (procs s) i"
  shows "sched_inv s" and "\<And>i. i < 4 \<Longrightarrow> queue_of s i = Q i"
  using assms runq_queue_of [OF assms(1)] runq_self [OF assms(1)] by (auto simp: sched_inv_def)

lemma sched_inv_nice: "sched_inv s \<Longrightarrow> p < 64 \<Longrightarrow> 0 \<le> p_nice (procs s p) \<and> p_nice (procs s p) < 4"
  by (simp add: sched_inv_def)

lemma sched_inv_runq: "sched_inv s \<Longrightarrow> runq s (queue_of s)"
  by (simp add: sched_inv_def)

lemma sched_inv_queued:
  "sched_inv s \<Longrightarrow> i < 4 \<Longrightarrow> p \<in> set (queue_of s i) \<longleftrightarrow>
     p < 64 \<and> p_state (procs s p) = RUNNABLE \<and> p_nice (procs s p) = int i"
  by (auto simp: sched_inv_def runnable_at_def)

lemma sched_inv_not_queued:
  "sched_inv s \<Longrightarrow> p_state (procs s p) \<noteq> RUNNABLE \<Longrightarrow> not_queued (queue_of s) p"
  by (auto simp: not_queued_def sched_inv_queued)

text \<open>Changing a process that is not runnable, into one that is not runnable.\<close>

lemma follow_cong:
  "(\<And>x. x \<in> set (follow h n p) \<Longrightarrow> p_next (h' x) = p_next (h x)) \<Longrightarrow> follow h' n p = follow h n p"
  by (induction h n p rule: follow.induct) auto

lemma sched_inv_change:
  assumes inv: "sched_inv s" and idle: "p_state (procs s p) \<noteq> RUNNABLE" "p_state q \<noteq> RUNNABLE"
    and nice: "p < NPROC \<longrightarrow> 0 \<le> p_nice q \<and> p_nice q < PLEVELS"
    and t: "procs t = (procs s)(p := q)" "levels t = levels s"
  shows "sched_inv t" and "\<And>i. i < 4 \<Longrightarrow> queue_of t i = queue_of s i"
proof -
  have out: "p \<notin> set (queue_of s i)" if "i < 4" for i
    using sched_inv_queued [OF inv that] idle by auto
  have same: "runnable_at (procs t) i = runnable_at (procs s) i" for i
    using idle t by (auto simp: runnable_at_def)
  have rq: "runq t (queue_of s)"
    using sched_inv_runq [OF inv] out t by (auto simp: runq_def level_rep_def)
  show "sched_inv t" and "\<And>i. i < 4 \<Longrightarrow> queue_of t i = queue_of s i"
    using sched_invI [OF rq] same inv nice t by (auto simp: sched_inv_def)
qed

text \<open>Changing fields of any process that neither the links nor the ranking depend on.\<close>

lemma sched_inv_cong:
  assumes inv: "sched_inv s" and lv: "levels t = levels s"
    and same: "\<And>p. p_next (procs t p) = p_next (procs s p)" "\<And>p. p_back (procs t p) = p_back (procs s p)"
      "\<And>p. p_state (procs t p) = p_state (procs s p)" "\<And>p. p_nice (procs t p) = p_nice (procs s p)"
  shows "sched_inv t" and "\<And>i. i < 4 \<Longrightarrow> queue_of t i = queue_of s i"
proof -
  have d: "dl (procs t) b xs e = dl (procs s) b xs e" for b xs e
    by (rule dl_cong) (simp add: same)
  have rq: "runq t (queue_of s)"
    using sched_inv_runq [OF inv] by (auto simp: runq_def level_rep_def d lv)
  have "runnable_at (procs t) i = runnable_at (procs s) i" for i
    by (simp add: runnable_at_def same)
  with rq show "sched_inv t" and "\<And>i. i < 4 \<Longrightarrow> queue_of t i = queue_of s i"
    using sched_invI [OF rq] inv by (auto simp: sched_inv_def same)
qed

text \<open>\<open>enqueue\<close> on a process that is not runnable.\<close>

lemma enqueue_inv:
  assumes inv: "sched_inv s" and p: "p < 64" and st: "p_state (procs s p) \<noteq> RUNNABLE"
  shows "wp (enqueue (Some p) s) (\<lambda>t. sched_inv t \<and> rq_frame s t \<and>
     (\<forall>q. same_but_links (procs t q) (procs (set_state RUNNABLE p s) q)) \<and>
     (\<forall>i < 4. queue_of t i = (if int i = p_nice (procs s p) then p # queue_of s i else queue_of s i)))"
proof -
  define l where "l = nat (p_nice (procs s p))"
  have nice: "0 \<le> p_nice (procs s p)" "p_nice (procs s p) < 4" using sched_inv_nice [OF inv p] by auto
  then have l: "l < 4" "int l = p_nice (procs s p)" by (auto simp: l_def)
  have "wp (enqueue (Some p) s) (\<lambda>t. runq t ((queue_of s)(l := p # queue_of s l)) \<and> rq_frame s t \<and>
     (\<forall>q. same_but_links (procs t q) (procs (set_state RUNNABLE p s) q)))"
    using enqueue_runq [OF sched_inv_runq [OF inv] _ sched_inv_not_queued [OF inv st]] p nice
    by (simp add: l_def)
  then show ?thesis
  proof (rule wp_mono, elim conjE)
    fix t
    assume rq: "runq t ((queue_of s)(l := p # queue_of s l))" and fr: "rq_frame s t"
      and sl: "\<forall>q. same_but_links (procs t q) (procs (set_state RUNNABLE p s) q)"
    have nice': "p_nice (procs t q) = p_nice (procs s q)" and
      state': "p_state (procs t q) = (if q = p then RUNNABLE else p_state (procs s q))" for q
      using same_but_links_fields(1,2) [OF sl [rule_format, of q]] by auto
    have set': "set (((queue_of s)(l := p # queue_of s l)) i) = runnable_at (procs t) i" if "i < 4" for i
      using inv that l p st by (auto simp: sched_inv_def runnable_at_def nice' state')
    have nr: "0 \<le> p_nice (procs t q) \<and> p_nice (procs t q) < PLEVELS" if "q < NPROC" for q
      using inv that by (simp add: sched_inv_def nice')
    note final = sched_invI [OF rq nr set']
    have "(int i = p_nice (procs s p)) = (i = l)" if "i < 4" for i using l by auto
    with final fr sl show "sched_inv t \<and> rq_frame s t \<and>
       (\<forall>q. same_but_links (procs t q) (procs (set_state RUNNABLE p s) q)) \<and>
       (\<forall>i < 4. queue_of t i = (if int i = p_nice (procs s p) then p # queue_of s i else queue_of s i))"
      by auto
  qed
qed

lemma p_nice_id [simp]: "p_nice q = n \<Longrightarrow> q\<lparr>p_nice := n\<rparr> = q"
  by (cases q) simp

lemma increasepriority_inv:
  assumes inv: "sched_inv s" and p: "p < 64" and st: "p_state (procs s p) \<noteq> RUNNABLE"
  shows "wp (increasepriority (Some p) s) (\<lambda>t. sched_inv t \<and> rq_frame s t \<and>
     procs t = (procs s)(p := (procs s p)\<lparr>p_nice := max 0 (p_nice (procs s p) - 1)\<rparr>) \<and> levels t = levels s \<and>
     (\<forall>i < 4. queue_of t i = queue_of s i))"
proof -
  let ?q = "(procs s p)\<lparr>p_nice := max 0 (p_nice (procs s p) - 1)\<rparr>"
  have nice: "0 \<le> p_nice (procs s p)" "p_nice (procs s p) < 4" using sched_inv_nice [OF inv p] by auto
  have eq: "increasepriority (Some p) s = Inr (s\<lparr>procs := (procs s)(p := ?q)\<rparr>)"
    using nice by (cases "p_nice (procs s p) = 0") (auto simp: increasepriority_def max_def fun_upd_idem)
  have "sched_inv (s\<lparr>procs := (procs s)(p := ?q)\<rparr>)"
    "i < 4 \<Longrightarrow> queue_of (s\<lparr>procs := (procs s)(p := ?q)\<rparr>) i = queue_of s i" for i
    using sched_inv_change [OF inv st, of ?q] st nice by auto
  with eq show ?thesis by simp
qed

lemma same_but_links_trans: "same_but_links a b \<Longrightarrow> same_but_links b c \<Longrightarrow> same_but_links a c"
  by (simp add: same_but_links_def)

lemma same_but_links_nice:
  "same_but_links a b \<Longrightarrow> same_but_links (a\<lparr>p_nice := n\<rparr>) (b\<lparr>p_nice := n\<rparr>)"
  "same_but_links a b \<Longrightarrow> same_but_links (a\<lparr>p_state := st\<rparr>) (b\<lparr>p_state := st\<rparr>)"
  by (cases a; cases b; simp add: same_but_links_def)+

lemma p_state_id [simp]: "p_state q = n \<Longrightarrow> q\<lparr>p_state := n\<rparr> = q"
  by (cases q) simp

text \<open>The move of a process from level \<open>l + 1\<close> to the entry of level \<open>l\<close>.\<close>

definition moved :: "nat \<Rightarrow> nat \<Rightarrow> (nat \<Rightarrow> nat list) \<Rightarrow> nat \<Rightarrow> nat list" where
  "moved p l Q = (Q(Suc l := remove1 p (Q (Suc l))))(l := p # Q l)"

lemma promote_runq:
  assumes inv: "sched_inv s" and l: "Suc l < 4" and p: "p \<in> set (queue_of s (Suc l))"
  shows "wp (bindr (removefromlevel p (int (Suc l)) s) (\<lambda>s. bindr (increasepriority (Some p) s) (enqueue (Some p))))
     (\<lambda>t. runq t (moved p l (queue_of s)) \<and> rq_frame s t \<and>
       (\<forall>q. same_but_links (procs t q) (procs (upd_proc p (\<lambda>r. r\<lparr>p_nice := int l\<rparr>) s) q)))"
proof -
  let ?Q = "queue_of s"
  let ?Q1 = "?Q(Suc l := remove1 p (?Q (Suc l)))"
  have run: "p < 64" "p_state (procs s p) = RUNNABLE" "p_nice (procs s p) = int (Suc l)"
    using sched_inv_queued [OF inv l] p by auto
  have rq: "runq s ?Q" by (rule sched_inv_runq [OF inv])
  have "distinct (?Q (Suc l))" using runq_level [OF rq l] by (simp add: level_rep_def)
  moreover have "i = Suc l" if "i < 4" "p \<in> set (?Q i)" for i
    by (rule runq_disjoint [OF rq that(1) l that(2) p])
  ultimately have nq: "not_queued ?Q1 p"
    unfolding not_queued_def by (metis Diff_iff fun_upd_other fun_upd_same insertI1 set_remove1_eq)
  have step: "wp (bindr (increasepriority (Some p) t) (enqueue (Some p)))
     (\<lambda>u. runq u (moved p l ?Q) \<and> rq_frame s u \<and>
       (\<forall>q. same_but_links (procs u q) (procs (upd_proc p (\<lambda>r. r\<lparr>p_nice := int l\<rparr>) s) q)))"
    if t: "runq t ?Q1" "rq_frame s t" "\<forall>q. same_but_links (procs t q) (procs s q)" for t
  proof -
    define t' where "t' = upd_proc p (\<lambda>r. r\<lparr>p_nice := int l\<rparr>) t"
    have fields: "p_nice (procs t p) = int (Suc l)" "p_state (procs t p) = RUNNABLE"
      using same_but_links_fields(1,2) [OF t(3) [rule_format, of p]] run by auto
    then have eq: "increasepriority (Some p) t = Inr t'" by (simp add: increasepriority_def t'_def)
    have rq': "runq t' ?Q1" using t(1) by (simp add: t'_def runq_def level_rep_def)
    have nice': "p_nice (procs t' p) = int l" by (simp add: t'_def)
    have "wp (enqueue (Some p) t') (\<lambda>u. runq u (?Q1(l := p # ?Q1 l)) \<and> rq_frame t' u \<and>
         (\<forall>q. same_but_links (procs u q) (procs (set_state RUNNABLE p t') q)))"
      using enqueue_runq [OF rq' _ nq] run(1) l nice' by simp
    moreover have "rq_frame s t'" using t(2) by (simp add: t'_def)
    moreover have "same_but_links (procs (set_state RUNNABLE p t') q)
        (procs (upd_proc p (\<lambda>r. r\<lparr>p_nice := int l\<rparr>) s) q)" for q
      using t(3) [rule_format, of q] fields by (auto simp: t'_def same_but_links_nice)
    moreover have "?Q1(l := p # ?Q1 l) = moved p l ?Q" by (simp add: moved_def)
    ultimately show ?thesis
      unfolding eq bindr_simps by (elim wp_mono) (metis rq_frame_trans same_but_links_trans)
  qed
  show ?thesis
    by (rule wp_seq [OF removefromlevel_runq [OF rq l p]]) (elim conjE, rule step)
qed

lemma promote_inv:
  assumes inv: "sched_inv s" and l: "Suc l < 4" and p: "p \<in> set (queue_of s (Suc l))"
  shows "wp (bindr (removefromlevel p (int (Suc l)) s) (\<lambda>s. bindr (increasepriority (Some p) s) (enqueue (Some p))))
     (\<lambda>t. sched_inv t \<and> rq_frame s t \<and> (\<forall>i < 4. queue_of t i = moved p l (queue_of s) i) \<and>
       (\<forall>q. same_but_links (procs t q) (procs (upd_proc p (\<lambda>r. r\<lparr>p_nice := int l\<rparr>) s) q)))"
  using promote_runq [OF assms]
proof (rule wp_mono, elim conjE)
  fix t
  assume rq: "runq t (moved p l (queue_of s))" and fr: "rq_frame s t"
    and sl: "\<forall>q. same_but_links (procs t q) (procs (upd_proc p (\<lambda>r. r\<lparr>p_nice := int l\<rparr>) s) q)"
  have nice': "p_nice (procs t q) = (if q = p then int l else p_nice (procs s q))" and
    state': "p_state (procs t q) = p_state (procs s q)" for q
    using same_but_links_fields(1,2) [OF sl [rule_format, of q]] by auto
  have run: "p < 64" "p_state (procs s p) = RUNNABLE" "p_nice (procs s p) = int (Suc l)"
    using sched_inv_queued [OF inv l] p by auto
  have d: "distinct (queue_of s (Suc l))"
    using runq_level [OF sched_inv_runq [OF inv] l] by (simp add: level_rep_def)
  have set': "set (moved p l (queue_of s) i) = runnable_at (procs t) i" if "i < 4" for i
  proof -
    have "x \<in> set (moved p l (queue_of s) i) \<longleftrightarrow>
        (if x = p then i = l else x \<in> set (queue_of s i))" for x
      using d run(3) sched_inv_queued [OF inv \<open>i < 4\<close>, of p] by (auto simp: moved_def)
    then show ?thesis
      using sched_inv_queued [OF inv \<open>i < 4\<close>] run by (auto simp: runnable_at_def nice' state')
  qed
  have nr: "0 \<le> p_nice (procs t q) \<and> p_nice (procs t q) < PLEVELS" if "q < NPROC" for q
    using inv that l by (simp add: sched_inv_def nice')
  show "sched_inv t \<and> rq_frame s t \<and> (\<forall>i < 4. queue_of t i = moved p l (queue_of s) i) \<and>
       (\<forall>q. same_but_links (procs t q) (procs (upd_proc p (\<lambda>r. r\<lparr>p_nice := int l\<rparr>) s) q))"
    using sched_invI [OF rq nr set'] fr sl by auto
qed

section \<open>Aging\<close>

definition aged :: "kernel \<Rightarrow> nat \<Rightarrow> bool" where
  "aged s p \<longleftrightarrow> AGELIMIT \<le> p_age (procs s p) + 1"

text \<open>What one pass over level \<open>l + 1\<close> makes of a process on it, links apart.\<close>

definition age_proc :: "nat \<Rightarrow> proc \<Rightarrow> proc" where
  "age_proc l q = (if AGELIMIT \<le> p_age q + 1 then q\<lparr>p_age := p_age q + 1, p_nice := int l\<rparr>
                   else q\<lparr>p_age := p_age q + 1\<rparr>)"

lemma same_but_links_age:
  "same_but_links a b \<Longrightarrow> same_but_links (a\<lparr>p_age := n\<rparr>) (b\<lparr>p_age := n\<rparr>)"
  by (cases a; cases b; simp add: same_but_links_def)

lemma same_but_links_age_proc: "same_but_links a b \<Longrightarrow> same_but_links (age_proc l a) (age_proc l b)"
  by (cases a; cases b; simp add: same_but_links_def age_proc_def)

lemma aging_step:
  assumes inv: "sched_inv s" and l: "Suc l < 4" and Q: "queue_of s (Suc l) = ys @ p # xs"
  defines "s1 \<equiv> upd_proc p (\<lambda>q. q\<lparr>p_age := p_age q + 1\<rparr>) s"
  shows "wp (if AGELIMIT \<le> p_age (procs s1 p)
             then bindr (removefromlevel p (int (Suc l)) s1) (\<lambda>s.
                  bindr (increasepriority (Some p) s) (enqueue (Some p)))
             else Inr s1)
    (\<lambda>t. sched_inv t \<and> rq_frame s t \<and>
       queue_of t (Suc l) = ys @ (if aged s p then xs else p # xs) \<and>
       queue_of t l = (if aged s p then p # queue_of s l else queue_of s l) \<and>
       (\<forall>i < 4. i \<noteq> l \<and> i \<noteq> Suc l \<longrightarrow> queue_of t i = queue_of s i) \<and>
       (\<forall>q. same_but_links (procs t q) (if q = p then age_proc l (procs s q) else procs s q)))"
    (is "wp _ ?R")
proof -
  have inv1: "sched_inv s1" and Q1: "\<And>i. i < 4 \<Longrightarrow> queue_of s1 i = queue_of s i"
    using sched_inv_cong [OF inv, of s1] by (auto simp: s1_def)
  have "distinct (ys @ p # xs)"
    using runq_level [OF sched_inv_runq [OF inv] l] Q by (simp add: level_rep_def)
  then have rem: "remove1 p (ys @ p # xs) = ys @ xs" by (simp add: remove1_append)
  show ?thesis
  proof (cases "aged s p")
    case True
    then have c: "AGELIMIT \<le> p_age (procs s1 p)" by (simp add: aged_def s1_def)
    have mem: "p \<in> set (queue_of s1 (Suc l))" using Q Q1 l by simp
    have l4: "l < 4" using l by simp
    have R: "?R t" if t: "sched_inv t" "rq_frame s1 t" "\<forall>i < 4. queue_of t i = moved p l (queue_of s1) i"
       "\<forall>q. same_but_links (procs t q) (procs (upd_proc p (\<lambda>r. r\<lparr>p_nice := int l\<rparr>) s1) q)" for t
    proof -
      have "rq_frame s t" using rq_frame_trans [OF _ t(2), of s] by (simp add: s1_def)
      moreover have "queue_of t (Suc l) = ys @ xs" "queue_of t l = p # queue_of s l"
        "\<And>i. i < 4 \<Longrightarrow> i \<noteq> l \<Longrightarrow> i \<noteq> Suc l \<Longrightarrow> queue_of t i = queue_of s i"
        using t(3) l l4 Q Q1 rem by (auto simp: moved_def)
      moreover have "same_but_links (procs t q) (if q = p then age_proc l (procs s q) else procs s q)" for q
        using t(4) [rule_format, of q] True by (auto simp: s1_def age_proc_def aged_def)
      ultimately show ?thesis using t(1) True by simp
    qed
    show ?thesis
      unfolding if_P [OF c] by (rule wp_mono [OF promote_inv [OF inv1 l mem]]) (elim conjE, rule R)
  next
    case False
    then have c: "\<not> AGELIMIT \<le> p_age (procs s1 p)" by (simp add: aged_def s1_def)
    have "?R s1" using False inv1 Q Q1 l by (auto simp: s1_def age_proc_def aged_def)
    then show ?thesis unfolding if_not_P [OF c] by simp
  qed
qed

lemma aging_loop_inv:
  assumes "sched_inv s" and "Suc l < 4" and "queue_of s (Suc l) = ys @ xs" and "length xs \<le> n"
  shows "wp (aging_loop n (int (Suc l)) (hdp xs None) s)
    (\<lambda>t. sched_inv t \<and> rq_frame s t \<and>
       queue_of t (Suc l) = ys @ filter (\<lambda>p. \<not> aged s p) xs \<and>
       queue_of t l = rev (filter (aged s) xs) @ queue_of s l \<and>
       (\<forall>i < 4. i \<noteq> l \<and> i \<noteq> Suc l \<longrightarrow> queue_of t i = queue_of s i) \<and>
       (\<forall>q. same_but_links (procs t q) (if q \<in> set xs then age_proc l (procs s q) else procs s q)))"
    (is "wp _ (?R s ys xs)")
  using assms
proof (induction xs arbitrary: s ys n)
  case Nil
  then show ?case by simp
next
  case (Cons p xs)
  note inv = Cons.prems(1) and l = Cons.prems(2) and Q = Cons.prems(3)
  from Cons.prems(4) obtain m where n: "n = Suc m" "length xs \<le> m" by (cases n) auto
  have lr: "level_rep (procs s) (levels s (Suc l)) (ys @ p # xs)"
    using runq_level [OF sched_inv_runq [OF inv] l] Q by simp
  have nxt: "p_next (procs s p) = hdp xs None" and px: "p \<notin> set xs"
    using lr by (auto simp: level_rep_def)
  define ys' where "ys' = (if aged s p then ys else ys @ [p])"
  have rest: "wp (aging_loop m (int (Suc l)) (hdp xs None) t) (?R s ys (p # xs))"
    if t: "sched_inv t" "rq_frame s t" "queue_of t (Suc l) = ys @ (if aged s p then xs else p # xs)"
       "queue_of t l = (if aged s p then p # queue_of s l else queue_of s l)"
       "\<forall>i < 4. i \<noteq> l \<and> i \<noteq> Suc l \<longrightarrow> queue_of t i = queue_of s i"
       "\<forall>q. same_but_links (procs t q) (if q = p then age_proc l (procs s q) else procs s q)" for t
  proof -
    have "queue_of t (Suc l) = ys' @ xs" using t(3) by (simp add: ys'_def)
    note IH = Cons.IH [OF t(1) l this n(2)]
    have ag: "aged t q = aged s q" if "q \<in> set xs" for q
      using same_but_links_fields(3) [OF t(6) [rule_format, of q]] that px by (auto simp: aged_def)
    have f: "filter (aged t) xs = filter (aged s) xs"
      "filter (\<lambda>p. \<not> aged t p) xs = filter (\<lambda>p. \<not> aged s p) xs"
      using ag by (auto intro: filter_cong)
    show ?thesis
    proof (rule wp_mono [OF IH], elim conjE)
      fix u
      assume u: "sched_inv u" "rq_frame t u" "queue_of u (Suc l) = ys' @ filter (\<lambda>p. \<not> aged t p) xs"
        "queue_of u l = rev (filter (aged t) xs) @ queue_of t l"
        "\<forall>i < 4. i \<noteq> l \<and> i \<noteq> Suc l \<longrightarrow> queue_of u i = queue_of t i"
        "\<forall>q. same_but_links (procs u q) (if q \<in> set xs then age_proc l (procs t q) else procs t q)"
      have "same_but_links (procs u q) (if q \<in> set (p # xs) then age_proc l (procs s q) else procs s q)" for q
        using u(6) [rule_format, of q] t(6) [rule_format, of q] px
        by (cases "q = p"; cases "q \<in> set xs") (auto dest: same_but_links_trans same_but_links_age_proc [of _ _ l])
      with u t f show "?R s ys (p # xs) u"
        using rq_frame_trans [OF t(2) u(2)] by (auto simp: ys'_def)
    qed
  qed
  show ?case
    unfolding n(1) hdp_simps aging_loop.simps Let_def nxt
    by (rule wp_seq [OF aging_step [OF inv l Q]]) (elim conjE, rule rest)
qed


text \<open>
  The closed form of \<^verbatim>\<open>aging\<close> on the levels, after the passes over levels 1 to \<open>k\<close>: every
  process of level \<open>l + 1\<close> whose age reaches the limit goes to the entry of level \<open>l\<close>, the
  others keep their order. A process moves at most one level, since the pass that
  follows starts at a higher level.
\<close>

definition aged_queue :: "nat \<Rightarrow> kernel \<Rightarrow> nat \<Rightarrow> nat list" where
  "aged_queue k s l =
     (if l < k then rev (filter (aged s) (queue_of s (Suc l))) else []) @
     (if 0 < l \<and> l \<le> k then filter (\<lambda>p. \<not> aged s p) (queue_of s l) else queue_of s l)"

definition aged_table :: "nat \<Rightarrow> kernel \<Rightarrow> nat \<Rightarrow> proc" where
  "aged_table k s p =
     (let q = procs s p in
      if p < NPROC \<and> p_state q = RUNNABLE \<and> 0 < p_nice q \<and> p_nice q \<le> int k
      then age_proc (nat (p_nice q - 1)) q else q)"

lemma aging_level_inv:
  assumes inv: "sched_inv s" and l: "Suc l < 4"
  shows "wp (aging_level (int (Suc l)) s)
    (\<lambda>t. sched_inv t \<and> rq_frame s t \<and>
       queue_of t (Suc l) = filter (\<lambda>p. \<not> aged s p) (queue_of s (Suc l)) \<and>
       queue_of t l = rev (filter (aged s) (queue_of s (Suc l))) @ queue_of s l \<and>
       (\<forall>i < 4. i \<noteq> l \<and> i \<noteq> Suc l \<longrightarrow> queue_of t i = queue_of s i) \<and>
       (\<forall>q. same_but_links (procs t q) (if q \<in> set (queue_of s (Suc l)) then age_proc l (procs s q) else procs s q)))"
proof -
  have lr: "level_rep (procs s) (levels s (Suc l)) (queue_of s (Suc l))"
    using runq_level [OF sched_inv_runq [OF inv] l] .
  have hd: "lv_head (levels s (Suc l)) = hdp (queue_of s (Suc l)) None"
    using lr by (simp add: level_rep_def)
  have "length (queue_of s (Suc l)) \<le> 64"
  proof -
    have "distinct (queue_of s (Suc l))" "set (queue_of s (Suc l)) \<subseteq> {..<64}"
      using lr runq_bound [OF sched_inv_runq [OF inv] l] by (auto simp: level_rep_def)
    then show ?thesis using card_mono [of "{..<64::nat}"] by (fastforce simp: distinct_card [symmetric])
  qed
  then show ?thesis
    using aging_loop_inv [OF inv l, of "[]" "queue_of s (Suc l)" 64] hd
    by (simp add: aging_level_def nat_add_distrib del: aging_loop.simps)
qed


definition aged_upto :: "nat \<Rightarrow> kernel \<Rightarrow> kernel \<Rightarrow> bool" where
  "aged_upto k s t \<longleftrightarrow> sched_inv t \<and> rq_frame s t \<and> (\<forall>i < 4. queue_of t i = aged_queue k s i) \<and>
     (\<forall>q. same_but_links (procs t q) (aged_table k s q))"

lemma aging_level_upto:
  assumes inv: "sched_inv s" and k: "Suc k < 4" and t: "aged_upto k s t"
  shows "wp (aging_level (int (Suc k)) t) (aged_upto (Suc k) s)"
proof (rule wp_mono [OF aging_level_inv [OF _ k]])
  show tinv: "sched_inv t" using t by (simp add: aged_upto_def)
  have tq: "queue_of t (Suc k) = queue_of s (Suc k)" "k < 4"
    using t k by (auto simp: aged_upto_def aged_queue_def)
  have same: "same_but_links (procs t q) (procs s q)" if "q \<in> set (queue_of s (Suc k))" for q
  proof -
    have "p_nice (procs s q) = int (Suc k)" using sched_inv_queued [OF inv k] that by simp
    then have "aged_table k s q = procs s q" by (simp add: aged_table_def)
    moreover have "same_but_links (procs t q) (aged_table k s q)" using t by (simp add: aged_upto_def)
    ultimately show ?thesis by simp
  qed
  have ag: "aged t q = aged s q" if "q \<in> set (queue_of s (Suc k))" for q
    using same_but_links_fields(3) [OF same [OF that]] by (simp add: aged_def)
  have f: "filter (aged t) (queue_of s (Suc k)) = filter (aged s) (queue_of s (Suc k))"
      "filter (\<lambda>p. \<not> aged t p) (queue_of s (Suc k)) = filter (\<lambda>p. \<not> aged s p) (queue_of s (Suc k))"
    using ag by (auto intro: filter_cong)
  fix u
  assume u: "sched_inv u \<and> rq_frame t u \<and>
       queue_of u (Suc k) = filter (\<lambda>p. \<not> aged t p) (queue_of t (Suc k)) \<and>
       queue_of u k = rev (filter (aged t) (queue_of t (Suc k))) @ queue_of t k \<and>
       (\<forall>i < 4. i \<noteq> k \<and> i \<noteq> Suc k \<longrightarrow> queue_of u i = queue_of t i) \<and>
       (\<forall>q. same_but_links (procs u q) (if q \<in> set (queue_of t (Suc k)) then age_proc k (procs t q) else procs t q))"
  have "queue_of u i = aged_queue (Suc k) s i" if "i < 4" for i
  proof -
    have "queue_of t i = aged_queue k s i" using t that by (simp add: aged_upto_def)
    then show ?thesis
      using u tq f that by (cases "i = k"; cases "i = Suc k") (auto simp: aged_queue_def)
  qed
  moreover have "same_but_links (procs u q) (aged_table (Suc k) s q)" for q
  proof (cases "q \<in> set (queue_of s (Suc k))")
    case True
    then have "q < 64 \<and> p_state (procs s q) = RUNNABLE \<and> p_nice (procs s q) = int (Suc k)"
      using sched_inv_queued [OF inv k] by simp
    then have "aged_table (Suc k) s q = age_proc k (procs s q)" by (simp add: aged_table_def)
    moreover have "same_but_links (procs u q) (age_proc k (procs t q))" using u True tq by metis
    ultimately show ?thesis
      using same_but_links_trans same_but_links_age_proc [OF same [OF True]] by metis
  next
    case False
    then have "\<not> (q < 64 \<and> p_state (procs s q) = RUNNABLE \<and> p_nice (procs s q) = int (Suc k))"
      using sched_inv_queued [OF inv k] by simp
    then have "aged_table (Suc k) s q = aged_table k s q" by (auto simp: aged_table_def Let_def)
    moreover have "same_but_links (procs u q) (procs t q)" using u False tq by metis
    ultimately show ?thesis using t same_but_links_trans by (metis aged_upto_def)
  qed
  moreover have "rq_frame s u" using t u rq_frame_trans by (auto simp: aged_upto_def)
  ultimately show "aged_upto (Suc k) s u" using u by (simp add: aged_upto_def)
qed

lemma aging_levels:
  assumes inv: "sched_inv s"
  shows "wp (iter aging_level [1..PLEVELS - 1] s) (aged_upto 3 s)"
proof -
  have "aged_upto 0 s s" using inv by (auto simp: aged_upto_def aged_queue_def aged_table_def Let_def)
  then have "wp (aging_level 1 s) (aged_upto 1 s)" using aging_level_upto [OF inv, of 0 s] by simp
  moreover have "wp (aging_level 2 t) (aged_upto 2 s)" if "aged_upto 1 s t" for t
    using aging_level_upto [OF inv _ that] by (simp add: numeral_2_eq_2)
  moreover have "wp (aging_level 3 t) (aged_upto 3 s)" if "aged_upto 2 s t" for t
    using aging_level_upto [OF inv _ that] by simp
  moreover have "[1..PLEVELS - 1] = [1, 2, 3]" by (simp add: upto_rec1)
  ultimately show ?thesis
    by (simp add: wp_bindr) (blast intro: wp_mono)
qed

section \<open>Waking up\<close>

definition sleeps_on :: "chan option \<Rightarrow> proc \<Rightarrow> bool" where
  "sleeps_on chan q \<longleftrightarrow> p_state q = SLEEPING \<and> p_chan q = chan"

definition woken :: "proc \<Rightarrow> proc" where
  "woken q = q\<lparr>p_nice := max 0 (p_nice q - 1), p_state := RUNNABLE\<rparr>"

lemma same_but_links_woken: "same_but_links a b \<Longrightarrow> same_but_links (woken a) (woken b)"
  by (cases a; cases b; simp add: same_but_links_def woken_def)

text \<open>What \<^verbatim>\<open>wakeup1\<close> has done once it has looked at the processes \<open>ys\<close>.\<close>

definition woken_upto :: "chan option \<Rightarrow> kernel \<Rightarrow> nat list \<Rightarrow> kernel \<Rightarrow> bool" where
  "woken_upto chan s ys t \<longleftrightarrow> sched_inv t \<and> rq_frame s t \<and>
     (\<forall>i < 4. queue_of t i =
        rev (filter (\<lambda>p. sleeps_on chan (procs s p) \<and> p_nice (woken (procs s p)) = int i) ys) @ queue_of s i) \<and>
     (\<forall>q. same_but_links (procs t q)
        (if q \<in> set ys \<and> sleeps_on chan (procs s q) then woken (procs s q) else procs s q))"

lemma wake_one:
  assumes inv: "sched_inv t" and p: "p < 64" and st: "p_state (procs t p) = SLEEPING"
  shows "wp (bindr (increasepriority (Some p) t) (enqueue (Some p)))
    (\<lambda>u. sched_inv u \<and> rq_frame t u \<and>
      (\<forall>i < 4. queue_of u i = (if p_nice (woken (procs t p)) = int i then p # queue_of t i else queue_of t i)) \<and>
      (\<forall>q. same_but_links (procs u q) (if q = p then woken (procs t q) else procs t q)))"
proof (rule wp_seq [OF increasepriority_inv [OF inv p]], goal_cases)
  case 1
  show ?case using st by simp
next
  case (2 v)
  then have v: "sched_inv v" "rq_frame t v" "\<And>i. i < 4 \<Longrightarrow> queue_of v i = queue_of t i"
    and pv: "procs v = (procs t)(p := (procs t p)\<lparr>p_nice := max 0 (p_nice (procs t p) - 1)\<rparr>)" by auto
  have "p_state (procs v p) \<noteq> RUNNABLE" using st by (simp add: pv)
  note enq = enqueue_inv [OF v(1) p this]
  have nv: "p_nice (procs v p) = p_nice (woken (procs t p))" by (simp add: pv woken_def)
  have tab: "procs (set_state RUNNABLE p v) q = (if q = p then woken (procs t q) else procs t q)" for q
    by (simp add: pv woken_def)
  show ?case
    by (rule wp_mono [OF enq]) (use v rq_frame_trans [OF v(2)] in \<open>auto simp: nv tab simp del: upd_defs\<close>)
qed

lemma wakeup1_inv:
  assumes inv: "sched_inv s"
  shows "wp (wakeup1 chan s) (woken_upto chan s [0..<NPROC])"
  unfolding wakeup1_def
proof (rule wp_iter)
  show "woken_upto chan s [] s" using inv by (simp add: woken_upto_def)
next
  fix ys p zs t
  assume split: "[0..<NPROC] = ys @ p # zs" and t: "woken_upto chan s ys t"
  have p: "p < 64" using arg_cong [OF split, of set] by auto
  have py: "p \<notin> set ys" using arg_cong [OF split, of distinct] by auto
  have tq: "same_but_links (procs t q)
      (if q \<in> set ys \<and> sleeps_on chan (procs s q) then woken (procs s q) else procs s q)" for q
    using t unfolding woken_upto_def by blast
  have tp: "same_but_links (procs t p) (procs s p)" using tq [of p] py by simp
  have cond: "p_state (procs t p) = SLEEPING \<and> p_chan (procs t p) = chan \<longleftrightarrow> sleeps_on chan (procs s p)"
    using same_but_links_fields(1,5) [OF tp] by (simp add: sleeps_on_def)
  show "wp (if p_state (procs t p) = SLEEPING \<and> p_chan (procs t p) = chan
            then bindr (increasepriority (Some p) t) (enqueue (Some p)) else Inr t)
          (woken_upto chan s (ys @ [p]))"
  proof (cases "sleeps_on chan (procs s p)")
    case False
    then have "same_but_links (procs t q)
        (if q \<in> set (ys @ [p]) \<and> sleeps_on chan (procs s q) then woken (procs s q) else procs s q)" for q
      using tq [of q] by (cases "q = p") simp_all
    with t False have "woken_upto chan s (ys @ [p]) t"
      unfolding woken_upto_def by (intro conjI allI) simp_all
    with False show ?thesis unfolding cond by simp
  next
    case True
    then have st: "p_state (procs t p) = SLEEPING" using cond by simp
    have tinv: "sched_inv t" using t by (simp add: woken_upto_def)
    have nice: "p_nice (woken (procs t p)) = p_nice (woken (procs s p))"
      using same_but_links_fields(2) [OF tp] by (simp add: woken_def)
    have "woken_upto chan s (ys @ [p]) u"
      if u: "sched_inv u" "rq_frame t u"
        "\<forall>i < 4. queue_of u i = (if p_nice (woken (procs t p)) = int i then p # queue_of t i else queue_of t i)"
        "\<forall>q. same_but_links (procs u q) (if q = p then woken (procs t q) else procs t q)" for u
    proof -
      have "same_but_links (procs u q) (if q \<in> set (ys @ [p]) \<and> sleeps_on chan (procs s q) then woken (procs s q) else procs s q)" for q
      proof (cases "q = p")
        case eq: True
        then have "same_but_links (procs u q) (woken (procs t p))" using u(4) by metis
        from same_but_links_trans [OF this same_but_links_woken [OF tp]] show ?thesis
          using True eq by simp
      next
        case ne: False
        then have "same_but_links (procs u q) (procs t q)" using u(4) by metis
        then show ?thesis using ne same_but_links_trans [OF _ tq [of q]] by simp
      qed
      moreover have "rq_frame s u" using t u(2) rq_frame_trans by (auto simp: woken_upto_def)
      ultimately show ?thesis
        using u(1,3) t True nice by (auto simp: woken_upto_def)
    qed
    then show ?thesis
      unfolding cond if_P [OF True] by (intro wp_mono [OF wake_one [OF tinv p st]]) blast
  qed
qed

section \<open>Operations under the process-table lock\<close>

lemma sched_view:
  assumes "procs t = procs s" and "levels t = levels s"
  shows "sched_inv t = sched_inv s" and "queue_of t = queue_of s"
proof -
  show q: "queue_of t = queue_of s" by (rule ext) (simp add: queue_of_def assms)
  show "sched_inv t = sched_inv s" by (simp add: sched_inv_def runq_def q assms)
qed

lemma sched_view_simps [simp]:
  "sched_inv (acq lk s) = sched_inv s" "sched_inv (rel lk s) = sched_inv s"
  "sched_inv (s\<lparr>cpus := c\<rparr>) = sched_inv s" "sched_inv (s\<lparr>this_cpu := i\<rparr>) = sched_inv s"
  "queue_of (acq lk s) = queue_of s" "queue_of (rel lk s) = queue_of s"
  "queue_of (s\<lparr>cpus := c\<rparr>) = queue_of s" "queue_of (s\<lparr>this_cpu := i\<rparr>) = queue_of s"
  by (rule sched_view; simp)+

lemma rq_frame_fields:
  assumes "rq_frame s t"
  shows "cpus t = cpus s" "locks t = locks s" "this_cpu t = this_cpu s" "ncpu t = ncpu s" "mem t = mem s"
    "nextpid t = nextpid s" "initproc t = initproc s" "ticks t = ticks s"
  using assms by (cases s; cases t; simp add: rq_frame_def)+

text \<open>\<open>critical lk s\<close>: an empty critical section; only the dead \<^verbatim>\<open>intena\<close> may change.\<close>

definition critical :: "lockid \<Rightarrow> kernel \<Rightarrow> kernel" where
  "critical lk s = rel lk (acq lk s)"

lemma rq_frame_rel: "rq_frame s t \<Longrightarrow> rq_frame (rel lk s) (rel lk t)"
  by (cases s; cases t; simp add: rq_frame_def rel_def)

lemma locked_region:
  assumes cpu: "cpu_wf s" and free: "lock_free lk s"
    and body: "wp (body (acq lk s)) (\<lambda>t. rq_frame (acq lk s) t \<and> R t)"
  shows "wp (bindr (acquire lk s) (\<lambda>s. bindr (body s) (release lk)))
    (\<lambda>u. \<exists>t. u = rel lk t \<and> rq_frame (critical lk s) u \<and> R t)"
proof -
  have "0 \<le> c_ncli (cpus s (this_cpu s))" using cpu by (simp add: cpu_view_def)
  have rel: "release lk t = Inr (rel lk t)" if "rq_frame (acq lk s) t" for t
    using cpu \<open>0 \<le> _\<close> by (intro release_held) (simp_all add: rq_frame_fields [OF that])
  show ?thesis
    unfolding acquire_free [OF cpu free] bindr_simps
  proof (rule wp_seq [OF body], elim conjE)
    fix t
    assume t: "rq_frame (acq lk s) t" "R t"
    then show "wp (release lk t) (\<lambda>u. \<exists>t. u = rel lk t \<and> rq_frame (critical lk s) u \<and> R t)"
      using rq_frame_rel [OF t(1)] by (auto simp: rel critical_def)
  qed
qed

lemma aging_inv:
  assumes "cpu_wf s" and "lock_free Ptable_lock s" and "sched_inv s"
  shows "wp (aging s) (aged_upto 3 (critical Ptable_lock s))"
proof -
  let ?s = "acq Ptable_lock s"
  have "wp (iter aging_level [1..PLEVELS - 1] ?s) (\<lambda>t. rq_frame ?s t \<and> aged_upto 3 ?s t)"
    by (rule wp_mono [OF aging_levels]) (use assms(3) in \<open>auto simp: aged_upto_def\<close>)
  from locked_region [where body = "iter aging_level [1..PLEVELS - 1]" and R = "aged_upto 3 ?s",
    OF assms(1,2) this] show ?thesis
    unfolding aging_def
    by (rule wp_mono)
      (auto simp: aged_upto_def critical_def aged_queue_def aged_table_def aged_def [abs_def])
qed

lemma wakeup_inv:
  assumes "cpu_wf s" and "lock_free Ptable_lock s" and "sched_inv s"
  shows "wp (wakeup chan s) (woken_upto chan (critical Ptable_lock s) [0..<NPROC])"
proof -
  let ?s = "acq Ptable_lock s"
  have "wp (wakeup1 chan ?s) (\<lambda>t. rq_frame ?s t \<and> woken_upto chan ?s [0..<NPROC] t)"
    by (rule wp_mono [OF wakeup1_inv]) (use assms(3) in \<open>auto simp: woken_upto_def\<close>)
  from locked_region [where body = "wakeup1 chan" and R = "woken_upto chan ?s [0..<NPROC]", OF assms(1,2) this]
  show ?thesis
    unfolding wakeup_def by (rule wp_mono) (auto simp only: woken_upto_def critical_def rel_fields acq_fields sched_view_simps)
qed

text \<open>Two process tables that agree but for the links of the run queues.\<close>

definition same_table :: "(nat \<Rightarrow> proc) \<Rightarrow> (nat \<Rightarrow> proc) \<Rightarrow> bool" where
  "same_table h h' \<longleftrightarrow> (\<forall>q. same_but_links (h q) (h' q))"

lemma same_table_refl [simp]: "same_table h h"
  by (simp add: same_table_def)

lemma same_table_trans: "same_table h h' \<Longrightarrow> same_table h' h'' \<Longrightarrow> same_table h h''"
  unfolding same_table_def using same_but_links_trans by blast

lemma same_tableD: "same_table h h' \<Longrightarrow> same_but_links (h q) (h' q)"
  by (simp add: same_table_def)

lemma enqueue_table:
  assumes "sched_inv s" and "p < 64" and "p_state (procs s p) \<noteq> RUNNABLE"
  shows "wp (enqueue (Some p) s) (\<lambda>t. sched_inv t \<and> rq_frame s t \<and>
     same_table (procs t) ((procs s)(p := (procs s p)\<lparr>p_state := RUNNABLE\<rparr>)) \<and>
     (\<forall>i < 4. queue_of t i = (if int i = p_nice (procs s p) then p # queue_of s i else queue_of s i)))"
  by (rule wp_mono [OF enqueue_inv [OF assms]]) (simp add: same_table_def)

text \<open>\<^verbatim>\<open>kill\<close>: the process is marked, and a sleeping one becomes runnable at its own priority.\<close>

definition killed_proc :: "proc \<Rightarrow> proc" where
  "killed_proc q = (if p_state q = SLEEPING then q\<lparr>p_killed := True, p_state := RUNNABLE\<rparr> else q\<lparr>p_killed := True\<rparr>)"

lemma kill_body:
  assumes inv: "sched_inv s" and p: "p < 64"
  shows "wp (let s = upd_proc p (\<lambda>q. q\<lparr>p_killed := True\<rparr>) s in
             if p_state (procs s p) = SLEEPING then enqueue (Some p) s else Inr s)
    (\<lambda>t. rq_frame s t \<and> sched_inv t \<and> same_table (procs t) ((procs s)(p := killed_proc (procs s p))) \<and>
      (\<forall>i < 4. queue_of t i = (if p_state (procs s p) = SLEEPING \<and> p_nice (procs s p) = int i
          then p # queue_of s i else queue_of s i)))"
proof -
  define s1 where "s1 = upd_proc p (\<lambda>q. q\<lparr>p_killed := True\<rparr>) s"
  have inv1: "sched_inv s1" and Q1: "\<And>i. i < 4 \<Longrightarrow> queue_of s1 i = queue_of s i"
    using sched_inv_cong [OF inv, of s1] by (auto simp: s1_def)
  show ?thesis
  proof (cases "p_state (procs s p) = SLEEPING")
    case True
    then have st: "p_state (procs s1 p) = SLEEPING" by (simp add: s1_def)
    then have nr: "p_state (procs s1 p) \<noteq> RUNNABLE" by simp
    have fr: "rq_frame s s1" "p_nice (procs s1 p) = p_nice (procs s p)"
      "(procs s1)(p := (procs s1 p)\<lparr>p_state := RUNNABLE\<rparr>) = (procs s)(p := killed_proc (procs s p))"
      using True by (simp_all add: s1_def killed_proc_def)
    show ?thesis
      unfolding s1_def [symmetric] Let_def if_P [OF st]
      by (rule wp_mono [OF enqueue_table [OF inv1 p nr, unfolded fr]])
        (use True Q1 rq_frame_trans [OF fr(1)] in auto)
  next
    case False
    then show ?thesis using inv1 Q1 by (auto simp: s1_def killed_proc_def)
  qed
qed

lemma kill_none:
  assumes "cpu_wf s" and "lock_free Ptable_lock s" and "\<forall>p < NPROC. p_pid (procs s p) \<noteq> pid"
  shows "kill pid s = Inr (-1, critical Ptable_lock s)"
proof -
  have "0 \<le> c_ncli (cpus s (this_cpu s))" using assms(1) by (simp add: cpu_view_def)
  then have "release Ptable_lock (acq Ptable_lock s) = Inr (critical Ptable_lock s)"
    using assms(1) unfolding critical_def by (intro release_held) simp_all
  moreover have "find (\<lambda>p. p_pid (procs s p) = pid) [0..<NPROC] = None"
    using assms(3) by (simp add: find_None_iff)
  ultimately show ?thesis using assms(1,2) by (simp add: kill_def)
qed

lemma kill_some:
  assumes cpu: "cpu_wf s" and free: "lock_free Ptable_lock s" and inv: "sched_inv s"
    and p: "p < NPROC" "p_pid (procs s p) = pid" "\<forall>q < p. p_pid (procs s q) \<noteq> pid"
  shows "wp (kill pid s) (\<lambda>(r, t). r = 0 \<and> rq_frame (critical Ptable_lock s) t \<and> sched_inv t \<and>
        same_table (procs t) ((procs s)(p := killed_proc (procs s p))) \<and>
        (\<forall>i < 4. queue_of t i = (if p_state (procs s p) = SLEEPING \<and> p_nice (procs s p) = int i
          then p # queue_of s i else queue_of s i)))"
proof -
  have fnd: "find (\<lambda>p. p_pid (procs s p) = pid) [0..<NPROC] = Some p"
    using p by (auto simp: find_Some_iff intro!: exI [of _ p])
  have p64: "p < 64" using p(1) by simp
  define body where "body s = (let s = upd_proc p (\<lambda>q. q\<lparr>p_killed := True\<rparr>) s in
             if p_state (procs s p) = SLEEPING then enqueue (Some p) s else Inr s)" for s
  let ?s = "acq Ptable_lock s"
  define R where "R t \<longleftrightarrow> sched_inv t \<and> same_table (procs t) ((procs s)(p := killed_proc (procs s p))) \<and>
      (\<forall>i < 4. queue_of t i = (if p_state (procs s p) = SLEEPING \<and> p_nice (procs s p) = int i
          then p # queue_of s i else queue_of s i))" for t
  have "wp (body ?s) (\<lambda>t. rq_frame ?s t \<and> R t)"
    unfolding body_def R_def using kill_body [of ?s p] inv p64 by (simp only: acq_fields sched_view_simps)
  note reg = locked_region [where body = body and R = R, OF cpu free this]
  have eq: "kill pid s = bindr (bindr (acquire Ptable_lock s) (\<lambda>s. bindr (body s) (release Ptable_lock))) (\<lambda>s. Inr (0, s))"
    using cpu free fnd by (simp add: kill_def body_def Let_def bindr_assoc)
  show ?thesis
    unfolding eq by (rule wp_seq [OF reg]) (elim exE conjE, simp add: R_def)
qed

section \<open>The scheduler\<close>

lemma first_level_runq:
  assumes rq: "runq s Q"
  shows "first_level 4 0 s = Inr (case find (\<lambda>i. Q i \<noteq> []) [0..<4] of Some i \<Rightarrow> int i | None \<Rightarrow> 4)"
proof -
  have e: "isempty 0 s = Inr (Q 0 = [])" "isempty 1 s = Inr (Q 1 = [])"
    "isempty 2 s = Inr (Q 2 = [])" "isempty 3 s = Inr (Q 3 = [])"
    using isempty_runq [OF rq, of 0] isempty_runq [OF rq, of 1] isempty_runq [OF rq, of 2]
      isempty_runq [OF rq, of 3] by simp_all
  have "[0..<4] = [0, 1, 2, 3::nat]" by (simp add: upt_rec)
  then show ?thesis by (simp add: e numeral_eq_Suc del: One_nat_def) (simp add: eval_nat_numeral e)
qed

lemma switchuvm_eq:
  assumes cpu: "cpu_wf s" and ncli: "0 < c_ncli (cpus s (this_cpu s))"
    and p: "p_kstack (procs s p) \<noteq> 0" "p_pgdir (procs s p) \<noteq> 0"
  shows "switchuvm (Some p) s = Inr (upd_cpu (\<lambda>c. c\<lparr>c_ss0 := push_bit 3 SEG_KDATA,
     c_esp0 := p_kstack (procs s p) + KSTACKSIZE, c_iomb := 0xFFFF, c_cr3 := V2P (p_pgdir (procs s p))\<rparr>) s)"
proof -
  have "\<not> c_if (cpus s (this_cpu s))" using cpu ncli by (simp add: cpu_view_def)
  with assms show ?thesis
    by (cases "cpus s (this_cpu s)")
      (simp add: switchuvm_def pushcli_eq mycpu_this popcli_eq Let_def lcr3_def push1_def pop1_def cpu_view_def)
qed

definition dispatched :: "kernel \<Rightarrow> nat \<Rightarrow> nat \<Rightarrow> kernel \<Rightarrow> bool" where
  "dispatched s l p t \<longleftrightarrow> sched_inv t \<and>
     same_table (procs t) ((procs s)(p := (procs s p)\<lparr>p_state := RUNNING\<rparr>)) \<and>
     (\<forall>i < 4. queue_of t i = (if i = l then butlast (queue_of s l) else queue_of s i)) \<and>
     lock_held Ptable_lock t \<and> this_cpu t = this_cpu s \<and> ncpu t = ncpu s \<and>
     (\<forall>lk. lk \<noteq> Ptable_lock \<longrightarrow> locks t lk = locks s lk) \<and>
     (\<forall>j. j \<noteq> this_cpu s \<longrightarrow> cpus t j = cpus s j) \<and> cpu_wf t \<and>
     c_ncli (cpus t (this_cpu s)) = 1 \<and> c_proc (cpus t (this_cpu s)) = Some p \<and>
     c_cr3 (cpus t (this_cpu s)) = V2P (p_pgdir (procs s p))"

lemma dequeue_inv:
  assumes inv: "sched_inv s" and l: "l < 4" and ne: "queue_of s l \<noteq> []"
  shows "wp (dequeue (int l) s) (\<lambda>(p, t). p = last (queue_of s l) \<and> rq_frame s t \<and>
    same_table (procs t) (procs s) \<and> runq t ((queue_of s)(l := butlast (queue_of s l))))"
  by (rule wp_mono [OF dequeue_runq [OF sched_inv_runq [OF inv] l ne]]) (auto simp: same_table_def)

lemma running_inv:
  assumes inv: "sched_inv s" and l: "l < 4" and ne: "queue_of s l \<noteq> []"
    and rq: "runq t ((queue_of s)(l := butlast (queue_of s l)))" and tab: "same_table (procs t) (procs s)"
  defines "p \<equiv> last (queue_of s l)"
  shows "sched_inv (set_state RUNNING p t) \<and>
    (\<forall>i < 4. queue_of (set_state RUNNING p t) i = (if i = l then butlast (queue_of s l) else queue_of s i))"
proof -
  let ?t = "set_state RUNNING p t" and ?Q = "(queue_of s)(l := butlast (queue_of s l))"
  have mem: "p \<in> set (queue_of s l)" using ne by (simp add: p_def)
  have run: "p < 64" "p_state (procs s p) = RUNNABLE" "p_nice (procs s p) = int l"
    using sched_inv_queued [OF inv l, of p] mem by auto
  have nice': "p_nice (procs ?t q) = p_nice (procs s q)" and
    state': "p_state (procs ?t q) = (if q = p then RUNNING else p_state (procs s q))" for q
    using same_but_links_fields(1,2) [OF same_tableD [OF tab, of q]] by auto
  have rq': "runq ?t ?Q" using rq by (simp add: runq_def level_rep_def)
  have "distinct (queue_of s l)"
    using runq_level [OF sched_inv_runq [OF inv] l] by (simp add: level_rep_def)
  then have bl: "x \<in> set (butlast (queue_of s l)) \<longleftrightarrow> x \<in> set (queue_of s l) \<and> x \<noteq> p" for x
    using ne unfolding p_def by (cases "queue_of s l" rule: rev_cases) auto
  have set': "set (?Q i) = runnable_at (procs ?t) i" if "i < 4" for i
  proof -
    have iff: "x \<in> set (?Q i) \<longleftrightarrow> x \<in> set (queue_of s i) \<and> x \<noteq> p" for x
      using bl run sched_inv_queued [OF inv that, of p] by auto
    show ?thesis
      unfolding set_eq_iff iff runnable_at_def mem_Collect_eq nice' state' sched_inv_queued [OF inv that] by simp
  qed
  have nr: "0 \<le> p_nice (procs ?t q) \<and> p_nice (procs ?t q) < PLEVELS" if "q < NPROC" for q
    using inv that by (simp only: nice' sched_inv_def)
  show ?thesis using sched_invI [OF rq' nr set'] by auto
qed

lemma scheduler_pick_some:
  assumes cpu: "cpu_wf s" and idle: "c_ncli (cpus s (this_cpu s)) = 0" and free: "lock_free Ptable_lock s"
    and inv: "sched_inv s" and l: "l < 4" "queue_of s l \<noteq> []" "\<forall>i < l. queue_of s i = []"
    and space: "p_kstack (procs s (last (queue_of s l))) \<noteq> 0" "p_pgdir (procs s (last (queue_of s l))) \<noteq> 0"
  shows "wp (scheduler_pick s) (\<lambda>(r, t). r = Some (last (queue_of s l)) \<and> dispatched s l (last (queue_of s l)) t)"
proof -
  define s1 where "s1 = acq Ptable_lock (sti s)"
  have cpu1: "cpu_wf (sti s)" using cpu idle by (simp add: sti_def cpu_view_def)
  have acq: "acquire Ptable_lock (sti s) = Inr s1"
    using cpu1 free unfolding s1_def by (intro acquire_free) (simp_all add: sti_def)
  have s1: "procs s1 = procs s" "levels s1 = levels s" "this_cpu s1 = this_cpu s" "ncpu s1 = ncpu s"
    "lock_held Ptable_lock s1" "\<And>lk. lk \<noteq> Ptable_lock \<Longrightarrow> locks s1 lk = locks s lk"
    "\<And>j. j \<noteq> this_cpu s \<Longrightarrow> cpus s1 j = cpus s j" "c_ncli (cpus s1 (this_cpu s)) = 1"
    using idle by (auto simp: s1_def sti_def)
  have cpuw1: "cpu_wf s1" using cpu1 by (simp add: s1_def)
  have v: "sched_inv s1" "queue_of s1 = queue_of s" using sched_view [of s1 s] s1(1,2) inv by auto
  have fl: "first_level 4 0 s1 = Inr (int l)"
  proof -
    have "find (\<lambda>i. queue_of s i \<noteq> []) [0..<4] = Some l"
      using l by (auto simp: find_Some_iff intro!: exI [of _ l])
    then show ?thesis using first_level_runq [OF sched_inv_runq [OF v(1)]] v(2) by simp
  qed
  let ?p = "last (queue_of s l)"
  let ?k = "\<lambda>(p, s). bindr (switchuvm (Some p) (upd_cpu (\<lambda>c. c\<lparr>c_proc := Some p\<rparr>) s)) (\<lambda>s.
        Inr (Some p, set_state RUNNING p s))"
  have eq: "scheduler_pick s = bindr (dequeue (int l) s1) ?k"
    using l(1) by (simp add: scheduler_pick_def acq fl Let_def)
  have cont: "wp (?k (?p, t)) (\<lambda>(r, u). r = Some ?p \<and> dispatched s l ?p u)"
    if t: "rq_frame s1 t" "same_table (procs t) (procs s)"
      "runq t ((queue_of s)(l := butlast (queue_of s l)))" for t
  proof -
    define t1 where "t1 = upd_cpu (\<lambda>c. c\<lparr>c_proc := Some ?p\<rparr>) t"
    note fr = rq_frame_fields [OF t(1)]
    note same = same_but_links_fields(11,12) [OF same_tableD [OF t(2), of ?p]]
    have ncli: "c_ncli (cpus t1 (this_cpu t1)) = 1" and cw: "cpu_wf t1"
      using s1(3,8) cpuw1 by (simp_all add: t1_def fr cpu_view_def)
    have "p_kstack (procs t1 ?p) \<noteq> 0" "p_pgdir (procs t1 ?p) \<noteq> 0" using space same by (simp_all add: t1_def)
    note sw = switchuvm_eq [OF cw _ this]
    note ri = running_inv [OF inv l(1,2) t(3,2)]
    have ri': "sched_inv u" "\<And>i. i < 4 \<Longrightarrow> queue_of u i = (if i = l then butlast (queue_of s l) else queue_of s i)"
      if "procs u = procs (set_state RUNNING ?p t)" "levels u = levels t" for u
      using ri sched_view [of u "set_state RUNNING ?p t"] that by auto
    have tab: "same_table ((procs t)(?p := (procs t ?p)\<lparr>p_state := RUNNING\<rparr>)) ((procs s)(?p := (procs s ?p)\<lparr>p_state := RUNNING\<rparr>))"
      using t(2) by (simp add: same_table_def same_but_links_nice)
    define u where "u = set_state RUNNING ?p (upd_cpu (\<lambda>c. c\<lparr>c_ss0 := push_bit 3 SEG_KDATA,
       c_esp0 := p_kstack (procs t1 ?p) + KSTACKSIZE, c_iomb := 0xFFFF, c_cr3 := V2P (p_pgdir (procs t1 ?p))\<rparr>) t1)"
    have k: "?k (?p, t) = Inr (Some ?p, u)"
      unfolding case_prod_conv t1_def [symmetric] u_def using sw ncli by simp
    have u: "procs u = procs (set_state RUNNING ?p t)" "levels u = levels t" "locks u = locks t"
      "this_cpu u = this_cpu t" "ncpu u = ncpu t" by (simp_all add: u_def t1_def)
    have uc: "c_proc (cpus u (this_cpu t)) = Some ?p" "c_ncli (cpus u (this_cpu t)) = 1"
      "c_cr3 (cpus u (this_cpu t)) = V2P (p_pgdir (procs t ?p))" "\<And>j. j \<noteq> this_cpu t \<Longrightarrow> cpus u j = cpus t j"
      "cpu_wf u"
      using ncli cw by (simp_all add: u_def t1_def cpu_view_def)
    have tab': "same_table (procs u) ((procs s)(?p := (procs s ?p)\<lparr>p_state := RUNNING\<rparr>))"
      using tab by (simp add: u(1))
    have "dispatched s l ?p u"
      unfolding dispatched_def
      using ri'(1) [OF u(1,2)] ri'(2) [OF u(1,2)] tab' uc s1(3-7) by (simp add: u fr same)
    then show ?thesis unfolding k by simp
  qed
  show ?thesis
    unfolding eq by (rule wp_seq [OF dequeue_inv [OF v(1) l(1)]]) (use l(2) v(2) s1(1) cont in auto)
qed

section \<open>Properties\<close>

text \<open>A small state for the examples: one CPU, process 7 alone, in the state \<open>q\<close>.\<close>

definition lone :: "proc \<Rightarrow> kernel" where
  "lone q = (booted 1)\<lparr>procs := (\<lambda>_. zero_proc)(7 := q),
     levels := (\<lambda>i. if p_state q = RUNNABLE \<and> int i = p_nice q then \<lparr>lv_head = Some 7, lv_last = Some 7\<rparr>
                    else \<lparr>lv_head = None, lv_last = None\<rparr>)\<rparr>"

lemma lone_simps [simp]:
  "procs (lone q) = (\<lambda>_. zero_proc)(7 := q)" "cpus (lone q) = (\<lambda>i. zero_cpu\<lparr>c_apicid := of_nat i\<rparr>)"
  "this_cpu (lone q) = 0" "ncpu (lone q) = 1" "locks (lone q) = (\<lambda>_. \<lparr>lk_locked = False, lk_cpu = None\<rparr>)"
  by (simp_all add: lone_def)

lemma lone_inv:
  assumes "0 \<le> p_nice q" "p_nice q < 4" "p_next q = None" "p_back q = None"
  shows "sched_inv (lone q)"
    and "i < 4 \<Longrightarrow> queue_of (lone q) i = (if p_state q = RUNNABLE \<and> int i = p_nice q then [7] else [])"
proof -
  let ?Q = "\<lambda>i. if p_state q = RUNNABLE \<and> int i = p_nice q then [7] else []"
  have rq: "runq (lone q) ?Q"
    using assms by (auto simp: lone_def runq_def level_rep_def)
  have "set (?Q i) = runnable_at (procs (lone q)) i" for i
    by (auto simp: runnable_at_def zero_proc_def)
  moreover have "0 \<le> p_nice (procs (lone q) p) \<and> p_nice (procs (lone q) p) < PLEVELS" for p
    using assms by (simp add: zero_proc_def)
  ultimately show "sched_inv (lone q)"
    and "i < 4 \<Longrightarrow> queue_of (lone q) i = (if p_state q = RUNNABLE \<and> int i = p_nice q then [7] else [])"
    using sched_invI [OF rq] by auto
qed





text \<open>
  C17. A wakeup wakes every sleeper on the channel and nobody else. wakeup(chan) never
  panics; each process asleep on chan becomes RUNNABLE one level better (or stays at the
  best) and enters that level, later table slots after earlier ones; no other process
  changes and no process leaves a level.
\<close>

theorem wakeup_wakes_exactly_the_sleepers:
  assumes "cpu_wf s" and "lock_free Ptable_lock s" and "sched_inv s"
  shows "\<exists>t. wakeup chan s = Inr t \<and> sched_inv t \<and>
     same_table (procs t) (\<lambda>q. if q < NPROC \<and> sleeps_on chan (procs s q) then woken (procs s q) else procs s q) \<and>
     (\<forall>i < 4. queue_of t i =
        rev (filter (\<lambda>p. sleeps_on chan (procs s p) \<and> p_nice (woken (procs s p)) = int i) [0..<NPROC]) @ queue_of s i)"
proof -
  obtain t where t: "wakeup chan s = Inr t" and u: "woken_upto chan (critical Ptable_lock s) [0..<NPROC] t"
    using wakeup_inv [OF assms] by (auto simp: wp_def)
  have f: "procs (critical Ptable_lock s) = procs s" "queue_of (critical Ptable_lock s) = queue_of s"
    by (simp_all add: critical_def)
  from u t show ?thesis
    unfolding woken_upto_def f same_table_def by (simp only: set_upt atLeastLessThan_iff) simp
qed

theorem wakeup_wakes_exactly_the_sleepers_witness:
  "\<exists>t. wakeup (Some Chan_ticks) (lone (zero_proc\<lparr>p_state := SLEEPING, p_chan := Some Chan_ticks, p_nice := 3\<rparr>)) = Inr t \<and>
     p_state (procs t 7) = RUNNABLE \<and> p_nice (procs t 7) = 2"
proof -
  let ?q = "zero_proc\<lparr>p_state := SLEEPING, p_chan := Some Chan_ticks, p_nice := 3\<rparr>"
  have i: "sched_inv (lone ?q)" by (rule lone_inv) (simp_all add: zero_proc_def)
  obtain t where t: "wakeup (Some Chan_ticks) (lone ?q) = Inr t" and
    s: "same_table (procs t) (\<lambda>q. if q < NPROC \<and> sleeps_on (Some Chan_ticks) (procs (lone ?q) q)
          then woken (procs (lone ?q) q) else procs (lone ?q) q)"
    using wakeup_wakes_exactly_the_sleepers [of "lone ?q" "Some Chan_ticks"] i by auto
  from same_but_links_fields(1,2) [OF same_tableD [OF s, of 7]]
  have "p_state (procs t 7) = RUNNABLE" "p_nice (procs t 7) = 2" by (simp_all add: sleeps_on_def woken_def)
  with t show ?thesis by blast
qed

section \<open>Going to sleep\<close>

text \<open>Under one held lock: the lock is traded for \<^verbatim>\<open>ptable.lock\<close> and the process is marked.\<close>

lemma sleep_enter_eq:
  assumes cpu: "cpu_wf s" and p: "c_proc (cpus s (this_cpu s)) = Some p" and lk: "lk \<noteq> Ptable_lock" "lock_held lk s"
    and one: "c_ncli (cpus s (this_cpu s)) = 1" and free: "lock_free Ptable_lock s"
  shows "sleep_enter chan (Some lk) s = Inr (c_intena (cpus s (this_cpu s)),
    s\<lparr>procs := (procs s)(p := (procs s p)\<lparr>p_chan := chan, p_state := SLEEPING\<rparr>),
      locks := (locks s)(Ptable_lock := \<lparr>lk_locked = True, lk_cpu = Some (this_cpu s)\<rparr>,
                         lk := \<lparr>lk_locked = False, lk_cpu = None\<rparr>)\<rparr>)"
proof -
  let ?c = "cpus s (this_cpu s)"
  have pp: "pop1 (push1 ?c) = ?c"
    using cpu one by (intro pop1_push1) (auto simp: cpu_view_def)
  have off: "\<not> c_if ?c" using cpu one by (simp add: cpu_view_def)
  have my: "myproc s = Inr (Some p, s)" using myproc_eq [OF cpu] p pp by simp
  define t where "t = s\<lparr>locks := (locks s)(Ptable_lock := \<lparr>lk_locked = True, lk_cpu = Some (this_cpu s)\<rparr>,
                         lk := \<lparr>lk_locked = False, lk_cpu = None\<rparr>)\<rparr>"
  have "rel lk (acq Ptable_lock s) = t"
    using pp by (simp add: rel_def acq_def t_def)
  moreover have "release lk (acq Ptable_lock s) = Inr (rel lk (acq Ptable_lock s))"
    using cpu lk one by (intro release_held) simp_all
  ultimately have swap: "bindr (acquire Ptable_lock s) (release lk) = Inr t"
    using cpu free by simp
  let ?u = "t\<lparr>procs := (procs s)(p := (procs s p)\<lparr>p_chan := chan, p_state := SLEEPING\<rparr>)\<rparr>"
  have u: "cpu_wf ?u" "c_proc (cpus ?u (this_cpu ?u)) = Some p" "cpus ?u (this_cpu ?u) = ?c" "this_cpu ?u = this_cpu s"
    "lock_held Ptable_lock ?u" "procs ?u p = (procs s p)\<lparr>p_chan := chan, p_state := SLEEPING\<rparr>" "cpus ?u = cpus s"
    using cpu p lk(1) by (simp_all add: t_def)
  have "my ?u = Inr (p, ?u)"
    using myproc_eq [OF u(1)] u(2,3,4,7) pp by (simp add: my_def)
  moreover have "holding Ptable_lock ?u = Inr (True, ?u)"
    using holding_eq [OF u(1)] u(3,5) one by simp
  moreover have "mycpu ?u = Inr (this_cpu s)"
    using mycpu_this [OF u(1)] off u(3,4) by simp
  ultimately have "sched_enter ?u = Inr (c_intena ?c, ?u)"
    using u off one by (simp add: sched_enter_def readeflags_if_def)
  moreover have "set_state SLEEPING p (upd_proc p (\<lambda>q. q\<lparr>p_chan := chan\<rparr>) t) = ?u"
    by (cases s) (simp add: t_def)
  moreover have "?u = s\<lparr>procs := (procs s)(p := (procs s p)\<lparr>p_chan := chan, p_state := SLEEPING\<rparr>),
      locks := (locks s)(Ptable_lock := \<lparr>lk_locked = True, lk_cpu = Some (this_cpu s)\<rparr>,
                         lk := \<lparr>lk_locked = False, lk_cpu = None\<rparr>)\<rparr>"
    by (simp add: t_def)
  ultimately show ?thesis
    using lk(1) by (simp add: sleep_enter_def my swap del: upd_defs)
qed

text \<open>What a \<^verbatim>\<open>wakeup\<close> leaves alone when the caller holds a lock.\<close>

definition woke :: "kernel \<Rightarrow> kernel \<Rightarrow> bool" where
  "woke s t \<longleftrightarrow> sched_inv t \<and> t = s\<lparr>procs := procs t, levels := levels t, locks := locks t\<rparr> \<and>
     locks t = (locks s)(Ptable_lock := \<lparr>lk_locked = False, lk_cpu = None\<rparr>)"

lemma woke_fields:
  assumes "woke s t"
  shows "cpus t = cpus s" "this_cpu t = this_cpu s" "ncpu t = ncpu s" "mem t = mem s" "pipes t = pipes s"
    "sems_list t = sems_list s" "sems_used t = sems_used s" "input t = input s" "log_st t = log_st s"
    "icache t = icache s" "bcache t = bcache s" "ticks t = ticks s" "disk t = disk s" "sb t = sb s"
    "sched_inv t" "locks t = (locks s)(Ptable_lock := \<lparr>lk_locked = False, lk_cpu = None\<rparr>)"
  using assms by (cases s; cases t; simp add: woke_def)+

lemma wakeup_woke:
  assumes "cpu_wf s" and "0 < c_ncli (cpus s (this_cpu s))" and "lock_free Ptable_lock s" and "sched_inv s"
  shows "wp (wakeup chan s) (\<lambda>t. woke s t \<and> (\<forall>q. same_but_links (procs t q)
    (if q < 64 \<and> sleeps_on chan (procs s q) then woken (procs s q) else procs s q)))"
proof (rule wp_mono [OF wakeup_inv [OF assms(1,3,4)]])
  fix t
  assume t: "woken_upto chan (critical Ptable_lock s) [0..<NPROC] t"
  have "pop1 (push1 (cpus s (this_cpu s))) = cpus s (this_cpu s)"
    using assms(1,2) by (intro pop1_push1) (auto simp: cpu_view_def)
  then have c: "critical Ptable_lock s = s\<lparr>locks := (locks s)(Ptable_lock := \<lparr>lk_locked = False, lk_cpu = None\<rparr>)\<rparr>"
    by (simp add: critical_def rel_def acq_def)
  have "sched_inv t" "rq_frame (critical Ptable_lock s) t" using t by (simp_all add: woken_upto_def)
  then have "woke s t" unfolding c by (cases s; cases t; simp add: woke_def rq_frame_def)
  moreover have "\<forall>q. same_but_links (procs t q)
      (if q \<in> set [0..<NPROC] \<and> sleeps_on chan (procs (critical Ptable_lock s) q)
       then woken (procs (critical Ptable_lock s) q) else procs (critical Ptable_lock s) q)"
    using t unfolding woken_upto_def by blast
  moreover have "procs (critical Ptable_lock s) = procs s" by (simp add: c)
  ultimately show "woke s t \<and> (\<forall>q. same_but_links (procs t q)
    (if q < 64 \<and> sleeps_on chan (procs s q) then woken (procs s q) else procs s q))"
    by (simp only: set_upt atLeastLessThan_iff NPROC_def) simp
qed

lemma my_eq:
  assumes "cpu_wf s" and "c_proc (cpus s (this_cpu s)) = Some p"
  shows "my s = Inr (p, upd_cpu (pop1 \<circ> push1) s)"
  using myproc_eq [OF assms(1)] assms(2) by (simp add: my_def)

lemma cpu_wf_critical: "cpu_wf s \<Longrightarrow> cpu_wf (critical lk s)"
  by (simp add: critical_def cpu_view_pp)

end
