(* ===== verification/Sleeplock.thy ===== *)
theory Sleeplock
  imports Sched
begin

text \<open>
  Sleep locks (\<^verbatim>\<open>sleeplock.c\<close>). They live in inodes and in disk buffers; each has an inner
  spin lock and its own address as sleep channel.
\<close>

section \<open>Operations\<close>

datatype sleepid = Inode_sl nat | Buf_sl nat

primrec sl_lk :: "sleepid \<Rightarrow> lockid" where
  "sl_lk (Inode_sl i) = Inode_lk i"
| "sl_lk (Buf_sl b) = Buf_lk b"

primrec sl_chan :: "sleepid \<Rightarrow> chan" where
  "sl_chan (Inode_sl i) = Chan_inode_lock i"
| "sl_chan (Buf_sl b) = Chan_buf_lock b"

primrec sl_get :: "sleepid \<Rightarrow> kernel \<Rightarrow> sleeplock" where
  "sl_get (Inode_sl i) s = ip_lock (icache s i)"
| "sl_get (Buf_sl b) s = b_lock (bcache s b)"

primrec sl_set :: "sleepid \<Rightarrow> sleeplock \<Rightarrow> kernel \<Rightarrow> kernel" where
  "sl_set (Inode_sl i) l s = upd_inode i (\<lambda>ip. ip\<lparr>ip_lock := l\<rparr>) s"
| "sl_set (Buf_sl b) l s = upd_buf b (\<lambda>bf. bf\<lparr>b_lock := l\<rparr>) s"

definition initsleeplock :: "sleepid \<Rightarrow> kernel \<Rightarrow> kernel" where
  "initsleeplock lk s = sl_set lk \<lparr>sl_locked = False, sl_pid = 0\<rparr> (initlock (sl_lk lk) s)"

text \<open>The loop of \<^verbatim>\<open>acquiresleep\<close> with the inner lock held, up to its return or \<^verbatim>\<open>sleep\<close>.\<close>

definition acquiresleep_pass :: "sleepid \<Rightarrow> kernel \<Rightarrow> (wait \<times> kernel) result" where
  "acquiresleep_pass lk s =
     (if sl_locked (sl_get lk s)
      then bindr (sleep_enter (Some (sl_chan lk)) (Some (sl_lk lk)) s) (\<lambda>(b, s). Inr (Sleeps b, s))
      else
        let s = sl_set lk ((sl_get lk s)\<lparr>sl_locked := True\<rparr>) s in
        bindr (my s) (\<lambda>(p, s).
        let s = sl_set lk ((sl_get lk s)\<lparr>sl_pid := p_pid (procs s p)\<rparr>) s in
        bindr (release (sl_lk lk) s) (\<lambda>s. Inr (Returns 0, s))))"

definition acquiresleep_enter :: "sleepid \<Rightarrow> kernel \<Rightarrow> (wait \<times> kernel) result" where
  "acquiresleep_enter lk s = bindr (acquire (sl_lk lk) s) (acquiresleep_pass lk)"

definition acquiresleep_again :: "sleepid \<Rightarrow> nat \<Rightarrow> bool \<Rightarrow> kernel \<Rightarrow> (wait \<times> kernel) result" where
  "acquiresleep_again lk p intena s = bindr (sleep_exit p (sl_lk lk) intena s) (acquiresleep_pass lk)"

definition acquiresleep :: "sleepid \<Rightarrow> kernel \<Rightarrow> kernel result" where
  "acquiresleep lk s = bindr (one_go (acquiresleep_enter lk s)) (\<lambda>(_, s). Inr s)"

definition releasesleep :: "sleepid \<Rightarrow> kernel \<Rightarrow> kernel result" where
  "releasesleep lk s =
     bindr (acquire (sl_lk lk) s) (\<lambda>s.
     let s = sl_set lk \<lparr>sl_locked = False, sl_pid = 0\<rparr> s in
     bindr (wakeup (Some (sl_chan lk)) s) (release (sl_lk lk)))"

definition holdingsleep :: "sleepid \<Rightarrow> kernel \<Rightarrow> (bool \<times> kernel) result" where
  "holdingsleep lk s =
     bindr (acquire (sl_lk lk) s) (\<lambda>s.
     bindr (if sl_locked (sl_get lk s)
            then bindr (my s) (\<lambda>(p, s). Inr (sl_pid (sl_get lk s) = p_pid (procs s p), s))
            else Inr (False, s)) (\<lambda>(r, s).
     bindr (release (sl_lk lk) s) (\<lambda>s.
     Inr (r, s))))"

section \<open>What the operations do\<close>

text \<open>
  \<open>idle p s\<close>: process \<open>p\<close> runs in the kernel with no spin lock held by anybody, and
  \<open>calm p s t\<close>: from \<open>s\<close> to \<open>t\<close> only interrupt flags, lock words and the scheduler's
  bookkeeping may have changed, and \<open>p\<close> runs on.
\<close>

definition idle :: "nat \<Rightarrow> kernel \<Rightarrow> bool" where
  "idle p s \<longleftrightarrow> cpu_wf s \<and> c_ncli (cpus s (this_cpu s)) = 0 \<and> c_proc (cpus s (this_cpu s)) = Some p \<and>
     p_state (procs s p) = RUNNING \<and> sched_inv s \<and> (\<forall>lk. lock_free lk s)"

definition calm :: "nat \<Rightarrow> kernel \<Rightarrow> kernel \<Rightarrow> bool" where
  "calm p s t \<longleftrightarrow> idle p t \<and> t = s\<lparr>cpus := cpus t, locks := locks t, procs := procs t, levels := levels t\<rparr> \<and>
     (\<forall>q. p_pid (procs t q) = p_pid (procs s q))"

lemma calm_refl: "idle p s \<Longrightarrow> calm p s s"
  by (simp add: calm_def)

lemma calm_trans: "calm p s t \<Longrightarrow> calm p t u \<Longrightarrow> calm p s u"
  by (cases s; cases t; cases u) (simp add: calm_def)

lemma calm_idle: "calm p s t \<Longrightarrow> idle p t"
  by (simp add: calm_def)

lemma calm_fields:
  assumes "calm p s t"
  shows "bcache t = bcache s" "icache t = icache s" "disk t = disk s" "disksize t = disksize s" "log_st t = log_st s"
    "sb t = sb s" "mem t = mem s" "ftable t = ftable s" "p_pid (procs t q) = p_pid (procs s q)"
  using assms by (cases s; cases t; simp add: calm_def)+

lemma idle_cong:
  assumes "cpus t = cpus s" "this_cpu t = this_cpu s" "ncpu t = ncpu s" "procs t = procs s" "levels t = levels s" "locks t = locks s"
  shows "idle p t = idle p s"
  using sched_view(1) [of t s] assms by (simp add: idle_def)

lemma idle_upd [simp]:
  "idle p (s\<lparr>bcache := c\<rparr>) = idle p s" "idle p (s\<lparr>icache := ic\<rparr>) = idle p s" "idle p (s\<lparr>disk := d\<rparr>) = idle p s"
  "idle p (s\<lparr>log_st := l\<rparr>) = idle p s" "idle p (sl_set lk v s) = idle p s"
  by (rule idle_cong; simp)+ (cases lk; rule idle_cong; simp)

text \<open>The record part of \<open>calm\<close>.\<close>

definition calm_frame :: "kernel \<Rightarrow> kernel \<Rightarrow> bool" where
  "calm_frame s t \<longleftrightarrow> t = s\<lparr>cpus := cpus t, locks := locks t, procs := procs t, levels := levels t\<rparr>"

lemma calm_iff: "calm p s t \<longleftrightarrow> idle p t \<and> calm_frame s t \<and> (\<forall>q. p_pid (procs t q) = p_pid (procs s q))"
  by (simp add: calm_def calm_frame_def)

lemma calm_bcache: "calm p s t \<Longrightarrow> calm p (s\<lparr>bcache := c\<rparr>) (t\<lparr>bcache := c\<rparr>)"
proof -
  have "calm_frame s t \<Longrightarrow> calm_frame (s\<lparr>bcache := c\<rparr>) (t\<lparr>bcache := c\<rparr>)" by (cases s; cases t) (simp add: calm_frame_def)
  then show "calm p s t \<Longrightarrow> calm p (s\<lparr>bcache := c\<rparr>) (t\<lparr>bcache := c\<rparr>)" by (simp add: calm_iff)
qed

lemma calm_icache: "calm p s t \<Longrightarrow> calm p (s\<lparr>icache := c\<rparr>) (t\<lparr>icache := c\<rparr>)"
proof -
  have "calm_frame s t \<Longrightarrow> calm_frame (s\<lparr>icache := c\<rparr>) (t\<lparr>icache := c\<rparr>)" by (cases s; cases t) (simp add: calm_frame_def)
  then show "calm p s t \<Longrightarrow> calm p (s\<lparr>icache := c\<rparr>) (t\<lparr>icache := c\<rparr>)" by (simp add: calm_iff)
qed

lemma calm_sl_set: "calm p s t \<Longrightarrow> calm p (sl_set lk v s) (sl_set lk v t)"
  by (cases lk) (simp_all add: calm_fields calm_bcache calm_icache)

text \<open>Entering and leaving a critical section.\<close>

lemma idle_acq:
  assumes "idle p s"
  shows "acquire lk s = Inr (acq lk s)" "cpu_wf (acq lk s)" "lock_held lk (acq lk s)" "c_ncli (cpus (acq lk s) (this_cpu (acq lk s))) = 1"
    "my (acq lk s) = Inr (p, acq lk s)"
proof -
  let ?u = "acq lk s"
  show a: "acquire lk s = Inr ?u" "cpu_wf ?u" "lock_held lk ?u" and n: "c_ncli (cpus ?u (this_cpu ?u)) = 1"
    using assms unfolding idle_def by simp_all
  have c: "c_proc (cpus ?u (this_cpu ?u)) = Some p" using assms unfolding idle_def by simp
  have "pop1 (push1 (cpus ?u (this_cpu ?u))) = cpus ?u (this_cpu ?u)"
    using a(2) n by (intro pop1_push1) (auto simp: cpu_view_def)
  then show "my ?u = Inr (p, ?u)" using myproc_eq [OF a(2)] c by (simp add: my_def)
qed

lemma calm_critical: "idle p s \<Longrightarrow> calm p s (critical lk s)"
proof -
  assume i: "idle p s"
  then have "idle p (critical lk s)"
    using cpu_wf_critical [of s lk] by (auto simp: idle_def critical_def)
  moreover have "calm_frame s (critical lk s)" by (simp add: calm_frame_def critical_def rel_def acq_def)
  ultimately show ?thesis by (simp add: calm_iff critical_def)
qed

lemma release_acq:
  assumes "idle p s"
  shows "release lk (acq lk s) = Inr (critical lk s)"
  using idle_acq [OF assms, of lk] by (simp add: critical_def)


lemma sl_get_set [simp]: "sl_get lk (sl_set lk v s) = v"
  by (cases lk) simp_all

lemma sl_set_set [simp]: "sl_set lk w (sl_set lk v s) = sl_set lk w s"
  by (cases lk) simp_all

lemma sl_get_acq [simp]: "sl_get lk (acq l s) = sl_get lk s"
  by (cases lk) simp_all

lemma sl_set_acq: "sl_set lk v (acq l s) = acq l (sl_set lk v s)"
  by (cases lk) (simp_all add: acq_def)

lemma procs_sl_set [simp]: "procs (sl_set lk v s) = procs s"
  by (cases lk) simp_all

text \<open>\<open>sl_mine lk p s\<close>: the lock is held, and by process \<open>p\<close>.\<close>

definition sl_mine :: "sleepid \<Rightarrow> nat \<Rightarrow> kernel \<Rightarrow> bool" where
  "sl_mine lk p s \<longleftrightarrow> sl_locked (sl_get lk s) \<and> sl_pid (sl_get lk s) = p_pid (procs s p)"

lemma holdingsleep_idle:
  assumes "idle p s"
  shows "holdingsleep lk s = Inr (sl_mine lk p s, critical (sl_lk lk) s)"
  using idle_acq [OF assms, of "sl_lk lk"] release_acq [OF assms, of "sl_lk lk"]
  by (simp add: holdingsleep_def sl_mine_def)

lemma acquiresleep_idle:
  assumes "idle p s" and "\<not> sl_locked (sl_get lk s)"
  shows "acquiresleep lk s = Inr (critical (sl_lk lk) (sl_set lk \<lparr>sl_locked = True, sl_pid = p_pid (procs s p)\<rparr> s))"
proof -
  let ?v = "\<lparr>sl_locked = True, sl_pid = p_pid (procs s p)\<rparr>"
  let ?w = "(sl_get lk s)\<lparr>sl_locked := True\<rparr>"
  have i: "idle p (sl_set lk ?w s)" "idle p (sl_set lk ?v s)" using assms(1) by simp_all
  show ?thesis
    using idle_acq(1) [OF assms(1), of "sl_lk lk"] idle_acq(5) [OF i(1), of "sl_lk lk"] release_acq [OF i(2), of "sl_lk lk"] assms(2)
    by (cases "sl_get lk s") (simp add: acquiresleep_def acquiresleep_enter_def acquiresleep_pass_def sl_set_acq Let_def one_go_def)
qed

lemma calm_wakeup:
  assumes i: "idle p s" and lk: "lk \<noteq> Ptable_lock"
  shows "wp (bindr (wakeup chan (acq lk s)) (release lk)) (calm p s)"
proof -
  let ?u = "acq lk s"
  note a = idle_acq [OF i, of lk]
  have "lock_free Ptable_lock ?u" "sched_inv ?u" using i lk by (simp_all add: idle_def)
  with wakeup_woke [OF a(2), of chan, unfolded acq_fields] a(4) have
    "wp (wakeup chan ?u) (\<lambda>t. woke ?u t \<and> (\<forall>q. same_but_links (procs t q)
      (if q < 64 \<and> sleeps_on chan (procs s q) then woken (procs s q) else procs s q)))"
    unfolding acq_fields by (metis zero_less_one)
  then show ?thesis
  proof (rule wp_seq, elim conjE)
    fix t
    assume w: "woke ?u t" and same: "\<forall>q. same_but_links (procs t q)
      (if q < 64 \<and> sleeps_on chan (procs s q) then woken (procs s q) else procs s q)"
    note f = woke_fields [OF w]
    have r: "release lk t = Inr (rel lk t)"
      using a(2-4) lk f(1-3,16) by (intro release_held) (auto simp: fun_upd_apply)
    have pid: "p_pid (procs t q) = p_pid (procs s q)" for q
      using same_but_links_fields [OF spec [OF same, of q]] by (auto simp: woken_def split: if_splits)
    have "\<not> sleeps_on chan (procs s p)" using i by (auto simp: idle_def sleeps_on_def)
    then have run: "p_state (procs t p) = RUNNING"
      using same_but_links_fields(1) [OF spec [OF same, of p]] i by (simp add: idle_def)
    have "idle p (rel lk t)"
      using i run f(1-3,15,16) lk cpu_view_pp [of "this_cpu s" "ncpu s" "cpus s"] by (auto simp: idle_def)
    moreover have "calm_frame s (rel lk t)"
      using w by (cases s; cases t) (simp add: calm_frame_def woke_def rel_def acq_def)
    ultimately show "wp (release lk t) (calm p s)" using r pid by (simp add: calm_iff)
  qed
qed

lemma releasesleep_idle:
  assumes "idle p s"
  shows "wp (releasesleep lk s) (calm p (sl_set lk \<lparr>sl_locked = False, sl_pid = 0\<rparr> s))"
proof -
  let ?s = "sl_set lk \<lparr>sl_locked = False, sl_pid = 0\<rparr> s"
  have "sl_lk lk \<noteq> Ptable_lock" by (cases lk) simp_all
  then show ?thesis
    using calm_wakeup [of p ?s "sl_lk lk" "Some (sl_chan lk)"] idle_acq(1) [OF assms, of "sl_lk lk"] assms
    by (simp add: releasesleep_def sl_set_acq)
qed

end
