(* ===== verification/Bio.thy ===== *)
theory Bio
  imports Sleeplock
begin

text \<open>
  The buffer cache (\<^verbatim>\<open>bio.c\<close>) over the memory disk driver (\<^verbatim>\<open>memide.c\<close>). Buffers form a
  circular list through \<^verbatim>\<open>prev\<close> and \<^verbatim>\<open>next\<close>, most recently used first; the list head is
  the entry \<open>NBUF\<close> of the buffer array.
\<close>

definition BSIZE :: nat where [simp]: "BSIZE = 512"

section \<open>The driver\<close>

text \<open>\<open>img_size\<close> is the linker's size of the disk image.\<close>

definition ideinit :: "uint \<Rightarrow> kernel \<Rightarrow> kernel" where
  "ideinit img_size s = s\<lparr>disksize := img_size div 512\<rparr>"

text \<open>\<^verbatim>\<open>memmove\<close> of a whole block.\<close>

definition copy_block :: "block \<Rightarrow> block \<Rightarrow> block" where
  "copy_block dst src i = (if i < BSIZE then src i else dst i)"

definition iderw :: "nat \<Rightarrow> kernel \<Rightarrow> kernel result" where
  "iderw b s =
     bindr (holdingsleep (Buf_sl b) s) (\<lambda>(h, s).
     bindr (panic_if (\<not> h) ''iderw: buf not locked'') (\<lambda>_.
     let bf = bcache s b; n = unat (b_blockno bf) in
     bindr (panic_if (b_valid bf \<and> \<not> b_dirty bf) ''iderw: nothing to do'') (\<lambda>_.
     bindr (panic_if (b_dev bf \<noteq> 1) ''iderw: request not for disk 1'') (\<lambda>_.
     bindr (panic_if (b_blockno bf \<ge> disksize s) ''iderw: block out of range'') (\<lambda>_.
     let s = (if b_dirty bf
              then (upd_buf b (\<lambda>bf. bf\<lparr>b_dirty := False\<rparr>) s)
                     \<lparr>disk := (disk s)(n := copy_block (disk s n) (b_data bf))\<rparr>
              else upd_buf b (\<lambda>bf. bf\<lparr>b_data := copy_block (b_data bf) (disk s n)\<rparr>) s)
     in Inr (upd_buf b (\<lambda>bf. bf\<lparr>b_valid := True\<rparr>) s))))))"

section \<open>The cache\<close>

text \<open>\<^verbatim>\<open>binit\<close> puts each buffer at the front of the list.\<close>

definition link_front :: "nat \<Rightarrow> kernel \<Rightarrow> kernel" where
  "link_front b s =
     (let s = upd_buf b (\<lambda>bf. bf\<lparr>b_next := b_next (bcache s NBUF)\<rparr>) s;
          s = upd_buf b (\<lambda>bf. bf\<lparr>b_prev := NBUF\<rparr>) s;
          s = upd_buf (b_next (bcache s NBUF)) (\<lambda>bf. bf\<lparr>b_prev := b\<rparr>) s
      in upd_buf NBUF (\<lambda>bf. bf\<lparr>b_next := b\<rparr>) s)"

definition binit :: "kernel \<Rightarrow> kernel" where
  "binit s =
     (let s = initlock Bcache_lock s;
          s = upd_buf NBUF (\<lambda>bf. bf\<lparr>b_prev := NBUF, b_next := NBUF\<rparr>) s
      in fold (\<lambda>b s. link_front b (initsleeplock (Buf_sl b) s)) [0..<NBUF] s)"

text \<open>The two searches of \<^verbatim>\<open>bget\<close>; the list has at most \<open>NBUF\<close> buffers.\<close>

fun find_cached :: "nat \<Rightarrow> nat \<Rightarrow> uint \<Rightarrow> uint \<Rightarrow> kernel \<Rightarrow> nat option result" where
  "find_cached n b dev blockno s =
     (if b = NBUF then Inr None
      else if b_dev (bcache s b) = dev \<and> b_blockno (bcache s b) = blockno then Inr (Some b)
      else (case n of 0 \<Rightarrow> Inl Out_Of_Fuel
            | Suc n \<Rightarrow> find_cached n (b_next (bcache s b)) dev blockno s))"

fun find_unused :: "nat \<Rightarrow> nat \<Rightarrow> kernel \<Rightarrow> nat option result" where
  "find_unused n b s =
     (if b = NBUF then Inr None
      else if b_refcnt (bcache s b) = 0 \<and> \<not> b_dirty (bcache s b) then Inr (Some b)
      else (case n of 0 \<Rightarrow> Inl Out_Of_Fuel
            | Suc n \<Rightarrow> find_unused n (b_prev (bcache s b)) s))"

declare find_cached.simps [simp del] find_unused.simps [simp del]

definition bget :: "uint \<Rightarrow> uint \<Rightarrow> kernel \<Rightarrow> (nat \<times> kernel) result" where
  "bget dev blockno s =
     bindr (acquire Bcache_lock s) (\<lambda>s.
     bindr (find_cached NBUF (b_next (bcache s NBUF)) dev blockno s) (\<lambda>hit.
     case hit of
       Some b \<Rightarrow>
         let s = upd_buf b (\<lambda>bf. bf\<lparr>b_refcnt := b_refcnt bf + 1\<rparr>) s in
         bindr (release Bcache_lock s) (\<lambda>s.
         bindr (acquiresleep (Buf_sl b) s) (\<lambda>s. Inr (b, s)))
     | None \<Rightarrow>
         bindr (find_unused NBUF (b_prev (bcache s NBUF)) s) (\<lambda>victim.
         case victim of
           Some b \<Rightarrow>
             let s = upd_buf b (\<lambda>bf. bf\<lparr>b_dev := dev, b_blockno := blockno, b_valid := False,
                                        b_dirty := False, b_refcnt := 1\<rparr>) s in
             bindr (release Bcache_lock s) (\<lambda>s.
             bindr (acquiresleep (Buf_sl b) s) (\<lambda>s. Inr (b, s)))
         | None \<Rightarrow> Inl (Panic ''bget: no buffers''))))"

definition bread :: "uint \<Rightarrow> uint \<Rightarrow> kernel \<Rightarrow> (nat \<times> kernel) result" where
  "bread dev blockno s =
     bindr (bget dev blockno s) (\<lambda>(b, s).
     bindr (if \<not> b_valid (bcache s b) then iderw b s else Inr s) (\<lambda>s.
     Inr (b, s)))"

definition bwrite :: "nat \<Rightarrow> kernel \<Rightarrow> kernel result" where
  "bwrite b s =
     bindr (holdingsleep (Buf_sl b) s) (\<lambda>(h, s).
     bindr (panic_if (\<not> h) ''bwrite'') (\<lambda>_.
     iderw b (upd_buf b (\<lambda>bf. bf\<lparr>b_dirty := True\<rparr>) s)))"

definition unlink_buf :: "nat \<Rightarrow> kernel \<Rightarrow> kernel" where
  "unlink_buf b s =
     (let s = upd_buf (b_next (bcache s b)) (\<lambda>bf. bf\<lparr>b_prev := b_prev (bcache s b)\<rparr>) s
      in upd_buf (b_prev (bcache s b)) (\<lambda>bf. bf\<lparr>b_next := b_next (bcache s b)\<rparr>) s)"

definition brelse :: "nat \<Rightarrow> kernel \<Rightarrow> kernel result" where
  "brelse b s =
     bindr (holdingsleep (Buf_sl b) s) (\<lambda>(h, s).
     bindr (panic_if (\<not> h) ''brelse'') (\<lambda>_.
     bindr (releasesleep (Buf_sl b) s) (\<lambda>s.
     bindr (acquire Bcache_lock s) (\<lambda>s.
     let s = upd_buf b (\<lambda>bf. bf\<lparr>b_refcnt := b_refcnt bf - 1\<rparr>) s;
         s = (if b_refcnt (bcache s b) = 0 then link_front b (unlink_buf b s) else s)
     in release Bcache_lock s))))"

text \<open>Reading and updating the data of a buffer.\<close>

definition buf_data :: "nat \<Rightarrow> kernel \<Rightarrow> block" where
  "buf_data b s = b_data (bcache s b)"

definition set_data :: "nat \<Rightarrow> block \<Rightarrow> kernel \<Rightarrow> kernel" where
  "set_data b d s = upd_buf b (\<lambda>bf. bf\<lparr>b_data := d\<rparr>) s"

text \<open>Little-endian fields of a block.\<close>

definition get16 :: "block \<Rightarrow> nat \<Rightarrow> ushort" where
  "get16 d i = ucast (d i) OR push_bit 8 (ucast (d (i + 1)))"

definition put16 :: "nat \<Rightarrow> ushort \<Rightarrow> block \<Rightarrow> block" where
  "put16 i w d = d(i := ucast w, i + 1 := ucast (drop_bit 8 w))"

definition get32 :: "block \<Rightarrow> nat \<Rightarrow> uint" where
  "get32 d i = ucast (d i) OR push_bit 8 (ucast (d (i + 1))) OR push_bit 16 (ucast (d (i + 2)))
     OR push_bit 24 (ucast (d (i + 3)))"

definition put32 :: "nat \<Rightarrow> uint \<Rightarrow> block \<Rightarrow> block" where
  "put32 i w d = d(i := ucast w, i + 1 := ucast (drop_bit 8 w), i + 2 := ucast (drop_bit 16 w),
                   i + 3 := ucast (drop_bit 24 w))"

section \<open>The list of buffers\<close>

text \<open>\<open>linked c l\<close>: the buffers of \<open>l\<close> follow each other through \<^verbatim>\<open>next\<close> and back through \<^verbatim>\<open>prev\<close>.\<close>

fun linked :: "(nat \<Rightarrow> buf) \<Rightarrow> nat list \<Rightarrow> bool" where
  "linked c (a # b # l) \<longleftrightarrow> b_next (c a) = b \<and> b_prev (c b) = a \<and> linked c (b # l)"
| "linked c _ \<longleftrightarrow> True"

definition bufring :: "(nat \<Rightarrow> buf) \<Rightarrow> nat list \<Rightarrow> bool" where
  "bufring c xs \<longleftrightarrow> distinct xs \<and> set xs = {..<30} \<and> linked c (30 # xs @ [30])"

lemma linked_append: "linked c (xs @ y # zs) \<longleftrightarrow> linked c (xs @ [y]) \<and> linked c (y # zs)"
proof (induction xs)
  case (Cons x xs)
  then show ?case by (cases xs) auto
qed simp

lemma linked_cong:
  assumes "\<And>x. x \<in> set (butlast l) \<Longrightarrow> b_next (c' x) = b_next (c x)" and "\<And>x. x \<in> set (tl l) \<Longrightarrow> b_prev (c' x) = b_prev (c x)"
  shows "linked c' l = linked c l"
  using assms
proof (induction l rule: induct_list012)
  case (3 x y zs)
  then have "linked c' (y # zs) = linked c (y # zs)" by (intro 3(2)) (auto split: if_splits)
  then show ?case using 3(3,4) by simp
qed simp_all

lemma linked_next: "linked c (xs @ a # b # ys) \<Longrightarrow> b_next (c a) = b \<and> b_prev (c b) = a"
  using linked_append [of c xs a "b # ys"] by simp

lemma find_cached_list:
  assumes "linked c (a # ys @ [30])" and "30 \<notin> set ys" and "length ys \<le> n" and "bcache s = c"
  shows "find_cached n (b_next (c a)) dev bn s = Inr (find (\<lambda>b. b_dev (c b) = dev \<and> b_blockno (c b) = bn) ys)"
  using assms
proof (induction ys arbitrary: a n)
  case Nil
  then show ?case by (simp add: find_cached.simps)
next
  case (Cons y ys)
  then obtain m where "n = Suc m" by (cases n) auto
  with Cons show ?case by (subst find_cached.simps) auto
qed

lemma find_unused_list:
  assumes "linked c (30 # ys @ [a])" and "30 \<notin> set ys" and "length ys \<le> n" and "bcache s = c"
  shows "find_unused n (b_prev (c a)) s = Inr (find (\<lambda>b. b_refcnt (c b) = 0 \<and> \<not> b_dirty (c b)) (rev ys))"
  using assms
proof (induction ys arbitrary: a n rule: rev_induct)
  case Nil
  then show ?case by (simp add: find_unused.simps)
next
  case (snoc y ys)
  then obtain m where "n = Suc m" by (cases n) auto
  moreover have "linked c (30 # ys @ [y])" "b_prev (c a) = y"
    using snoc.prems(1) linked_append [of c "30 # ys" y "[a]"] by simp_all
  ultimately show ?case using snoc by (subst find_unused.simps) auto
qed

text \<open>Taking a buffer out of the list and putting it at the front.\<close>

lemma unlink_linked:
  assumes l: "linked (bcache s) (30 # us @ b # vs @ [30])" and d: "distinct (30 # us @ b # vs)"
  shows "linked (bcache (unlink_buf b s)) (30 # us @ vs @ [30])"
proof -
  let ?c = "bcache s" and ?d = "bcache (unlink_buf b s)"
  obtain as a where a: "30 # us = as @ [a]" and aus: "a \<in> insert 30 (set us)" "a \<notin> set as"
  proof (cases us rule: rev_cases)
    case Nil
    then show thesis using that [of "[]" 30] by simp
  next
    case (snoc ws w)
    then show thesis using that [of "30 # ws" w] d by auto
  qed
  obtain z zs where z: "vs @ [30] = z # zs" by (cases vs) auto
  have L: "linked ?c (as @ a # b # z # zs)" using l a z by (metis append.assoc append_Cons append_Nil)
  from linked_next [of ?c as a b "z # zs"] linked_next [of ?c "as @ [a]" b z zs] L
  have n: "b_next (?c a) = b" "b_prev (?c b) = a" "b_next (?c b) = z" "b_prev (?c z) = b" by simp_all
  have ne: "a \<noteq> b" "z \<noteq> b" using d a z by (cases vs; auto simp: append_eq_Cons_conv Cons_eq_append_conv)+
  have dn: "b_next (?d x) = (if x = a then z else b_next (?c x))" "b_prev (?d x) = (if x = z then a else b_prev (?c x))" for x
    using n ne by (auto simp: unlink_buf_def Let_def)
  have tl: "tl (as @ [a]) = us" using a by (metis list.sel(3))
  have zvs: "z \<notin> set us" "butlast (z # zs) = vs" "z \<notin> set zs"
    using d z by (cases vs; auto)+
  have "linked ?c (as @ [a])" "linked ?c (z # zs)"
    using L linked_append [of ?c as a "b # z # zs"] linked_append [of ?c "as @ [a, b]" z zs] by simp_all
  moreover have "linked ?d (as @ [a]) = linked ?c (as @ [a])"
    using aus zvs tl by (intro linked_cong) (auto simp: dn)
  moreover have "a \<notin> set vs" using aus(1) d by auto
  then have "linked ?d (z # zs) = linked ?c (z # zs)"
    using zvs by (intro linked_cong) (auto simp: dn)
  ultimately have "linked ?d (as @ a # z # zs)"
    unfolding linked_append [of ?d as a "z # zs"] by (simp add: dn)
  then show ?thesis using a z by (metis append.assoc append_Cons append_Nil)
qed

lemma link_front_linked:
  assumes l: "linked (bcache s) (30 # ws @ [30])" and d: "distinct (30 # b # ws)"
  shows "linked (bcache (link_front b s)) (30 # b # ws @ [30])"
proof -
  let ?c = "bcache s" and ?d = "bcache (link_front b s)"
  obtain f fs where f: "ws @ [30] = f # fs" by (cases ws) auto
  have n: "b_next (?c 30) = f" using l f by simp
  have ne: "f \<noteq> b" "f \<notin> set fs" "butlast (f # fs) = ws" using f d by (cases ws; auto)+
  have dn: "b_next (?d x) = (if x = 30 then b else if x = b then f else b_next (?c x))"
    "b_prev (?d x) = (if x = f then b else if x = b then 30 else b_prev (?c x))" for x
    using n ne d by (auto simp: link_front_def Let_def)
  have "b \<notin> set fs" using f d by (cases ws) auto
  then have "linked ?d (f # fs) = linked ?c (f # fs)"
    using ne d by (intro linked_cong) (auto simp: dn)
  moreover have "linked ?c (f # fs)" using l f by simp
  ultimately show ?thesis using f ne d by (simp add: dn)
qed

text \<open>Only the links change.\<close>

definition same_buf :: "buf \<Rightarrow> buf \<Rightarrow> bool" where
  "same_buf x y \<longleftrightarrow> x = y\<lparr>b_prev := b_prev x, b_next := b_next x\<rparr>"

lemma same_buf_refl [simp]: "same_buf x x"
  by (simp add: same_buf_def)

lemma same_buf_trans: "same_buf x y \<Longrightarrow> same_buf y z \<Longrightarrow> same_buf x z"
  by (cases x; cases y; cases z) (simp add: same_buf_def)

lemma same_buf_fields:
  assumes "same_buf x y"
  shows "b_valid x = b_valid y" "b_dirty x = b_dirty y" "b_dev x = b_dev y" "b_blockno x = b_blockno y" "b_lock x = b_lock y"
    "b_refcnt x = b_refcnt y" "b_data x = b_data y"
  using assms by (cases x; cases y; simp add: same_buf_def)+

lemma links_same_buf: "same_buf (bcache (link_front b s) x) (bcache s x)" "same_buf (bcache (unlink_buf b s) x) (bcache s x)"
  by (auto simp: link_front_def unlink_buf_def Let_def same_buf_def)

lemma bufring_to_front:
  assumes "bufring (bcache s) xs" and "b < 30"
  shows "\<exists>ys. bufring (bcache (link_front b (unlink_buf b s))) ys"
proof -
  obtain us vs where xs: "xs = us @ b # vs" using assms by (metis bufring_def lessThan_iff split_list)
  have d: "distinct xs" "set xs = {..<30}" "linked (bcache s) (30 # xs @ [30])" using assms(1) by (auto simp: bufring_def)
  have "30 \<notin> set xs" by (simp add: d(2))
  then have d': "distinct (30 # us @ b # vs)" using d(1) xs by simp
  have "linked (bcache (unlink_buf b s)) (30 # (us @ vs) @ [30])" using unlink_linked [of s us b vs] d(3) d' xs by simp
  then have "linked (bcache (link_front b (unlink_buf b s))) (30 # (b # us @ vs) @ [30])"
    using link_front_linked [of "unlink_buf b s" "us @ vs" b] d' by auto
  moreover have "distinct (b # us @ vs)" "set (b # us @ vs) = {..<30}" using d(1,2) xs by auto
  ultimately show ?thesis unfolding bufring_def by blast
qed

section \<open>The cache is coherent\<close>

text \<open>
  \<open>cache_ok pid c d H\<close>: the buffers are in one ring; those in \<open>H\<close> are locked by the process
  with the given pid and referenced once, all others are neither locked nor referenced; at
  most one buffer holds a block of disk 1, and an unlocked clean valid buffer holds what the
  disk holds.
\<close>

definition holds :: "buf \<Rightarrow> uint \<Rightarrow> bool" where
  "holds bf n \<longleftrightarrow> b_dev bf = 1 \<and> b_blockno bf = n"

definition same_block :: "block \<Rightarrow> block \<Rightarrow> bool" where
  "same_block x y \<longleftrightarrow> (\<forall>i < 512. x i = y i)"

definition held_buf :: "int \<Rightarrow> buf \<Rightarrow> bool" where
  "held_buf pid bf \<longleftrightarrow> b_lock bf = \<lparr>sl_locked = True, sl_pid = pid\<rparr> \<and> b_refcnt bf = 1 \<and> b_valid bf"

definition free_buf :: "(nat \<Rightarrow> block) \<Rightarrow> buf \<Rightarrow> bool" where
  "free_buf d bf \<longleftrightarrow> \<not> sl_locked (b_lock bf) \<and> b_refcnt bf = 0 \<and> (b_dirty bf \<longrightarrow> b_valid bf) \<and>
     (b_dev bf = 1 \<longrightarrow> b_valid bf \<longrightarrow> \<not> b_dirty bf \<longrightarrow> same_block (b_data bf) (d (unat (b_blockno bf))))"

definition one_each :: "(nat \<Rightarrow> buf) \<Rightarrow> bool" where
  "one_each c \<longleftrightarrow> (\<forall>a < 30. \<forall>b < 30. \<forall>n. holds (c a) n \<longrightarrow> holds (c b) n \<longrightarrow> a = b)"

definition cache_ok :: "int \<Rightarrow> (nat \<Rightarrow> buf) \<Rightarrow> (nat \<Rightarrow> block) \<Rightarrow> nat set \<Rightarrow> bool" where
  "cache_ok pid c d H \<longleftrightarrow> (\<exists>xs. bufring c xs) \<and> H \<subseteq> {..<30} \<and> (\<forall>b \<in> H. held_buf pid (c b)) \<and>
     (\<forall>b < 30. b \<notin> H \<longrightarrow> free_buf d (c b)) \<and> one_each c"

lemma cache_okI:
  assumes "bufring c xs" and "H \<subseteq> {..<30}" and "\<And>b. b \<in> H \<Longrightarrow> held_buf pid (c b)" and "\<And>b. b < 30 \<Longrightarrow> b \<notin> H \<Longrightarrow> free_buf d (c b)"
    and "one_each c"
  shows "cache_ok pid c d H"
  using assms unfolding cache_ok_def by blast

lemma cache_okD:
  assumes "cache_ok pid c d H"
  shows "\<exists>xs. bufring c xs" "H \<subseteq> {..<30}" "b \<in> H \<Longrightarrow> held_buf pid (c b)" "b < 30 \<Longrightarrow> b \<notin> H \<Longrightarrow> free_buf d (c b)" "one_each c"
  using assms unfolding cache_ok_def by blast+

lemma one_eachD: "one_each c \<Longrightarrow> holds (c a) n \<Longrightarrow> holds (c b) n \<Longrightarrow> a < 30 \<Longrightarrow> b < 30 \<Longrightarrow> a = b"
  unfolding one_each_def by blast

lemma same_block_refl [simp]: "same_block x x" by (simp add: same_block_def)
lemma same_block_sym: "same_block x y \<Longrightarrow> same_block y x" by (simp add: same_block_def)
lemma same_block_trans: "same_block x y \<Longrightarrow> same_block y z \<Longrightarrow> same_block x z" by (simp add: same_block_def)
lemma same_block_copy [simp]: "same_block (copy_block x y) y" by (simp add: same_block_def copy_block_def)

lemma bufring_cong:
  assumes "\<And>b. b_next (c' b) = b_next (c b)" and "\<And>b. b_prev (c' b) = b_prev (c b)"
  shows "bufring c' xs = bufring c xs"
  unfolding bufring_def using linked_cong [of "30 # xs @ [30]" c' c] assms by simp

lemma cache_ok_get:
  assumes ok: "cache_ok pid c d H" and b: "b < 30" and bf: "held_buf pid bf" "b_next bf = b_next (c b)" "b_prev bf = b_prev (c b)"
    and n: "holds bf n" "\<And>a. a < 30 \<Longrightarrow> holds (c a) n \<Longrightarrow> a = b"
  shows "cache_ok pid (c(b := bf)) d (insert b H)"
proof -
  obtain xs where xs: "bufring c xs" using cache_okD(1) [OF ok] by blast
  show ?thesis
  proof (rule cache_okI)
    show "bufring (c(b := bf)) xs" using bufring_cong [of "c(b := bf)" c xs] xs bf(2,3) by auto
    show "insert b H \<subseteq> {..<30}" using cache_okD(2) [OF ok] b by simp
    show "held_buf pid ((c(b := bf)) a)" if "a \<in> insert b H" for a using that cache_okD(3) [OF ok] bf(1) by auto
    show "free_buf d ((c(b := bf)) a)" if "a < 30" "a \<notin> insert b H" for a using that cache_okD(4) [OF ok] by auto
    have "n' = n" if "holds bf n'" for n' using that n(1) by (auto simp: holds_def)
    then show "one_each (c(b := bf))" using cache_okD(5) [OF ok] n(2) unfolding one_each_def by (metis fun_upd_apply)
  qed
qed

text \<open>A free clean buffer, and the buffer \<^verbatim>\<open>bget\<close> finds.\<close>

definition spare :: "(nat \<Rightarrow> buf) \<Rightarrow> nat set \<Rightarrow> bool" where
  "spare c H \<longleftrightarrow> (\<exists>b < 30. b \<notin> H \<and> \<not> b_dirty (c b))"

abbreviation mine_lock :: "nat \<Rightarrow> kernel \<Rightarrow> sleeplock" where
  "mine_lock p s \<equiv> \<lparr>sl_locked = True, sl_pid = p_pid (procs s p)\<rparr>"

lemma bget_tail:
  assumes i: "idle p s" and "\<not> sl_locked (b_lock bf)"
  shows "\<exists>t. bindr (release Bcache_lock ((acq Bcache_lock s)\<lparr>bcache := (bcache s)(b := bf)\<rparr>)) (\<lambda>s.
       bindr (acquiresleep (Buf_sl b) s) (\<lambda>s. Inr (b, s))) = Inr (b, t) \<and>
       calm p (s\<lparr>bcache := (bcache s)(b := bf\<lparr>b_lock := mine_lock p s\<rparr>)\<rparr>) t"
proof -
  let ?s1 = "s\<lparr>bcache := (bcache s)(b := bf)\<rparr>" and ?l = "mine_lock p s"
  have eq: "(acq Bcache_lock s)\<lparr>bcache := (bcache s)(b := bf)\<rparr> = acq Bcache_lock ?s1" by (simp add: acq_def)
  have i1: "idle p ?s1" using i by simp
  let ?s2 = "critical Bcache_lock ?s1"
  note c2 = calm_critical [OF i1, of Bcache_lock]
  have f: "bcache ?s2 = (bcache s)(b := bf)" "procs ?s2 = procs s" by (simp_all add: critical_def)
  let ?s3 = "sl_set (Buf_sl b) ?l ?s2"
  have "acquiresleep (Buf_sl b) ?s2 = Inr (critical (Buf_lk b) ?s3)"
    using acquiresleep_idle [OF calm_idle [OF c2], of "Buf_sl b"] assms(2) f by simp
  moreover have "calm p (sl_set (Buf_sl b) ?l ?s1) (critical (Buf_lk b) ?s3)"
    using calm_trans [OF calm_sl_set [OF c2, of "Buf_sl b" ?l] calm_critical] calm_idle [OF c2] by simp
  moreover have "sl_set (Buf_sl b) ?l ?s1 = s\<lparr>bcache := (bcache s)(b := bf\<lparr>b_lock := ?l\<rparr>)\<rparr>" by simp
  ultimately show ?thesis unfolding eq release_acq [OF i1] by simp
qed

text \<open>The searches of \<^verbatim>\<open>bget\<close> over the whole ring.\<close>

lemma find_cached_ring:
  assumes "bufring (bcache s) xs"
  shows "find_cached NBUF (b_next (bcache s NBUF)) 1 n s = Inr (find (\<lambda>b. holds (bcache s b) n) xs)"
    "find_unused NBUF (b_prev (bcache s NBUF)) s = Inr (find (\<lambda>b. b_refcnt (bcache s b) = 0 \<and> \<not> b_dirty (bcache s b)) (rev xs))"
proof -
  have xs: "distinct xs" "set xs = {..<30}" "linked (bcache s) (30 # xs @ [30])" using assms by (simp_all add: bufring_def)
  then have len: "length xs = 30" "30 \<notin> set xs" using distinct_card [of xs] by simp_all
  show "find_cached NBUF (b_next (bcache s NBUF)) 1 n s = Inr (find (\<lambda>b. holds (bcache s b) n) xs)"
    using find_cached_list [of "bcache s" 30 xs NBUF s 1 n] xs(3) len by (simp add: holds_def)
  show "find_unused NBUF (b_prev (bcache s NBUF)) s = Inr (find (\<lambda>b. b_refcnt (bcache s b) = 0 \<and> \<not> b_dirty (bcache s b)) (rev xs))"
    using find_unused_list [of "bcache s" xs 30 NBUF s] xs(3) len by simp
qed

lemma bget_hit:
  assumes i: "idle p s" and ok: "cache_ok pid (bcache s) d H" and b: "b < 30" "b \<notin> H" "holds (bcache s b) n"
  shows "\<exists>t. bget 1 n s = Inr (b, t) \<and>
    calm p (s\<lparr>bcache := (bcache s)(b := (bcache s b)\<lparr>b_refcnt := 1, b_lock := mine_lock p s\<rparr>)\<rparr>) t"
proof -
  obtain xs where xs: "bufring (bcache s) xs" using cache_okD(1) [OF ok] by blast
  then have set: "set xs = {..<30}" "bufring (bcache (acq Bcache_lock s)) xs" by (simp_all add: bufring_def)
  have "find (\<lambda>b. holds (bcache s b) n) xs = Some b"
  proof (cases "find (\<lambda>b. holds (bcache s b) n) xs")
    case None
    then show ?thesis using b set(1) by (auto simp: find_None_iff)
  next
    case (Some a)
    then have "a < 30" "holds (bcache s a) n" using set(1) by (auto simp: find_Some_iff)
    then show ?thesis using Some one_eachD [OF cache_okD(5) [OF ok]] b by metis
  qed
  moreover have "b_refcnt (bcache s b) = 0" "\<not> sl_locked (b_lock (bcache s b))"
    using cache_okD(4) [OF ok b(1,2)] by (auto simp: free_buf_def)
  ultimately show ?thesis
    using bget_tail [OF i, of "(bcache s b)\<lparr>b_refcnt := 1\<rparr>" b] idle_acq(1) [OF i, of Bcache_lock]
      find_cached_ring(1) [OF set(2), of n] by (auto simp: bget_def)
qed

lemma bget_miss:
  assumes i: "idle p s" and ok: "cache_ok pid (bcache s) d H" and no: "\<And>b. b < 30 \<Longrightarrow> \<not> holds (bcache s b) n"
    and sp: "spare (bcache s) H"
  shows "\<exists>b t. bget 1 n s = Inr (b, t) \<and> b < 30 \<and> b \<notin> H \<and> \<not> b_dirty (bcache s b) \<and>
    calm p (s\<lparr>bcache := (bcache s)(b := (bcache s b)\<lparr>b_dev := 1, b_blockno := n, b_valid := False,
       b_dirty := False, b_refcnt := 1, b_lock := mine_lock p s\<rparr>)\<rparr>) t"
proof -
  let ?c = "bcache s"
  obtain xs where xs: "bufring ?c xs" using cache_okD(1) [OF ok] by blast
  then have set: "set xs = {..<30}" "bufring (bcache (acq Bcache_lock s)) xs" by (simp_all add: bufring_def)
  have hit: "find (\<lambda>b. holds (?c b) n) xs = None" using no set(1) by (auto simp: find_None_iff)
  obtain b where b: "find (\<lambda>b. b_refcnt (?c b) = 0 \<and> \<not> b_dirty (?c b)) (rev xs) = Some b"
  proof (cases "find (\<lambda>b. b_refcnt (?c b) = 0 \<and> \<not> b_dirty (?c b)) (rev xs)")
    case None
    obtain b where "b < 30" "b \<notin> H" "\<not> b_dirty (?c b)" using sp by (auto simp: spare_def)
    then have False using None cache_okD(4) [OF ok, of b] set(1) by (auto simp: find_None_iff free_buf_def)
    then show thesis ..
  qed (use that in simp)
  then have b': "b < 30" "b_refcnt (?c b) = 0" "\<not> b_dirty (?c b)"
    using find_Some_iff [THEN iffD1, OF b] set(1) by (metis length_rev lessThan_iff nth_mem set_rev)+
  then have "b \<notin> H" using cache_okD(3) [OF ok, of b] by (auto simp: held_buf_def)
  then have "\<not> sl_locked (b_lock (?c b))" using cache_okD(4) [OF ok b'(1)] by (auto simp: free_buf_def)
  with bget_tail [OF i, of "(?c b)\<lparr>b_dev := 1, b_blockno := n, b_valid := False, b_dirty := False, b_refcnt := 1\<rparr>" b]
  show ?thesis using idle_acq(1) [OF i, of Bcache_lock] find_cached_ring(1) [OF set(2), of n] find_cached_ring(2) [OF set(2)] hit b b' \<open>b \<notin> H\<close>
    by (auto simp: bget_def)
qed

text \<open>\<open>bio p s t\<close>: apart from what \<open>calm\<close> allows, only the cache and the disk have changed.\<close>

definition bio :: "nat \<Rightarrow> kernel \<Rightarrow> kernel \<Rightarrow> bool" where
  "bio p s t \<longleftrightarrow> calm p (s\<lparr>bcache := bcache t, disk := disk t\<rparr>) t"

lemma bio_idle: "bio p s t \<Longrightarrow> idle p t"
  by (simp add: bio_def calm_def)

lemma bio_fields:
  assumes "bio p s t"
  shows "icache t = icache s" "disksize t = disksize s" "log_st t = log_st s" "sb t = sb s" "mem t = mem s" "ftable t = ftable s"
    "p_pid (procs t q) = p_pid (procs s q)"
  using calm_fields [OF assms [unfolded bio_def]] by simp_all

lemma calm_frame_bio: "calm_frame (s\<lparr>bcache := bcache t, disk := disk t\<rparr>) t \<Longrightarrow> calm_frame (t\<lparr>bcache := bcache u, disk := disk u\<rparr>) u \<Longrightarrow>
  calm_frame (s\<lparr>bcache := bcache u, disk := disk u\<rparr>) u"
  by (cases s; cases t; cases u) (simp add: calm_frame_def)

lemma bio_trans: "bio p s t \<Longrightarrow> bio p t u \<Longrightarrow> bio p s u"
  by (auto simp: bio_def calm_iff intro: calm_frame_bio)

lemma bio_refl: "idle p s \<Longrightarrow> bio p s s"
  by (simp add: bio_def calm_refl)

lemma bio_calm: "calm p s t \<Longrightarrow> bio p s t"
  using calm_fields [of p s t] by (simp add: bio_def)

lemma bio_upd [simp]: "bio p (s\<lparr>bcache := c\<rparr>) t = bio p s t" "bio p (s\<lparr>disk := d\<rparr>) t = bio p s t"
  by (simp_all add: bio_def)

lemma bio_upd_right: "idle p t \<Longrightarrow> bio p s t \<Longrightarrow> bio p s (t\<lparr>bcache := c\<rparr>)" "idle p t \<Longrightarrow> bio p s t \<Longrightarrow> bio p s (t\<lparr>disk := d\<rparr>)"
proof -
  have "idle p t \<Longrightarrow> bio p t (t\<lparr>bcache := c\<rparr>)" "idle p t \<Longrightarrow> bio p t (t\<lparr>disk := d\<rparr>)" by (simp_all add: bio_def calm_refl)
  then show "idle p t \<Longrightarrow> bio p s t \<Longrightarrow> bio p s (t\<lparr>bcache := c\<rparr>)" "idle p t \<Longrightarrow> bio p s t \<Longrightarrow> bio p s (t\<lparr>disk := d\<rparr>)"
    using bio_trans by blast+
qed

text \<open>The cache invariant of a state, for the running process.\<close>

definition bufs :: "nat \<Rightarrow> nat set \<Rightarrow> kernel \<Rightarrow> bool" where
  "bufs p H s \<longleftrightarrow> idle p s \<and> cache_ok (p_pid (procs s p)) (bcache s) (disk s) H"

lemma bufs_calm:
  assumes "calm p s t" and "cache_ok (p_pid (procs s p)) (bcache s) (disk s) H"
  shows "bufs p H t"
  using assms(2) calm_idle [OF assms(1)] calm_fields [OF assms(1)] by (simp add: bufs_def)

lemma held_mine: "bufs p H s \<Longrightarrow> b \<in> H \<Longrightarrow> sl_mine (Buf_sl b) p s"
  using cache_okD(3) [of "p_pid (procs s p)" "bcache s" "disk s" H b] by (simp add: bufs_def sl_mine_def held_buf_def)

lemma iderw_read:
  assumes "idle p s" and "sl_mine (Buf_sl b) p s" and "holds (bcache s b) n" and "\<not> b_valid (bcache s b)" "\<not> b_dirty (bcache s b)" and "n < disksize s"
  shows "wp (iderw b s) (calm p (s\<lparr>bcache := (bcache s)(b := (bcache s b)\<lparr>b_data := copy_block (b_data (bcache s b)) (disk s (unat n)), b_valid := True\<rparr>)\<rparr>))"
proof -
  have "\<not> disksize s \<le> n" using assms(6) by simp
  then show ?thesis
    using holdingsleep_idle [OF assms(1), of "Buf_sl b"] assms calm_bcache [OF calm_critical [OF assms(1)]]
    by (simp add: iderw_def holds_def calm_fields [OF calm_critical [OF assms(1)]] Let_def)
qed

lemma calm_disk: "calm p s t \<Longrightarrow> calm p (s\<lparr>disk := c\<rparr>) (t\<lparr>disk := c\<rparr>)"
proof -
  have "calm_frame s t \<Longrightarrow> calm_frame (s\<lparr>disk := c\<rparr>) (t\<lparr>disk := c\<rparr>)" by (cases s; cases t) (simp add: calm_frame_def)
  then show "calm p s t \<Longrightarrow> calm p (s\<lparr>disk := c\<rparr>) (t\<lparr>disk := c\<rparr>)" by (simp add: calm_iff)
qed

lemma disk_bcache_swap: "s\<lparr>disk := d, bcache := c\<rparr> = s\<lparr>bcache := c, disk := d\<rparr>"
  by simp

lemma iderw_write:
  assumes "idle p s" and "sl_mine (Buf_sl b) p s" and "holds (bcache s b) n" and "b_dirty (bcache s b)" and "n < disksize s"
  shows "wp (iderw b s) (calm p (s\<lparr>bcache := (bcache s)(b := (bcache s b)\<lparr>b_dirty := False, b_valid := True\<rparr>),
    disk := (disk s)(unat n := copy_block (disk s (unat n)) (b_data (bcache s b)))\<rparr>))"
proof -
  have "\<not> disksize s \<le> n" using assms(5) by simp
  then show ?thesis
    using holdingsleep_idle [OF assms(1), of "Buf_sl b"] assms calm_disk [OF calm_bcache [OF calm_critical [OF assms(1)]]]
    by (simp add: iderw_def holds_def calm_fields [OF calm_critical [OF assms(1)]] Let_def disk_bcache_swap)
qed

text \<open>The contents of a block: what the cache holds, or else what the disk holds.\<close>

definition contents :: "kernel \<Rightarrow> uint \<Rightarrow> block" where
  "contents s n = (case find (\<lambda>b. holds (bcache s b) n \<and> b_valid (bcache s b)) [0..<30] of
     Some b \<Rightarrow> b_data (bcache s b) | None \<Rightarrow> disk s (unat n))"

lemma contents_hit:
  assumes "one_each (bcache s)" and "b < 30" and "holds (bcache s b) n" and "b_valid (bcache s b)"
  shows "contents s n = b_data (bcache s b)"
proof (cases "find (\<lambda>b. holds (bcache s b) n \<and> b_valid (bcache s b)) [0..<30]")
  case None
  then show ?thesis using assms by (auto simp: find_None_iff)
next
  case (Some a)
  then have "a < 30" "holds (bcache s a) n" by (auto simp: find_Some_iff)
  then have "a = b" using one_eachD [OF assms(1)] assms(2,3) by blast
  then show ?thesis using Some by (simp add: contents_def)
qed

lemma contents_miss: "(\<And>b. b < 30 \<Longrightarrow> holds (bcache s b) n \<Longrightarrow> \<not> b_valid (bcache s b)) \<Longrightarrow> contents s n = disk s (unat n)"
  by (cases "find (\<lambda>b. holds (bcache s b) n \<and> b_valid (bcache s b)) [0..<30]") (auto simp: contents_def find_Some_iff)

text \<open>
  \<open>got p s H n b t\<close>: a process that held the buffers \<open>H\<close> has locked buffer \<open>b\<close> with the
  contents of block \<open>n\<close>. The other buffers and the contents of all blocks are as before, and a
  buffer that the log has pinned has not been taken for another block.
\<close>

definition got :: "nat \<Rightarrow> kernel \<Rightarrow> nat set \<Rightarrow> uint \<Rightarrow> nat \<Rightarrow> kernel \<Rightarrow> bool" where
  "got p s H n b t \<longleftrightarrow> b < 30 \<and> b \<notin> H \<and> bio p s t \<and> disk t = disk s \<and> bufs p (insert b H) t \<and> holds (bcache t b) n \<and>
     same_block (buf_data b t) (contents s n) \<and> (\<forall>a. a \<noteq> b \<longrightarrow> bcache t a = bcache s a) \<and>
     (b_dirty (bcache t b) \<longleftrightarrow> holds (bcache s b) n \<and> b_dirty (bcache s b)) \<and>
     (b_dirty (bcache s b) \<longrightarrow> holds (bcache s b) n) \<and>
     (\<not> b_dirty (bcache t b) \<longrightarrow> same_block (buf_data b t) (disk s (unat n))) \<and>
     (\<forall>m. same_block (contents t m) (contents s m))"

text \<open>Dropping a clean buffer leaves the contents of its block to the disk.\<close>

lemma contents_replace:
  assumes one: "one_each (bcache s)" "one_each (bcache t)" and t: "bcache t = (bcache s)(b := bf)" "disk t = disk s" and b: "b < 30"
    and m: "\<not> holds bf m" and old: "holds (bcache s b) m \<Longrightarrow> b_valid (bcache s b) \<Longrightarrow> same_block (b_data (bcache s b)) (disk s (unat m))"
  shows "same_block (contents t m) (contents s m)"
proof (cases "\<exists>a < 30. holds (bcache s a) m \<and> b_valid (bcache s a)")
  case True
  then obtain a where a: "a < 30" "holds (bcache s a) m" "b_valid (bcache s a)" by blast
  have cs: "contents s m = b_data (bcache s a)" using contents_hit [OF one(1) a] .
  show ?thesis
  proof (cases "a = b")
    case True
    have "contents t m = disk t (unat m)"
      using m a(2) True t one_eachD [OF one(1)] b by (intro contents_miss) (metis fun_upd_apply)
    then show ?thesis using a True cs t(2) old by (auto intro: same_block_sym)
  next
    case False
    then show ?thesis using contents_hit [OF one(2) a(1), of m] a(2,3) t cs by simp
  qed
next
  case False
  have "contents s m = disk s (unat m)" by (rule contents_miss) (use False in auto)
  moreover have "contents t m = disk t (unat m)" by (rule contents_miss) (use False m t in \<open>auto split: if_splits\<close>)
  ultimately show ?thesis using t by simp
qed

text \<open>A buffer of the new state \<open>bf\<close> in the place of \<open>b\<close>.\<close>

lemma got_intro:
  assumes ok: "bufs p H s" and c: "calm p (s\<lparr>bcache := (bcache s)(b := bf)\<rparr>) t" and b: "b < 30" "b \<notin> H"
    and bf: "held_buf (p_pid (procs s p)) bf" "b_next bf = b_next (bcache s b)" "b_prev bf = b_prev (bcache s b)" "holds bf n"
    and data: "same_block (b_data bf) (contents s n)"
    and src: "holds (bcache s b) n \<and> b_dirty bf = b_dirty (bcache s b) \<or>
      (\<forall>a < 30. \<not> holds (bcache s a) n) \<and> \<not> b_dirty (bcache s b) \<and> \<not> b_dirty bf"
    and clean: "\<not> b_dirty bf \<Longrightarrow> same_block (b_data bf) (disk s (unat n))"
  shows "got p s H n b t"
proof -
  have co: "cache_ok (p_pid (procs s p)) (bcache s) (disk s) H" using ok by (simp add: bufs_def)
  note f = calm_fields [OF c]
  have bt: "bcache t = (bcache s)(b := bf)" "disk t = disk s" using f(1,3) by simp_all
  have u: "a = b" if "a < 30" "holds (bcache s a) n" for a
    using src that b one_eachD [OF cache_okD(5) [OF co]] by blast
  have co': "cache_ok (p_pid (procs s p)) ((bcache s)(b := bf)) (disk s) (insert b H)"
    by (rule cache_ok_get [OF co b(1) bf u])
  have bufs: "bufs p (insert b H) t" using bufs_calm [OF c] co' by simp
  have one: "one_each (bcache t)" "one_each (bcache s)" using cache_okD(5) [OF co'] cache_okD(5) [OF co] bt by simp_all
  have bn: "contents t n = b_data bf"
    using contents_hit [OF one(1) b(1), of n] bf bt by (simp add: held_buf_def)
  have "same_block (contents t m) (contents s m)" for m
  proof (cases "m = n")
    case True
    then show ?thesis using bn data by simp
  next
    case False
    then have nb: "\<not> holds bf m" using bf(4) by (auto simp: holds_def)
    have old: "same_block (b_data (bcache s b)) (disk s (unat m))" if "holds (bcache s b) m" "b_valid (bcache s b)"
    proof -
      have "\<not> holds (bcache s b) n" using that(1) False by (auto simp: holds_def)
      then have "\<not> b_dirty (bcache s b)" using src by blast
      then show ?thesis using cache_okD(4) [OF co b] that by (auto simp: free_buf_def holds_def)
    qed
    show ?thesis by (rule contents_replace [OF one(2,1) bt b(1) nb old])
  qed
  moreover have "bio p s t" using bio_calm [OF c] by simp
  ultimately show ?thesis
    using b bt bufs bf(4) data src clean by (auto simp: got_def buf_data_def)
qed

lemma bread_fill:
  assumes ok: "bufs p H s" and n: "n < disksize s"
    and c: "calm p (s\<lparr>bcache := (bcache s)(b := bf)\<rparr>) t" and b: "b < 30" "b \<notin> H" and bf: "b_lock bf = mine_lock p s" "b_refcnt bf = 1"
      "b_next bf = b_next (bcache s b)" "b_prev bf = b_prev (bcache s b)" "holds bf n"
    and v: "b_valid bf \<Longrightarrow> same_block (b_data bf) (contents s n)" "b_valid bf \<Longrightarrow> \<not> b_dirty bf \<Longrightarrow> same_block (b_data bf) (disk s (unat n))"
      "\<not> b_valid bf \<Longrightarrow> \<not> b_dirty bf" "\<not> b_valid bf \<Longrightarrow> contents s n = disk s (unat n)"
    and src: "holds (bcache s b) n \<and> b_dirty bf = b_dirty (bcache s b) \<or>
        (\<forall>a < 30. \<not> holds (bcache s a) n) \<and> \<not> b_dirty (bcache s b) \<and> \<not> b_dirty bf"
  shows "wp (if \<not> b_valid (bcache t b) then iderw b t else Inr t) (got p s H n b)"
proof (cases "b_valid bf")
  case True
  have "got p s H n b t" by (rule got_intro [OF ok c b]) (use bf True v src in \<open>simp_all add: held_buf_def\<close>)
  then show ?thesis using True calm_fields(1) [OF c] by simp
next
  case False
  note f = calm_fields [OF c]
  let ?bf = "bf\<lparr>b_data := copy_block (b_data bf) (disk s (unat n)), b_valid := True\<rparr>"
  have fb: "bcache t b = bf" "disk t = disk s" "disksize t = disksize s" using f(1,3,4) by simp_all
  have "sl_mine (Buf_sl b) p t" using fb f(9) bf(1) by (simp add: sl_mine_def)
  from iderw_read [OF calm_idle [OF c] this, of n, unfolded fb] False v(3) bf(5) n have
    "wp (iderw b t) (calm p (t\<lparr>bcache := (bcache t)(b := ?bf)\<rparr>))" by simp
  then have "wp (iderw b t) (got p s H n b)"
  proof (rule wp_mono)
    fix u
    assume "calm p (t\<lparr>bcache := (bcache t)(b := ?bf)\<rparr>) u"
    with calm_bcache [OF c, of "(bcache s)(b := ?bf)"] f(1) have cu: "calm p (s\<lparr>bcache := (bcache s)(b := ?bf)\<rparr>) u"
      using calm_trans by simp
    show "got p s H n b u"
      by (rule got_intro [OF ok cu b]) (use bf False v src in \<open>auto simp: held_buf_def holds_def\<close>)
  qed
  then show ?thesis using False fb(1) by simp
qed

lemma bread_got:
  assumes ok: "bufs p H s" and n: "n < disksize s" and fresh: "\<And>b. b \<in> H \<Longrightarrow> \<not> holds (bcache s b) n"
    and room: "(\<exists>b < 30. holds (bcache s b) n) \<or> spare (bcache s) H"
  shows "wp (bread 1 n s) (\<lambda>(b, t). got p s H n b t)"
proof -
  have i: "idle p s" and co: "cache_ok (p_pid (procs s p)) (bcache s) (disk s) H" using ok by (simp_all add: bufs_def)
  have one: "one_each (bcache s)" using cache_okD(5) [OF co] .
  show ?thesis
  proof (cases "\<exists>b < 30. holds (bcache s b) n")
    case True
    then obtain b where b: "b < 30" "holds (bcache s b) n" by blast
    then have bH: "b \<notin> H" using fresh by blast
    let ?bf = "(bcache s b)\<lparr>b_refcnt := 1, b_lock := mine_lock p s\<rparr>"
    obtain t where t: "bget 1 n s = Inr (b, t)" "calm p (s\<lparr>bcache := (bcache s)(b := ?bf)\<rparr>) t"
      using bget_hit [OF i co b(1) bH b(2)] by blast
    have fb: "free_buf (disk s) (bcache s b)" using cache_okD(4) [OF co b(1) bH] .
    have miss: "contents s n = disk s (unat n)" if "\<not> b_valid (bcache s b)"
      by (rule contents_miss) (use that b one_eachD [OF one] in metis)
    have "wp (if \<not> b_valid (bcache t b) then iderw b t else Inr t) (got p s H n b)"
      by (rule bread_fill [OF ok n t(2) b(1) bH])
        (use b fb miss contents_hit [OF one b] in \<open>auto simp: holds_def free_buf_def\<close>)
    then show ?thesis using t(1) by (auto simp: bread_def wp_bindr elim: wp_mono)
  next
    case False
    let ?bf = "\<lambda>b. (bcache s b)\<lparr>b_dev := 1, b_blockno := n, b_valid := False, b_dirty := False, b_refcnt := 1, b_lock := mine_lock p s\<rparr>"
    obtain b t where t: "bget 1 n s = Inr (b, t)" "b < 30" "b \<notin> H" "\<not> b_dirty (bcache s b)" "calm p (s\<lparr>bcache := (bcache s)(b := ?bf b)\<rparr>) t"
      using bget_miss [OF i co, of n] False room by blast
    have miss: "contents s n = disk s (unat n)" by (rule contents_miss) (use False in blast)
    have "wp (if \<not> b_valid (bcache t b) then iderw b t else Inr t) (got p s H n b)"
      by (rule bread_fill [OF ok n t(5,2,3)]) (use t False miss in \<open>auto simp: holds_def\<close>)
    then show ?thesis using t(1) by (auto simp: bread_def wp_bindr elim: wp_mono)
  qed
qed

lemma cache_ok_held:
  assumes ok: "cache_ok pid c d H" and b: "b \<in> H" and bf: "held_buf pid bf" "b_next bf = b_next (c b)" "b_prev bf = b_prev (c b)"
    "b_dev bf = b_dev (c b)" "b_blockno bf = b_blockno (c b)"
    and d: "\<And>n. n \<noteq> b_blockno (c b) \<or> b_dev (c b) \<noteq> 1 \<Longrightarrow> d' (unat n) = d (unat n)"
  shows "cache_ok pid (c(b := bf)) d' H"
proof -
  obtain xs where xs: "bufring c xs" using cache_okD(1) [OF ok] by blast
  have b30: "b < 30" using cache_okD(2) [OF ok] b by auto
  have h: "holds ((c(b := bf)) a) n = holds (c a) n" for a n using bf by (simp add: holds_def)
  show ?thesis
  proof (rule cache_okI)
    show "bufring (c(b := bf)) xs" using bufring_cong [of "c(b := bf)" c xs] xs bf(2,3) by auto
    show "H \<subseteq> {..<30}" using cache_okD(2) [OF ok] .
    show "held_buf pid ((c(b := bf)) a)" if "a \<in> H" for a using that cache_okD(3) [OF ok] bf(1) by auto
    show "free_buf d' ((c(b := bf)) a)" if a: "a < 30" "a \<notin> H" for a
    proof -
      have "a \<noteq> b" using a b by blast
      then have "b_dev (c a) = 1 \<Longrightarrow> b_blockno (c a) \<noteq> b_blockno (c b) \<or> b_dev (c b) \<noteq> 1"
        using one_eachD [OF cache_okD(5) [OF ok], of a "b_blockno (c b)" b] a(1) b30 by (auto simp: holds_def)
      then show ?thesis using cache_okD(4) [OF ok a] \<open>a \<noteq> b\<close> d by (auto simp: free_buf_def)
    qed
    show "one_each (c(b := bf))" using cache_okD(5) [OF ok] unfolding one_each_def h .
  qed
qed

lemma set_data_ok:
  assumes "bufs p H s" and "b \<in> H"
  shows "bufs p H (set_data b x s)" "bio p s (set_data b x s)"
proof -
  have "held_buf (p_pid (procs s p)) (bcache s b)" using assms cache_okD(3) by (auto simp: bufs_def)
  then show "bufs p H (set_data b x s)"
    using assms cache_ok_held [of "p_pid (procs s p)" "bcache s" "disk s" H b "(bcache s b)\<lparr>b_data := x\<rparr>" "disk s"]
    by (simp add: bufs_def set_data_def held_buf_def)
  show "bio p s (set_data b x s)" using assms(1) by (simp add: bufs_def set_data_def bio_upd_right bio_refl)
qed

lemma bwrite_ok:
  assumes ok: "bufs p H s" and b: "b \<in> H" "holds (bcache s b) n" and n: "n < disksize s"
  shows "wp (bwrite b s) (\<lambda>t. bio p s t \<and> bufs p H t \<and>
    disk t = (disk s)(unat n := copy_block (disk s (unat n)) (buf_data b s)) \<and>
    bcache t = (bcache s)(b := (bcache s b)\<lparr>b_dirty := False\<rparr>))"
proof -
  have i: "idle p s" and co: "cache_ok (p_pid (procs s p)) (bcache s) (disk s) H" using ok by (simp_all add: bufs_def)
  have hb: "held_buf (p_pid (procs s p)) (bcache s b)" using cache_okD(3) [OF co b(1)] .
  let ?s1 = "critical (Buf_lk b) s"
  note c1 = calm_critical [OF i, of "Buf_lk b"]
  let ?s2 = "upd_buf b (\<lambda>bf. bf\<lparr>b_dirty := True\<rparr>) ?s1"
  have f: "bcache ?s1 = bcache s" "disk ?s1 = disk s" "disksize ?s1 = disksize s" "procs ?s1 = procs s" by (simp_all add: critical_def)
  have i2: "idle p ?s2" using calm_idle [OF c1] by simp
  have m2: "sl_mine (Buf_sl b) p ?s2" using hb f by (simp add: sl_mine_def held_buf_def)
  let ?d = "(disk s)(unat n := copy_block (disk s (unat n)) (buf_data b s))"
  let ?bf = "(bcache s b)\<lparr>b_dirty := False\<rparr>"
  have "wp (iderw b ?s2) (calm p (?s2\<lparr>bcache := (bcache ?s2)(b := (bcache ?s2 b)\<lparr>b_dirty := False, b_valid := True\<rparr>),
    disk := (disk ?s2)(unat n := copy_block (disk ?s2 (unat n)) (b_data (bcache ?s2 b)))\<rparr>))"
    by (rule iderw_write [OF i2 m2]) (use b n f in \<open>simp_all add: holds_def\<close>)
  moreover have "bcache s b\<lparr>b_dirty := False, b_valid := True\<rparr> = ?bf" using hb by (cases "bcache s b") (simp add: held_buf_def)
  ultimately have w: "wp (iderw b ?s2) (calm p (?s1\<lparr>bcache := (bcache s)(b := ?bf), disk := ?d\<rparr>))"
    using f by (simp add: buf_data_def)
  have co': "cache_ok (p_pid (procs s p)) ((bcache s)(b := ?bf)) ?d H"
    by (rule cache_ok_held [OF co b(1)]) (use hb b(2) in \<open>auto simp: held_buf_def holds_def dest: unsigned_word_eqI\<close>)
  have "wp (iderw b ?s2) (\<lambda>t. bio p s t \<and> bufs p H t \<and> disk t = ?d \<and> bcache t = (bcache s)(b := ?bf))"
  proof (rule wp_mono [OF w])
    fix t
    assume c: "calm p (?s1\<lparr>bcache := (bcache s)(b := ?bf), disk := ?d\<rparr>) t"
    have "bio p s t" using bio_trans [OF bio_calm [OF c1], of t] bio_calm [OF c] by simp
    moreover have "bufs p H t" by (rule bufs_calm [OF c]) (use co' f in simp)
    ultimately show "bio p s t \<and> bufs p H t \<and> disk t = ?d \<and> bcache t = (bcache s)(b := ?bf)"
      using calm_fields(1,3) [OF c] by simp
  qed
  then show ?thesis using holdingsleep_idle [OF i, of "Buf_sl b"] held_mine [OF ok b(1)] by (simp add: bwrite_def)
qed


text \<open>Releasing a buffer: what it holds stays in the cache.\<close>

definition kept :: "buf \<Rightarrow> buf \<Rightarrow> bool" where
  "kept x y \<longleftrightarrow> b_dev x = b_dev y \<and> b_blockno x = b_blockno y \<and> b_valid x = b_valid y \<and> b_dirty x = b_dirty y \<and> b_data x = b_data y"

lemma kept_refl [simp]: "kept x x"
  by (simp add: kept_def)

lemma kept_trans: "kept x y \<Longrightarrow> kept y z \<Longrightarrow> kept x z"
  by (simp add: kept_def)

lemma kept_same_buf: "same_buf x y \<Longrightarrow> kept x y"
  using same_buf_fields [of x y] by (simp add: kept_def)

lemma kept_holds: "kept x y \<Longrightarrow> holds x n = holds y n"
  by (simp add: kept_def holds_def)

lemma contents_kept:
  assumes "\<And>a. a < 30 \<Longrightarrow> kept (bcache t a) (bcache s a)" and "disk t = disk s"
  shows "contents t n = contents s n"
proof -
  have e: "(holds (bcache t a) n \<and> b_valid (bcache t a)) = (holds (bcache s a) n \<and> b_valid (bcache s a))" "b_data (bcache t a) = b_data (bcache s a)"
    if "a < 30" for a using assms(1) [OF that] by (simp_all add: kept_def holds_def)
  have "find (\<lambda>b. holds (bcache t b) n \<and> b_valid (bcache t b)) [0..<30] = find (\<lambda>b. holds (bcache s b) n \<and> b_valid (bcache s b)) [0..<30]"
    by (rule find_cong) (simp_all add: e)
  moreover have "a < 30" if "find (\<lambda>b. holds (bcache s b) n \<and> b_valid (bcache s b)) [0..<30] = Some a" for a
    using that by (auto simp: find_Some_iff)
  ultimately show ?thesis using e(2) assms(2) by (auto simp: contents_def split: option.splits)
qed

lemma move_front_acq: "link_front b (unlink_buf b (acq l s)) = acq l (link_front b (unlink_buf b s))"
  "link_front b s = s\<lparr>bcache := bcache (link_front b s)\<rparr>" "unlink_buf b s = s\<lparr>bcache := bcache (unlink_buf b s)\<rparr>"
  by (simp_all add: link_front_def unlink_buf_def acq_def Let_def)

lemma cache_ok_put:
  assumes ok: "cache_ok pid c d H" and b: "b \<in> H" and c': "\<And>a. a \<noteq> b \<Longrightarrow> same_buf (c' a) (c a)" and ring: "bufring c' xs"
    and bf: "kept (c' b) (c b)" "\<not> sl_locked (b_lock (c' b))" "b_refcnt (c' b) = 0"
    and clean: "b_dev (c b) = 1 \<Longrightarrow> \<not> b_dirty (c b) \<Longrightarrow> same_block (b_data (c b)) (d (unat (b_blockno (c b))))"
  shows "cache_ok pid c' d (H - {b})"
proof (rule cache_okI [OF ring])
  have k: "kept (c' a) (c a)" for a using c' [of a] bf(1) kept_same_buf by (cases "a = b") auto
  show "H - {b} \<subseteq> {..<30}" using cache_okD(2) [OF ok] by blast
  show "held_buf pid (c' a)" if "a \<in> H - {b}" for a
    using cache_okD(3) [OF ok, of a] that same_buf_fields [OF c', of a] by (auto simp: held_buf_def)
  show "free_buf d (c' a)" if "a < 30" "a \<notin> H - {b}" for a
  proof (cases "a = b")
    case True
    have "b_valid (c b)" using cache_okD(3) [OF ok b] by (simp add: held_buf_def)
    then show ?thesis using True bf clean by (auto simp: free_buf_def kept_def)
  next
    case False
    then have "free_buf d (c a)" using cache_okD(4) [OF ok that(1)] that(2) by blast
    then show ?thesis using same_buf_fields [OF c' [OF False]] by (simp add: free_buf_def)
  qed
  show "one_each c'" using cache_okD(5) [OF ok] unfolding one_each_def kept_holds [OF k] .
qed

lemma brelse_tail:
  assumes i: "idle p t" and "b_refcnt (bcache t b) = 1"
  shows "wp (bindr (acquire Bcache_lock t) (\<lambda>s.
     let s = upd_buf b (\<lambda>bf. bf\<lparr>b_refcnt := b_refcnt bf - 1\<rparr>) s;
         s = (if b_refcnt (bcache s b) = 0 then link_front b (unlink_buf b s) else s)
     in release Bcache_lock s))
    (calm p (t\<lparr>bcache := bcache (link_front b (unlink_buf b (t\<lparr>bcache := (bcache t)(b := (bcache t b)\<lparr>b_refcnt := 0\<rparr>)\<rparr>)))\<rparr>))"
proof -
  let ?t = "t\<lparr>bcache := (bcache t)(b := (bcache t b)\<lparr>b_refcnt := 0\<rparr>)\<rparr>"
  let ?u = "link_front b (unlink_buf b ?t)"
  have u: "?u = t\<lparr>bcache := bcache ?u\<rparr>" by (simp add: link_front_def unlink_buf_def Let_def)
  then have iu: "idle p ?u" using i idle_upd(1) by metis
  have eq: "upd_buf b (\<lambda>bf. bf\<lparr>b_refcnt := b_refcnt bf - 1\<rparr>) (acq Bcache_lock t) = acq Bcache_lock ?t"
    using assms(2) by (simp add: acq_def)
  show ?thesis
    unfolding idle_acq(1) [OF i] bindr_simps Let_def eq
    using move_front_acq(1) [of b Bcache_lock ?t] release_acq [OF iu, of Bcache_lock] calm_critical [OF iu, of Bcache_lock] u
    by simp
qed

lemma brelse_ok:
  assumes ok: "bufs p H s" and b: "b \<in> H"
    and clean: "b_dev (bcache s b) = 1 \<Longrightarrow> \<not> b_dirty (bcache s b) \<Longrightarrow> same_block (buf_data b s) (disk s (unat (b_blockno (bcache s b))))"
  shows "wp (brelse b s) (\<lambda>t. bio p s t \<and> disk t = disk s \<and> bufs p (H - {b}) t \<and> (\<forall>a. kept (bcache t a) (bcache s a)))"
proof -
  have i: "idle p s" and co: "cache_ok (p_pid (procs s p)) (bcache s) (disk s) H" using ok by (simp_all add: bufs_def)
  have hb: "held_buf (p_pid (procs s p)) (bcache s b)" using cache_okD(3) [OF co b] .
  have b30: "b < 30" using cache_okD(2) [OF co] b by auto
  let ?s1 = "critical (Buf_lk b) s" and ?u = "\<lparr>sl_locked = False, sl_pid = 0\<rparr>"
  note c1 = calm_critical [OF i, of "Buf_lk b"]
  let ?bf = "(bcache s b)\<lparr>b_lock := ?u, b_refcnt := 0\<rparr>"
  let ?s3 = "s\<lparr>bcache := (bcache s)(b := ?bf)\<rparr>"
  let ?c = "bcache (link_front b (unlink_buf b ?s3))"
  have k: "same_buf (?c a) (((bcache s)(b := ?bf)) a)" for a
    using same_buf_trans [OF links_same_buf(1) [of b "unlink_buf b ?s3" a] links_same_buf(2) [of b ?s3 a]] by simp
  obtain xs where xs: "bufring (bcache s) xs" using cache_okD(1) [OF co] by blast
  have "bufring ((bcache s)(b := ?bf)) xs" using bufring_cong [of "(bcache s)(b := ?bf)" "bcache s" xs] xs by auto
  then obtain ys where ys: "bufring ?c ys" using bufring_to_front [of ?s3 xs b] b30 by auto
  have bb: "kept (?c b) (bcache s b)" "\<not> sl_locked (b_lock (?c b))" "b_refcnt (?c b) = 0"
    using same_buf_fields [OF k [of b]] by (simp_all add: kept_def)
  have co': "cache_ok (p_pid (procs s p)) ?c (disk s) (H - {b})"
  proof (rule cache_ok_put [OF co b _ ys bb])
    show "same_buf (?c a) (bcache s a)" if "a \<noteq> b" for a using k [of a] unfolding fun_upd_other [OF that] .
  qed (use clean in \<open>simp add: buf_data_def\<close>)
  have rel: "wp (releasesleep (Buf_sl b) ?s1) (calm p (sl_set (Buf_sl b) ?u ?s1))"
    by (rule releasesleep_idle [OF calm_idle [OF c1]])
  have "wp (brelse b s) (calm p (s\<lparr>bcache := ?c\<rparr>))"
    unfolding brelse_def holdingsleep_idle [OF i] bindr_simps prod.case
  proof (simp only: held_mine [OF ok b] sl_lk.simps not_True_eq_False panic_if_simps bindr_simps, rule wp_seq [OF rel])
    fix t
    assume c: "calm p (sl_set (Buf_sl b) ?u ?s1) t"
    have ct: "calm p (s\<lparr>bcache := (bcache s)(b := (bcache s b)\<lparr>b_lock := ?u\<rparr>)\<rparr>) t"
      using calm_trans [OF calm_sl_set [OF c1, of "Buf_sl b" ?u] c] by simp
    have bt: "bcache t = (bcache s)(b := (bcache s b)\<lparr>b_lock := ?u\<rparr>)" using calm_fields(1) [OF ct] by simp
    have "(bcache t)(b := (bcache t b)\<lparr>b_refcnt := 0\<rparr>) = (bcache s)(b := ?bf)" by (simp add: bt)
    then have "bcache (link_front b (unlink_buf b (t\<lparr>bcache := (bcache t)(b := (bcache t b)\<lparr>b_refcnt := 0\<rparr>)\<rparr>))) = ?c"
      by (simp add: link_front_def unlink_buf_def Let_def)
    moreover have "b_refcnt (bcache t b) = 1" using hb bt by (simp add: held_buf_def)
    moreover have "calm p (s\<lparr>bcache := ?c\<rparr>) (t\<lparr>bcache := ?c\<rparr>)" using calm_bcache [OF ct, of ?c] by simp
    ultimately show "wp (bindr (acquire Bcache_lock t) (\<lambda>s.
        let s = upd_buf b (\<lambda>bf. bf\<lparr>b_refcnt := b_refcnt bf - 1\<rparr>) s;
            s = (if b_refcnt (bcache s b) = 0 then link_front b (unlink_buf b s) else s)
        in release Bcache_lock s)) (calm p (s\<lparr>bcache := ?c\<rparr>))"
      using brelse_tail [OF calm_idle [OF ct], of b] calm_trans by (auto elim: wp_mono)
  qed
  then show ?thesis
  proof (rule wp_mono)
    fix t
    assume c: "calm p (s\<lparr>bcache := ?c\<rparr>) t"
    have "bio p s t" using bio_calm [OF c] by simp
    moreover have "bufs p (H - {b}) t" by (rule bufs_calm [OF c]) (use co' in simp)
    moreover have "kept (?c a) (bcache s a)" for a
      using kept_same_buf [OF k [of a]] kept_trans by (cases "a = b") (auto simp: bb(1))
    ultimately show "bio p s t \<and> disk t = disk s \<and> bufs p (H - {b}) t \<and> (\<forall>a. kept (bcache t a) (bcache s a))"
      using calm_fields(1,3) [OF c] by simp
  qed
qed

section \<open>Properties of the buffer cache\<close>

text \<open>A machine with one running process, an empty cache in the order \<^verbatim>\<open>binit\<close> leaves it, and a disk of 1000 blocks.\<close>

definition ring_buf :: "nat \<Rightarrow> buf" where
  "ring_buf b = zero_buf\<lparr>b_next := if b = 0 then 30 else b - 1, b_prev := if b = 30 then 0 else b + 1\<rparr>"

definition one_running :: kernel where
  "one_running = (lone (zero_proc\<lparr>p_state := RUNNING, p_pid := 1\<rparr>))\<lparr>cpus := (\<lambda>i. zero_cpu\<lparr>c_apicid := of_nat i, c_proc := Some 7\<rparr>),
     bcache := ring_buf, disksize := 1000\<rparr>"

lemma ring_buf_ring: "bufring ring_buf (rev [0..<30])"
proof -
  have "linked ring_buf (30 # rev [0..<30] @ [30])" by code_simp
  then show ?thesis by (auto simp: bufring_def)
qed

lemma one_running_idle: "idle 7 one_running"
proof -
  let ?q = "zero_proc\<lparr>p_state := RUNNING, p_pid := 1\<rparr>"
  have "sched_inv (lone ?q)" by (rule lone_inv) (simp_all add: zero_proc_def)
  then have "sched_inv one_running" using sched_view(1) [of one_running "lone ?q"] by (simp add: one_running_def)
  then show ?thesis by (auto simp: idle_def one_running_def cpu_view_def distinct_ids_def inj_on_def)
qed

lemma one_running_bufs: "bufs 7 {} one_running"
proof -
  have "cache_ok 1 ring_buf (\<lambda>_ _. 0) {}"
    by (rule cache_okI [OF ring_buf_ring])
      (auto simp: free_buf_def ring_buf_def one_each_def holds_def zero_buf_def zero_sleeplock_def)
  then show ?thesis using one_running_idle by (simp add: bufs_def one_running_def lone_def)
qed

lemma one_running_fields [simp]: "bcache one_running = ring_buf" "disksize one_running = 1000" "disk one_running = (\<lambda>_ _. 0)"
    "log_st one_running = zero_log" "p_pid (procs one_running 7) = 1"
  by (simp_all add: one_running_def lone_def)

text \<open>
  C14. Reading a block through the cache. With a buffer to spare, bread returns a buffer that is
  locked by the caller, holds the block asked for and has the block's current contents: what a
  cached copy has, modified or not, and what the disk has otherwise. No other buffer changes,
  the disk does not change, and no block changes its contents. The search of the list, the
  recycling of the least recently used buffer, the sleep lock and the disk read all return.
\<close>

theorem bread_coherent:
  assumes "bufs p H s" and "n < disksize s" and "\<forall>b \<in> H. \<not> holds (bcache s b) n" and "spare (bcache s) H"
  shows "\<exists>b t. bread 1 n s = Inr (b, t) \<and> b \<notin> H \<and> bufs p (insert b H) t \<and> holds (bcache t b) n \<and> b_valid (bcache t b) \<and>
    same_block (buf_data b t) (contents s n) \<and> disk t = disk s \<and> (\<forall>a. a \<noteq> b \<longrightarrow> bcache t a = bcache s a) \<and>
    (\<forall>m. same_block (contents t m) (contents s m))"
proof -
  obtain b t where r: "bread 1 n s = Inr (b, t)" and g: "got p s H n b t"
    using bread_got [OF assms(1,2)] assms(3,4) by (fastforce simp: wp_def split: sum.splits)
  have "held_buf (p_pid (procs t p)) (bcache t b)"
    using g cache_okD(3) [of _ _ _ "insert b H" b] by (auto simp: got_def bufs_def)
  then show ?thesis using r g by (auto simp: got_def held_buf_def)
qed

theorem bread_coherent_witness:
  "\<exists>b t. bread 1 5 one_running = Inr (b, t) \<and> holds (bcache t b) 5 \<and> same_block (buf_data b t) (\<lambda>_. 0)"
proof -
  have "spare (bcache one_running) {}" by (auto simp: spare_def ring_buf_def zero_buf_def intro: exI [of _ 0])
  moreover have "contents one_running 5 = (\<lambda>_. 0)"
    by (simp add: contents_def ring_buf_def zero_buf_def holds_def find_None_iff [THEN iffD2] split: option.split)
  ultimately show ?thesis using bread_coherent [OF one_running_bufs, of 5] by fastforce
qed

end
