(* ===== verification/Log.thy ===== *)
theory Log
  imports Bio
begin

text \<open>
  The write-ahead log (\<^verbatim>\<open>log.c\<close>). The header block holds the number of logged blocks and
  their home addresses; a transaction is on disk from the moment its header is.
\<close>

section \<open>Operations\<close>

text \<open>The superblock as \<^verbatim>\<open>readsb\<close> copies it out of block 1.\<close>

definition decode_sb :: "block \<Rightarrow> superblock" where
  "decode_sb d = \<lparr>sb_size = get32 d 0, sb_nblocks = get32 d 4, sb_ninodes = get32 d 8, sb_nlog = get32 d 12,
                  sb_logstart = get32 d 16, sb_inodestart = get32 d 20, sb_bmapstart = get32 d 24\<rparr>"

definition readsb :: "int \<Rightarrow> kernel \<Rightarrow> (superblock \<times> kernel) result" where
  "readsb dev s =
     bindr (bread (word_of_int dev) 1 s) (\<lambda>(bp, s).
     let sb = decode_sb (buf_data bp s) in
     bindr (brelse bp s) (\<lambda>s. Inr (sb, s)))"

abbreviation lh :: "kernel \<Rightarrow> logheader" where
  "lh s \<equiv> log_lh (log_st s)"

definition set_lh_n :: "int \<Rightarrow> kernel \<Rightarrow> kernel" where
  "set_lh_n n s = upd_log (\<lambda>l. l\<lparr>log_lh := (log_lh l)\<lparr>lh_n := n\<rparr>\<rparr>) s"

text \<open>\<^verbatim>\<open>log.lh.block[i]\<close>, an array of \<open>LOGSIZE\<close> entries.\<close>

definition lh_at :: "nat \<Rightarrow> kernel \<Rightarrow> int result" where
  "lh_at i s = bindr (in_bounds (i < nat LOGSIZE)) (\<lambda>_. Inr (lh_block (lh s) i))"

text \<open>Block number \<open>k\<close> of the log area, as the argument of \<^verbatim>\<open>bread\<close>.\<close>

definition log_blockno :: "nat \<Rightarrow> kernel \<Rightarrow> uint" where
  "log_blockno tail s = word_of_int (log_start (log_st s) + int tail + 1)"

definition log_devno :: "kernel \<Rightarrow> uint" where
  "log_devno s = word_of_int (log_dev (log_st s))"

definition install_one :: "nat \<Rightarrow> kernel \<Rightarrow> kernel result" where
  "install_one tail s =
     bindr (bread (log_devno s) (log_blockno tail s) s) (\<lambda>(lbuf, s).
     bindr (lh_at tail s) (\<lambda>bn.
     bindr (bread (log_devno s) (word_of_int bn) s) (\<lambda>(dbuf, s).
     let s = set_data dbuf (copy_block (buf_data dbuf s) (buf_data lbuf s)) s in
     bindr (bwrite dbuf s) (\<lambda>s.
     bindr (brelse lbuf s) (brelse dbuf)))))"

definition install_trans :: "kernel \<Rightarrow> kernel result" where
  "install_trans s = iter install_one [0..<nat (lh_n (lh s))] s"

text \<open>The header block: the count, then the block numbers.\<close>

definition read_head :: "kernel \<Rightarrow> kernel result" where
  "read_head s =
     bindr (bread (log_devno s) (word_of_int (log_start (log_st s))) s) (\<lambda>(buf, s).
     let d = buf_data buf s;
         s = set_lh_n (sint (get32 d 0)) s in
     bindr (iter (\<lambda>i s.
              bindr (in_bounds (i < nat LOGSIZE)) (\<lambda>_.
              Inr (upd_log (\<lambda>l. l\<lparr>log_lh := (log_lh l)
                     \<lparr>lh_block := (lh_block (log_lh l))(i := sint (get32 d (4 + 4 * i)))\<rparr>\<rparr>) s)))
              [0..<nat (lh_n (lh s))] s)
       (brelse buf))"

definition encode_head :: "logheader \<Rightarrow> block \<Rightarrow> block" where
  "encode_head h d =
     fold (\<lambda>i. put32 (4 + 4 * i) (word_of_int (lh_block h i))) [0..<nat (lh_n h)]
       (put32 0 (word_of_int (lh_n h)) d)"

definition write_head :: "kernel \<Rightarrow> kernel result" where
  "write_head s =
     bindr (bread (log_devno s) (word_of_int (log_start (log_st s))) s) (\<lambda>(buf, s).
     bindr (in_bounds (lh_n (lh s) \<le> LOGSIZE)) (\<lambda>_.
     let s = set_data buf (encode_head (lh s) (buf_data buf s)) s in
     bindr (bwrite buf s) (brelse buf)))"

definition recover_from_log :: "kernel \<Rightarrow> kernel result" where
  "recover_from_log s =
     bindr (read_head s) (\<lambda>s.
     bindr (install_trans s) (\<lambda>s.
     write_head (set_lh_n 0 s)))"

definition initlog :: "int \<Rightarrow> kernel \<Rightarrow> kernel result" where
  "initlog dev s =
     bindr (panic_if (4 + 4 * LOGSIZE \<ge> int BSIZE) ''initlog: too big logheader'') (\<lambda>_.
     let s = initlock Log_lock s in
     bindr (readsb dev s) (\<lambda>(sb, s).
     recover_from_log (upd_log (\<lambda>l. l\<lparr>log_start := sint (sb_logstart sb), log_size := sint (sb_nlog sb),
                                      log_dev := dev\<rparr>) s)))"

definition begin_op_pass :: "kernel \<Rightarrow> (wait \<times> kernel) result" where
  "begin_op_pass s =
     (if log_committing (log_st s) \<or>
         lh_n (lh s) + (log_outstanding (log_st s) + 1) * MAXOPBLOCKS > LOGSIZE
      then bindr (sleep_enter (Some Chan_log) (Some Log_lock) s) (\<lambda>(b, s). Inr (Sleeps b, s))
      else
        let s = upd_log (\<lambda>l. l\<lparr>log_outstanding := log_outstanding l + 1\<rparr>) s in
        bindr (release Log_lock s) (\<lambda>s. Inr (Returns 0, s)))"

definition begin_op_enter :: "kernel \<Rightarrow> (wait \<times> kernel) result" where
  "begin_op_enter s = bindr (acquire Log_lock s) begin_op_pass"

definition begin_op_again :: "nat \<Rightarrow> bool \<Rightarrow> kernel \<Rightarrow> (wait \<times> kernel) result" where
  "begin_op_again p intena s = bindr (sleep_exit p Log_lock intena s) begin_op_pass"

definition begin_op :: "kernel \<Rightarrow> kernel result" where
  "begin_op s = bindr (one_go (begin_op_enter s)) (\<lambda>(_, s). Inr s)"

definition write_log_one :: "nat \<Rightarrow> kernel \<Rightarrow> kernel result" where
  "write_log_one tail s =
     bindr (bread (log_devno s) (log_blockno tail s) s) (\<lambda>(to, s).
     bindr (lh_at tail s) (\<lambda>bn.
     bindr (bread (log_devno s) (word_of_int bn) s) (\<lambda>(from, s).
     let s = set_data to (copy_block (buf_data to s) (buf_data from s)) s in
     bindr (bwrite to s) (\<lambda>s.
     bindr (brelse from s) (brelse to)))))"

definition write_log :: "kernel \<Rightarrow> kernel result" where
  "write_log s = iter write_log_one [0..<nat (lh_n (lh s))] s"

definition commit :: "kernel \<Rightarrow> kernel result" where
  "commit s =
     (if lh_n (lh s) > 0 then
        bindr (write_log s) (\<lambda>s.
        bindr (write_head s) (\<lambda>s.
        bindr (install_trans s) (\<lambda>s.
        write_head (set_lh_n 0 s))))
      else Inr s)"

definition end_op :: "kernel \<Rightarrow> kernel result" where
  "end_op s =
     bindr (acquire Log_lock s) (\<lambda>s.
     let s = upd_log (\<lambda>l. l\<lparr>log_outstanding := log_outstanding l - 1\<rparr>) s in
     bindr (panic_if (log_committing (log_st s)) ''log.committing'') (\<lambda>_.
     if log_outstanding (log_st s) = 0 then
       let s = upd_log (\<lambda>l. l\<lparr>log_committing := True\<rparr>) s in
       bindr (release Log_lock s) (\<lambda>s.
       bindr (commit s) (\<lambda>s.
       bindr (acquire Log_lock s) (\<lambda>s.
       let s = upd_log (\<lambda>l. l\<lparr>log_committing := False\<rparr>) s in
       bindr (wakeup (Some Chan_log) s) (release Log_lock))))
     else bindr (wakeup (Some Chan_log) s) (release Log_lock)))"

text \<open>The search for an earlier entry of the same block (log absorption).\<close>

definition log_slot :: "logheader \<Rightarrow> uint \<Rightarrow> nat" where
  "log_slot h bn =
     (case find (\<lambda>i. (word_of_int (lh_block h i) :: uint) = bn) [0..<nat (lh_n h)] of
        Some i \<Rightarrow> i | None \<Rightarrow> nat (lh_n h))"

definition log_write :: "nat \<Rightarrow> kernel \<Rightarrow> kernel result" where
  "log_write b s =
     bindr (panic_if (lh_n (lh s) \<ge> LOGSIZE \<or> lh_n (lh s) \<ge> log_size (log_st s) - 1)
              ''too big a transaction'') (\<lambda>_.
     bindr (panic_if (log_outstanding (log_st s) < 1) ''log_write outside of trans'') (\<lambda>_.
     bindr (acquire Log_lock s) (\<lambda>s.
     let bn = b_blockno (bcache s b); i = log_slot (lh s) bn;
         s = upd_log (\<lambda>l. l\<lparr>log_lh := (log_lh l)\<lparr>lh_block := (lh_block (log_lh l))(i := sint bn)\<rparr>\<rparr>) s;
         s = (if int i = lh_n (lh s) then set_lh_n (lh_n (lh s) + 1) s else s);
         s = upd_buf b (\<lambda>bf. bf\<lparr>b_dirty := True\<rparr>) s
     in release Log_lock s)))"

end
