(* ===== verification/Cstring.thy ===== *)
theory Cstring
  imports Mmu
begin

text \<open>
  The kernel's string library (\<^verbatim>\<open>string.c\<close>). \<^verbatim>\<open>memset\<close>, \<^verbatim>\<open>memmove\<close> and \<^verbatim>\<open>memcmp\<close> work on the
  flat memory at word addresses; the string functions work on a byte sequence seen
  from a pointer, a function from offsets. \<^verbatim>\<open>stosb\<close> and \<^verbatim>\<open>stosl\<close> are the string-store
  instructions of \<^verbatim>\<open>x86.h\<close>.
\<close>

section \<open>Memory\<close>

primrec stosb :: "uint \<Rightarrow> uchar \<Rightarrow> nat \<Rightarrow> memory \<Rightarrow> memory" where
  "stosb addr data 0 m = m"
| "stosb addr data (Suc cnt) m = stosb (addr + 1) data cnt (m(addr := data))"

primrec stosl :: "uint \<Rightarrow> uint \<Rightarrow> nat \<Rightarrow> memory \<Rightarrow> memory" where
  "stosl addr data 0 m = m"
| "stosl addr data (Suc cnt) m = stosl (addr + 4) data cnt (store32 addr data m)"

text \<open>\<^verbatim>\<open>(int)dst % 4 == 0\<close> tests the two low bits, as the unsigned remainder does.\<close>

definition memset :: "uint \<Rightarrow> uint \<Rightarrow> uint \<Rightarrow> memory \<Rightarrow> memory" where
  "memset dst c n m =
     (if dst mod 4 = 0 \<and> n mod 4 = 0 then
        let c = c AND 0xFF in
        stosl dst (push_bit 24 c OR push_bit 16 c OR push_bit 8 c OR c) (unat (n div 4)) m
      else stosb dst (ucast c) (unat n) m)"

primrec memcmp_loop :: "memory \<Rightarrow> uint \<Rightarrow> uint \<Rightarrow> nat \<Rightarrow> int" where
  "memcmp_loop m s1 s2 0 = 0"
| "memcmp_loop m s1 s2 (Suc n) =
     (if m s1 \<noteq> m s2 then uint (m s1) - uint (m s2) else memcmp_loop m (s1 + 1) (s2 + 1) n)"

definition memcmp :: "memory \<Rightarrow> uint \<Rightarrow> uint \<Rightarrow> uint \<Rightarrow> int" where
  "memcmp m v1 v2 n = memcmp_loop m v1 v2 (unat n)"

primrec copy_down :: "uint \<Rightarrow> uint \<Rightarrow> nat \<Rightarrow> memory \<Rightarrow> memory" where
  "copy_down d s 0 m = m"
| "copy_down d s (Suc n) m = copy_down (d - 1) (s - 1) n (m(d - 1 := m (s - 1)))"

primrec copy_up :: "uint \<Rightarrow> uint \<Rightarrow> nat \<Rightarrow> memory \<Rightarrow> memory" where
  "copy_up d s 0 m = m"
| "copy_up d s (Suc n) m = copy_up (d + 1) (s + 1) n (m(d := m s))"

definition memmove :: "uint \<Rightarrow> uint \<Rightarrow> uint \<Rightarrow> memory \<Rightarrow> memory" where
  "memmove dst src n m =
     (if src < dst \<and> src + n > dst
      then copy_down (dst + n) (src + n) (unat n) m
      else copy_up dst src (unat n) m)"

definition memcpy :: "uint \<Rightarrow> uint \<Rightarrow> uint \<Rightarrow> memory \<Rightarrow> memory" where
  "memcpy dst src n m = memmove dst src n m"

section \<open>Strings\<close>

type_synonym bytes = "nat \<Rightarrow> uchar"

text \<open>The bytes from address \<open>a\<close> on, and from offset \<open>k\<close> of a sequence on.\<close>

definition bytes_at :: "memory \<Rightarrow> uint \<Rightarrow> bytes" where
  "bytes_at m a i = m (a + of_nat i)"

definition drop_bytes :: "nat \<Rightarrow> bytes \<Rightarrow> bytes" where
  "drop_bytes k b i = b (k + i)"

primrec strncmp_loop :: "nat \<Rightarrow> nat \<Rightarrow> bytes \<Rightarrow> bytes \<Rightarrow> int" where
  "strncmp_loop 0 i p q = 0"
| "strncmp_loop (Suc n) i p q =
     (if p i \<noteq> 0 \<and> p i = q i then strncmp_loop n (Suc i) p q else uint (p i) - uint (q i))"

definition strncmp :: "bytes \<Rightarrow> bytes \<Rightarrow> uint \<Rightarrow> int" where
  "strncmp p q n = strncmp_loop (unat n) 0 p q"

primrec zero_fill :: "nat \<Rightarrow> nat \<Rightarrow> bytes \<Rightarrow> bytes" where
  "zero_fill 0 i s = s"
| "zero_fill (Suc n) i s = zero_fill n (Suc i) (s(i := 0))"

primrec strncpy_loop :: "nat \<Rightarrow> nat \<Rightarrow> bytes \<Rightarrow> bytes \<Rightarrow> bytes" where
  "strncpy_loop 0 i t s = s"
| "strncpy_loop (Suc n) i t s =
     (let s = s(i := t i) in
      if t i \<noteq> 0 then strncpy_loop n (Suc i) t s else zero_fill n (Suc i) s)"

definition strncpy :: "bytes \<Rightarrow> bytes \<Rightarrow> int \<Rightarrow> bytes" where
  "strncpy s t n = strncpy_loop (nat n) 0 t s"

primrec safestrcpy_loop :: "nat \<Rightarrow> nat \<Rightarrow> bytes \<Rightarrow> bytes \<Rightarrow> bytes" where
  "safestrcpy_loop 0 i t s = s(i := 0)"
| "safestrcpy_loop (Suc n) i t s =
     (let s = s(i := t i) in
      if t i \<noteq> 0 then safestrcpy_loop n (Suc i) t s else s(Suc i := 0))"

definition safestrcpy :: "bytes \<Rightarrow> bytes \<Rightarrow> int \<Rightarrow> bytes" where
  "safestrcpy s t n = (if n \<le> 0 then s else safestrcpy_loop (nat (n - 1)) 0 t s)"

partial_function (option) strlen_from :: "nat \<Rightarrow> bytes \<Rightarrow> nat option" where
  "strlen_from n s = (if s n = 0 then Some n else strlen_from (Suc n) s)"

definition strlen :: "bytes \<Rightarrow> nat option" where
  "strlen s = strlen_from 0 s"

section \<open>What the memory functions compute\<close>

text \<open>Offsets from a base address, with the wrap of 32-bit addresses.\<close>

lemma sub_less_Suc:
  assumes "n < 2 ^ 32"
  shows "unat (x - a :: uint) < Suc n \<longleftrightarrow> x = a \<or> unat (x - (a + 1)) < n"
proof (cases "x = a")
  case True
  then show ?thesis by simp
next
  case False
  then have "unat (x - a) \<noteq> 0" by (simp add: unat_eq_0)
  moreover have "unat (x - (a + 1)) = unat (x - a) - 1"
    using False unat_minus_one [of "x - a"] by (simp add: diff_diff_eq)
  ultimately show ?thesis using False by auto
qed

lemma mod_sum_zero: "(x + y) mod k = 0 \<Longrightarrow> 0 < x \<Longrightarrow> x < k \<Longrightarrow> y < k \<Longrightarrow> x = k - (y :: nat)"
  by (cases "x + y < k") (auto simp: le_mod_geq)

lemma unat_sub_swap:
  assumes "a \<noteq> (b :: uint)"
  shows "unat (a - b) = 2 ^ 32 - unat (b - a)"
proof -
  have "(unat (a - b) + unat (b - a)) mod 2 ^ 32 = unat ((a - b) + (b - a))"
    by (simp only: unat_word_ariths len_num0 len_num1 len_bit0) simp
  then have "(unat (a - b) + unat (b - a)) mod 2 ^ 32 = 0" by simp
  moreover have "0 < unat (a - b)" using assms by (simp add: unat_gt_0)
  moreover have "unat (a - b) < 2 ^ 32" "unat (b - a) < 2 ^ 32"
    using unat32_bound [of "a - b"] unat32_bound [of "b - a"] by simp_all
  ultimately show ?thesis by (rule mod_sum_zero)
qed

lemma stosb_eq:
  assumes "n < 2 ^ 32"
  shows "stosb a c n m x = (if unat (x - a) < n then c else m x)"
  using assms
proof (induction n arbitrary: a m)
  case 0
  then show ?case by simp
next
  case (Suc n)
  from Suc.prems have n: "n < 2 ^ 32" by simp
  show ?case
    by (simp add: Suc.IH [OF n] sub_less_Suc [OF n])
qed

text \<open>A word whose four bytes are equal is stored as four equal bytes.\<close>

lemma store32_same_bytes:
  assumes "\<And>k. k < 4 \<Longrightarrow> byte_of k w = c"
  shows "store32 a w m = stosb a c 4 m"
  using assms [of 0] assms [of 1] assms [of 2] assms [of 3]
  by (simp add: store32_def numeral_eq_Suc add.assoc)

lemma stosb_add: "stosb a c (j + k) m = stosb (a + of_nat j) c k (stosb a c j m)"
  by (induction j arbitrary: a m) (simp_all add: add.assoc)

lemma stosl_stosb:
  assumes "\<And>k. k < 4 \<Longrightarrow> byte_of k w = c"
  shows "stosl a w n m = stosb a c (4 * n) m"
proof (induction n arbitrary: a m)
  case 0
  then show ?case by simp
next
  case (Suc n)
  have "stosb a c (4 * Suc n) m = stosb (a + 4) c (4 * n) (stosb a c 4 m)"
    using stosb_add [of a c 4 "4 * n" m] by simp
  then show ?case by (simp add: Suc.IH store32_same_bytes [of w c, OF assms])
qed

lemma byte_of_repeated:
  fixes c :: uint
  assumes "k < 4"
  defines "d \<equiv> c AND 0xFF"
  shows "byte_of k (push_bit 24 d OR push_bit 16 d OR push_bit 8 d OR d) = ucast c"
proof -
  have d: "d = take_bit 8 c"
    by (simp add: d_def take_bit_eq_mask mask_eq_exp_minus_1)
  have "push_bit 24 d OR push_bit 16 d OR push_bit 8 d OR d = word_of (ucast c) (ucast c) (ucast c) (ucast c)"
    unfolding d word_of_def by (rule bit_word_eqI) (auto simp: bit_simps)
  moreover have "k = 0 \<or> k = 1 \<or> k = 2 \<or> k = 3" using assms(1) by auto
  ultimately show ?thesis by auto
qed

lemma memset_eq:
  "memset dst c n m x = (if x - dst < n then ucast c else m x)"
proof (cases "dst mod 4 = 0 \<and> n mod 4 = 0")
  case True
  have "unat n mod 4 = 0" using True unat_mod_distrib [of n 4] by simp
  then have "4 * unat (n div 4) = unat n" by (auto simp: unat_div_distrib)
  moreover have "unat n < 2 ^ 32" using unat32_bound [of n] by simp
  moreover have "memset dst c n m = stosb dst (ucast c) (4 * unat (n div 4)) m"
    using True stosl_stosb [OF byte_of_repeated] by (simp only: memset_def Let_def if_P)
  ultimately show ?thesis by (simp add: stosb_eq word_less_nat_alt)
next
  case False
  have "unat n < 2 ^ 32" using unat32_bound [of n] by simp
  with False show ?thesis by (auto simp: memset_def stosb_eq word_less_nat_alt)
qed

text \<open>
  C28. memset fills. Whether it takes the word-at-a-time or the byte-at-a-time path, and
  whatever the memory held, the \<open>n\<close> bytes from \<open>dst\<close> on become the low byte of \<open>c\<close> and every
  other byte keeps its value.
\<close>

theorem memset_fills:
  "memset dst c n m x = (if x - dst < n then ucast c else m x)"
  by (rule memset_eq)

lemma copy_up_eq:
  assumes "n < 2 ^ 32" and apart: "d = s \<or> n \<le> unat (d - s)"
  shows "copy_up d s n m x = (if unat (x - d) < n then m (s + (x - d)) else m x)"
  using assms
proof (induction n arbitrary: d s m x)
  case 0
  then show ?case by simp
next
  case (Suc n)
  have n: "n < 2 ^ 32" using Suc.prems by simp
  have "(d + 1) = (s + 1) \<or> n \<le> unat (d + 1 - (s + 1))" using Suc.prems(2) by auto
  note IH = Suc.IH [OF n this]
  show ?case
  proof (cases "x = d")
    case True
    have "unat (d - (d + 1)) = 2 ^ 32 - 1" by (simp add: unsigned_minus_1_eq_mask mask_eq_exp_minus_1)
    with True n show ?thesis by (simp add: IH)
  next
    case False
    have eq: "s + 1 + (x - (d + 1)) = s + (x - d)" by simp
    have "s + (x - d) \<noteq> d" if "unat (x - (d + 1)) < n"
    proof
      assume "s + (x - d) = d"
      then have "d - s = x - d" by (simp add: algebra_simps)
      moreover have "d \<noteq> s" using calculation False by auto
      ultimately have "Suc n \<le> unat (x - d)" using Suc.prems(2) by auto
      moreover have "unat (x - d) < Suc n" using that sub_less_Suc [OF n, of x d] by simp
      ultimately show False by simp
    qed
    then show ?thesis
      using False by (auto simp: IH eq sub_less_Suc [OF n])
  qed
qed

lemma copy_down_eq:
  assumes "n < 2 ^ 32" and apart: "d = s \<or> n \<le> unat (s - d)"
  shows "copy_down (d + of_nat n) (s + of_nat n) n m x = (if unat (x - d) < n then m (s + (x - d)) else m x)"
  using assms(1) apart
proof (induction n arbitrary: m x)
  case 0
  then show ?case by simp
next
  case (Suc n)
  have n: "n < 2 ^ 32" using Suc.prems by simp
  have "d = s \<or> n \<le> unat (s - d)" using Suc.prems(2) by auto
  note IH = Suc.IH [OF n this]
  have at: "unat (x - d) < Suc n \<longleftrightarrow> unat (x - d) < n \<or> x = d + of_nat n"
  proof -
    have "unat (x - d) = n \<longleftrightarrow> x - d = of_nat n"
      using n by (auto simp: word_unat_eq_iff unat_of_nat)
    then show ?thesis by (auto simp: less_Suc_eq diff_eq_eq add.commute)
  qed
  show ?case
  proof (cases "x = d + of_nat n")
    case True
    then have "unat (x - d) = n" using n by (simp add: unat_of_nat)
    with True show ?thesis by (simp add: IH)
  next
    case False
    have "s + (x - d) \<noteq> d + of_nat n" if "unat (x - d) < n"
    proof
      assume e: "s + (x - d) = d + of_nat n"
      then have sd: "s - d = of_nat n - (x - d)" by (simp add: algebra_simps)
      have "unat (of_nat n - (x - d)) = n - unat (x - d)"
        using n that by (subst unat_sub) (simp_all add: word_le_nat_alt unat_of_nat)
      with sd have "unat (s - d) = n - unat (x - d)" by (simp only:)
      with Suc.prems(2) have "d = s" by auto
      with e have "x = d + of_nat n" by (simp add: algebra_simps)
      with False show False ..
    qed
    then show ?thesis
      using False by (auto simp: IH at)
  qed
qed

lemma memmove_eq:
  assumes "unat src + unat n < 2 ^ 32" and "unat dst + unat n \<le> 2 ^ 32"
  shows "memmove dst src n m x = (if x - dst < n then m (src + (x - dst)) else m x)"
proof (cases "src < dst \<and> src + n > dst")
  case True
  have "unat n \<le> unat (src - dst)"
  proof -
    have "unat (dst - src) = unat dst - unat src"
      using True by (intro unat_sub32) (simp add: word_less_nat_alt)
    moreover have "unat (src - dst) = 2 ^ 32 - unat (dst - src)"
      using True by (intro unat_sub_swap) auto
    ultimately show ?thesis using assms(2) True by (simp add: word_less_nat_alt)
  qed
  then show ?thesis
    using True copy_down_eq [of "unat n" dst src m x] unat32_bound [of n]
    by (simp add: memmove_def word_less_nat_alt)
next
  case False
  have "dst = src \<or> unat n \<le> unat (dst - src)"
  proof (cases "src < dst")
    case True
    then have "src + n \<le> dst" using False by auto
    then have "unat src + unat n \<le> unat dst"
      using assms(1) unat_add32 [of src n] by (simp add: word_le_nat_alt)
    moreover have "unat (dst - src) = unat dst - unat src"
      using True by (intro unat_sub32) (simp add: word_less_nat_alt)
    ultimately show ?thesis by linarith
  next
    case False
    then have "unat (src - dst) = unat src - unat dst"
      by (intro unat_sub32) (simp add: word_less_nat_alt)
    moreover have "unat (dst - src) = 2 ^ 32 - unat (src - dst)" if "dst \<noteq> src"
      using that by (rule unat_sub_swap)
    ultimately show ?thesis using assms(1) by (cases "dst = src") auto
  qed
  then show ?thesis
    using copy_up_eq [of "unat n" dst src m x] unat32_bound [of n]
    unfolding memmove_def if_not_P [OF False] by (simp add: word_less_nat_alt)
qed

text \<open>
  C27. memmove copies, also between overlapping regions. As long as neither region reaches
  past the end of the address space, every byte of the destination becomes the byte that
  was at the same offset of the source before the call, and no other byte changes.
\<close>

theorem memmove_copies:
  assumes "unat src + unat n < 2 ^ 32" and "unat dst + unat n \<le> 2 ^ 32"
  shows "memmove dst src n m x = (if x - dst < n then m (src + (x - dst)) else m x)"
  using assms by (rule memmove_eq)

theorem memmove_copies_witness:
  "memmove 0x1001 0x1000 4 ucast 0x1003 = (2 :: uchar) \<and> memmove 0x1000 0x1001 4 ucast 0x1003 = (4 :: uchar)"
  using memmove_copies [of "0x1000" 4 "0x1001" ucast "0x1003"] memmove_copies [of "0x1001" 4 "0x1000" ucast "0x1003"]
  by simp

text \<open>memcmp tells the first difference.\<close>

lemma memcmp_loop_zero:
  "memcmp_loop m a b n = 0 \<longleftrightarrow> (\<forall>i < n. m (a + of_nat i) = m (b + of_nat i))"
proof (induction n arbitrary: a b)
  case 0
  then show ?case by simp
next
  case (Suc n)
  have "(\<forall>i < Suc n. P i) \<longleftrightarrow> P 0 \<and> (\<forall>i < n. P (Suc i))" for P
    by (auto simp: less_Suc_eq_0_disj)
  then show ?case by (auto simp: Suc.IH add.assoc word_uint_eq_iff)
qed

section \<open>What the string functions compute\<close>

text \<open>The length of a string: the first offset that holds a zero byte.\<close>

definition nul_at :: "bytes \<Rightarrow> nat \<Rightarrow> bool" where
  "nul_at s n \<longleftrightarrow> s n = 0 \<and> (\<forall>i < n. s i \<noteq> 0)"

lemma strlen_from_sound: "strlen_from k s = Some n \<Longrightarrow> k \<le> n \<and> s n = 0 \<and> (\<forall>i. k \<le> i \<and> i < n \<longrightarrow> s i \<noteq> 0)"
proof (rule strlen_from.raw_induct [where P = "\<lambda>k s n. k \<le> n \<and> s n = 0 \<and> (\<forall>i. k \<le> i \<and> i < n \<longrightarrow> s i \<noteq> 0)"])
  fix f k s n
  assume step: "\<And>k s n. f k s = Some n \<Longrightarrow> k \<le> n \<and> s n = (0 :: uchar) \<and> (\<forall>i. k \<le> i \<and> i < n \<longrightarrow> s i \<noteq> 0)"
    and "(if s k = 0 then Some k else f (Suc k) s) = Some n"
  then show "k \<le> n \<and> s n = 0 \<and> (\<forall>i. k \<le> i \<and> i < n \<longrightarrow> s i \<noteq> 0)"
    by (auto split: if_splits dest!: step) (metis Suc_leI le_neq_implies_less)
qed

lemma strlen_from_complete:
  assumes "k \<le> n" and "nul_at s n"
  shows "strlen_from k s = Some n"
  using assms(1)
proof (induction k rule: inc_induct)
  case base
  from assms(2) show ?case by (subst strlen_from.simps) (simp add: nul_at_def)
next
  case (step k)
  with assms(2) show ?case by (subst strlen_from.simps) (simp add: nul_at_def)
qed


text \<open>What \<open>safestrcpy\<close> promises of a result: a terminator within \<open>n\<close> bytes after a prefix of \<open>t\<close>.\<close>

definition copied :: "nat \<Rightarrow> nat \<Rightarrow> bytes \<Rightarrow> bytes \<Rightarrow> bytes \<Rightarrow> nat \<Rightarrow> bool" where
  "copied i n t s r k \<longleftrightarrow> i \<le> k \<and> k \<le> i + n \<and> r k = 0 \<and> (\<forall>j. i \<le> j \<and> j < k \<longrightarrow> t j \<noteq> 0 \<and> r j = t j) \<and>
     (k < i + n \<longrightarrow> t k = 0) \<and> (\<forall>j. j < i \<or> i + n < j \<longrightarrow> r j = s j)"

lemma copied_step:
  assumes "copied (Suc i) n t (s(i := t i)) r k" and "t i \<noteq> 0"
  shows "copied i (Suc n) t s r k"
proof -
  have "r j = t j" "t j \<noteq> 0" if "i \<le> j" "j < k" for j
    using assms that by (cases "j = i"; auto simp: copied_def)+
  with assms(1) show ?thesis by (auto simp: copied_def)
qed

lemma safestrcpy_loop_copied: "\<exists>k. copied i n t s (safestrcpy_loop n i t s) k"
proof (induction n arbitrary: i s)
  case 0
  then show ?case by (intro exI [of _ i]) (simp add: copied_def)
next
  case (Suc n)
  show ?case
  proof (cases "t i = 0")
    case True
    then show ?thesis by (intro exI [of _ i]) (simp add: copied_def)
  next
    case False
    from Suc.IH [of "Suc i" "s(i := t i)"] obtain k where
      "copied (Suc i) n t (s(i := t i)) (safestrcpy_loop n (Suc i) t (s(i := t i))) k" ..
    from copied_step [OF this False] False show ?thesis by (intro exI [of _ k]) (simp add: Let_def)
  qed
qed

text \<open>
  C30. safestrcpy always terminates its result inside the \<open>n\<close> bytes it is given: the result
  holds the longest prefix of the source that fits with its terminator, and no byte from
  offset \<open>n\<close> on is written.
\<close>

theorem safestrcpy_terminated:
  assumes "0 < n"
  shows "\<exists>k. nul_at (safestrcpy s t n) k \<and> int k < n \<and> (int k = n - 1 \<or> nul_at t k) \<and>
    (\<forall>j. (j < k \<longrightarrow> safestrcpy s t n j = t j) \<and> (n \<le> int j \<longrightarrow> safestrcpy s t n j = s j))"
proof -
  obtain k where "copied 0 (nat (n - 1)) t s (safestrcpy s t n) k"
    using safestrcpy_loop_copied [of 0 "nat (n - 1)" t s] assms by (auto simp: safestrcpy_def)
  with assms show ?thesis by (intro exI [of _ k]) (auto simp: copied_def nul_at_def)
qed

theorem safestrcpy_terminated_witness:
  "\<exists>k. nul_at (safestrcpy (\<lambda>_. 7) (\<lambda>_. 65) 4) k \<and> k < 4 \<and> safestrcpy (\<lambda>_. 7) (\<lambda>_. 65) 4 4 = 7"
proof -
  from safestrcpy_terminated [of 4 "\<lambda>_. 7" "\<lambda>_. 65"] obtain k where
    "nul_at (safestrcpy (\<lambda>_. 7) (\<lambda>_. 65) 4) k" "int k < 4"
    "\<forall>j. 4 \<le> int j \<longrightarrow> safestrcpy (\<lambda>_. 7) (\<lambda>_. 65) 4 j = 7" by auto
  then show ?thesis by (intro exI [of _ k]) auto
qed

end
