(* ===== verification/Kalloc.thy ===== *)
theory Kalloc
  imports Spinlock Cstring
begin

text \<open>
  The page allocator (\<^verbatim>\<open>kalloc.c\<close>): a free list threaded through the free pages
  themselves, and a reference count per page for copy-on-write. The count is an
  \<^verbatim>\<open>unsigned char\<close> and wraps at 256.
\<close>

section \<open>Operations\<close>

definition NUMPAGES :: nat where [simp]: "NUMPAGES = 57344"

definition PAGEINDEX :: "uint \<Rightarrow> nat" where
  "PAGEINDEX va = unat (V2P va div PGSIZE)"

text \<open>\<^verbatim>\<open>if(kmem.use_lock) acquire(&kmem.lock);\<close> and its counterpart.\<close>

definition kmem_acquire :: "kernel \<Rightarrow> kernel result" where
  "kmem_acquire s = (if use_lock s then acquire Kmem_lock s else Inr s)"

definition kmem_release :: "kernel \<Rightarrow> kernel result" where
  "kmem_release s = (if use_lock s then release Kmem_lock s else Inr s)"

definition set_count :: "uint \<Rightarrow> (uchar \<Rightarrow> uchar) \<Rightarrow> kernel \<Rightarrow> kernel result" where
  "set_count v f s =
     bindr (in_bounds (PAGEINDEX v < NUMPAGES)) (\<lambda>_.
     Inr (s\<lparr>cow_count := (cow_count s)(PAGEINDEX v := f (cow_count s (PAGEINDEX v)))\<rparr>))"

definition kfree :: "uint \<Rightarrow> kernel \<Rightarrow> kernel result" where
  "kfree v s =
     bindr (panic_if (v mod PGSIZE \<noteq> 0 \<or> v < kend s \<or> V2P v \<ge> PHYSTOP) ''kfree'') (\<lambda>_.
     let s = s\<lparr>mem := memset v 1 PGSIZE (mem s)\<rparr> in
     bindr (kmem_acquire s) (\<lambda>s.
     let s = s\<lparr>mem := store32 v (freelist s) (mem s)\<rparr> in
     bindr (set_count v (\<lambda>_. 0) s) (\<lambda>s.
     kmem_release (s\<lparr>freelist := v\<rparr>))))"

definition kalloc :: "kernel \<Rightarrow> (uint \<times> kernel) result" where
  "kalloc s =
     bindr (kmem_acquire s) (\<lambda>s.
     let r = freelist s in
     bindr (if r \<noteq> 0 then set_count r (\<lambda>_. 1) (s\<lparr>freelist := load32 (mem s) r\<rparr>) else Inr s) (\<lambda>s.
     bindr (kmem_release s) (\<lambda>s.
     Inr (r, s))))"

definition incref :: "uint \<Rightarrow> kernel \<Rightarrow> kernel result" where
  "incref v s =
     bindr (kmem_acquire s) (\<lambda>s. bindr (set_count v (\<lambda>c. c + 1) s) kmem_release)"

definition decref :: "uint \<Rightarrow> kernel \<Rightarrow> kernel result" where
  "decref v s =
     bindr (kmem_acquire s) (\<lambda>s. bindr (set_count v (\<lambda>c. c - 1) s) kmem_release)"

definition refcount :: "uint \<Rightarrow> kernel \<Rightarrow> int result" where
  "refcount v s =
     bindr (in_bounds (PAGEINDEX v < NUMPAGES)) (\<lambda>_. Inr (uint (cow_count s (PAGEINDEX v))))"

text \<open>
  \<^verbatim>\<open>freerange\<close>: one page per iteration; \<open>n\<close> bounds the iterations by the number of pages
  of the address space.
\<close>

fun freerange_loop :: "nat \<Rightarrow> uint \<Rightarrow> uint \<Rightarrow> kernel \<Rightarrow> kernel result" where
  "freerange_loop n p vend s =
     (if p + PGSIZE \<le> vend then
        (case n of 0 \<Rightarrow> Inl Out_Of_Fuel
         | Suc n \<Rightarrow> bindr (kfree p s) (freerange_loop n (p + PGSIZE) vend))
      else Inr s)"

declare freerange_loop.simps [simp del]

definition freerange :: "uint \<Rightarrow> uint \<Rightarrow> kernel \<Rightarrow> kernel result" where
  "freerange vstart vend s = freerange_loop (2 ^ 20) (PGROUNDUP vstart) vend s"

definition kinit1 :: "uint \<Rightarrow> uint \<Rightarrow> kernel \<Rightarrow> kernel result" where
  "kinit1 vstart vend s =
     (let s = initlock Kmem_lock s; s = s\<lparr>use_lock := False\<rparr> in freerange vstart vend s)"

definition kinit2 :: "uint \<Rightarrow> uint \<Rightarrow> kernel \<Rightarrow> kernel result" where
  "kinit2 vstart vend s =
     bindr (freerange vstart vend s) (\<lambda>s. Inr (s\<lparr>use_lock := True\<rparr>))"

section \<open>The free list\<close>

text \<open>A page the allocator may own, and the chain of free pages from an address on.\<close>

definition heap_page :: "uint \<Rightarrow> uint \<Rightarrow> bool" where
  "heap_page e v \<longleftrightarrow> v mod 4096 = 0 \<and> e \<le> v \<and> V2P v < PHYSTOP \<and> v \<noteq> 0"

primrec chain :: "memory \<Rightarrow> uint \<Rightarrow> uint list \<Rightarrow> bool" where
  "chain m a [] \<longleftrightarrow> a = 0"
| "chain m a (p # ps) \<longleftrightarrow> a = p \<and> chain m (load32 m p) ps"

text \<open>
  \<open>pool s ps\<close>: the free pages are \<open>ps\<close>, in the order in which they will be handed out, and the
  allocator's lock can be taken.
\<close>

definition pool :: "kernel \<Rightarrow> uint list \<Rightarrow> bool" where
  "pool s ps \<longleftrightarrow> chain (mem s) (freelist s) ps \<and> distinct ps \<and> (\<forall>p \<in> set ps. heap_page (kend s) p) \<and>
     cpu_wf s \<and> (use_lock s \<longrightarrow> lock_free Kmem_lock s) \<and> KERNBASE \<le> kend s"

text \<open>\<open>same_page v x\<close>: address \<open>x\<close> lies in the page at \<open>v\<close>.\<close>

definition same_page :: "uint \<Rightarrow> uint \<Rightarrow> bool" where
  "same_page v x \<longleftrightarrow> x - v < 4096"

lemma page_unat:
  assumes "v mod 4096 = (0 :: uint)"
  shows "\<exists>k. unat v = 4096 * k"
proof -
  have "unat v mod 4096 = 0" using assms unat_mod_distrib [of v "4096 :: uint"] by simp
  then show ?thesis by auto
qed

lemma pages_apart:
  assumes v: "v mod 4096 = 0" and w: "w mod 4096 = 0" and "same_page v x" and "same_page w x"
  shows "v = w"
proof -
  have off: "unat x = unat a + unat (x - a)" if "a mod 4096 = 0" "unat (x - a) < 4096" for a :: uint
  proof -
    from that(1) have "\<exists>k. unat a = 4096 * k" by (rule page_unat)
    then obtain k where k: "unat a = 4096 * k" ..
    have "k < 2 ^ 20" using unat32_bound [of a] k by simp
    then have "unat a + unat (x - a) < 2 ^ 32" using k that(2) by simp
    then have "unat (a + (x - a)) = unat a + unat (x - a)" by (intro unat_add32) simp
    then show ?thesis by simp
  qed
  obtain j where j: "unat v = 4096 * j" using page_unat [OF v] ..
  obtain k where k: "unat w = 4096 * k" using page_unat [OF w] ..
  have "unat (x - v) < 4096" "unat (x - w) < 4096" using assms(3,4) by (simp_all add: same_page_def word_less_nat_alt)
  with off [OF v] off [OF w] have "4096 * j + unat (x - v) = 4096 * k + unat (x - w)" by (simp add: j k)
  with \<open>unat (x - v) < 4096\<close> \<open>unat (x - w) < 4096\<close> have "j = k" by linarith
  then show ?thesis using j k by (simp add: word_unat_eq_iff)
qed

lemma same_page_word: "same_page v v" "same_page v (v + 1)" "same_page v (v + 2)" "same_page v (v + 3)"
  by (simp_all add: same_page_def)

lemma load32_cong_page:
  assumes "\<And>x. same_page p x \<Longrightarrow> m' x = m x"
  shows "load32 m' p = load32 m p"
  by (simp add: load32_def assms same_page_word)

lemma chain_cong:
  assumes "chain m a ps" and "\<And>p x. p \<in> set ps \<Longrightarrow> same_page p x \<Longrightarrow> m' x = m x"
  shows "chain m' a ps"
  using assms
proof (induction ps arbitrary: a)
  case Nil
  then show ?case by simp
next
  case (Cons p ps)
  have "load32 m' p = load32 m p" using Cons.prems(2) by (intro load32_cong_page) auto
  with Cons show ?case by auto
qed

lemma chain_unique: "chain m a ps \<Longrightarrow> chain m a qs \<Longrightarrow> 0 \<notin> set ps \<Longrightarrow> 0 \<notin> set qs \<Longrightarrow> ps = qs"
proof (induction ps arbitrary: a qs)
  case Nil
  then show ?case by (cases qs) auto
next
  case (Cons p ps)
  then show ?case by (cases qs) auto
qed

lemma heap_page_index:
  assumes "heap_page e v"
  shows "PAGEINDEX v < NUMPAGES"
proof -
  have "unat (V2P v) < 0xE000000" using assms by (simp add: heap_page_def word_less_nat_alt)
  then show ?thesis by (simp add: PAGEINDEX_def unat_div_distrib)
qed

lemma poolD:
  assumes "pool s ps"
  shows "chain (mem s) (freelist s) ps" "distinct ps" "p \<in> set ps \<Longrightarrow> heap_page (kend s) p" "cpu_wf s"
    "use_lock s \<Longrightarrow> lock_free Kmem_lock s" "KERNBASE \<le> kend s" "0 \<notin> set ps"
  using assms by (auto simp: pool_def heap_page_def)

text \<open>Taking and giving back the lock, when it is in use.\<close>

definition kmem_enter :: "kernel \<Rightarrow> kernel" where
  "kmem_enter s = (if use_lock s then acq Kmem_lock s else s)"

definition kmem_leave :: "kernel \<Rightarrow> kernel" where
  "kmem_leave s = (if use_lock s then rel Kmem_lock s else s)"

lemma kmem_acquire_eq: "cpu_wf s \<Longrightarrow> (use_lock s \<Longrightarrow> lock_free Kmem_lock s) \<Longrightarrow> kmem_acquire s = Inr (kmem_enter s)"
  by (simp add: kmem_acquire_def kmem_enter_def)

lemma kmem_enter_fields [simp]:
  "mem (kmem_enter s) = mem s" "freelist (kmem_enter s) = freelist s" "cow_count (kmem_enter s) = cow_count s"
  "use_lock (kmem_enter s) = use_lock s" "kend (kmem_enter s) = kend s" "procs (kmem_enter s) = procs s"
  by (simp_all add: kmem_enter_def)

text \<open>
  \<open>kmem_upd m f c s\<close>: the effect of an allocator call, which may change memory, the head of the
  free list and the counts, and otherwise only the dead \<^verbatim>\<open>intena\<close>.
\<close>

definition kmem_upd :: "memory \<Rightarrow> uint \<Rightarrow> (nat \<Rightarrow> uchar) \<Rightarrow> kernel \<Rightarrow> kernel" where
  "kmem_upd m f c s = (kmem_leave (kmem_enter s))\<lparr>mem := m, freelist := f, cow_count := c\<rparr>"

lemma kmem_release_eq:
  assumes "cpu_wf s" and "use_lock s \<Longrightarrow> lock_free Kmem_lock s"
  shows "kmem_release ((kmem_enter s)\<lparr>mem := m, freelist := f, cow_count := c\<rparr>) = Inr (kmem_upd m f c s)"
proof -
  have "0 \<le> c_ncli (cpus s (this_cpu s))" using assms(1) by (simp add: cpu_view_def)
  then have "release Kmem_lock ((acq Kmem_lock s)\<lparr>mem := m, freelist := f, cow_count := c\<rparr>) =
      Inr (rel Kmem_lock ((acq Kmem_lock s)\<lparr>mem := m, freelist := f, cow_count := c\<rparr>))"
    using assms(1) by (intro release_held) simp_all
  then show ?thesis
    by (cases s) (auto simp: kmem_release_def kmem_enter_def kmem_upd_def kmem_leave_def rel_def)
qed

lemma kmem_upd_fields [simp]:
  "mem (kmem_upd m f c s) = m" "freelist (kmem_upd m f c s) = f" "cow_count (kmem_upd m f c s) = c"
  "use_lock (kmem_upd m f c s) = use_lock s" "kend (kmem_upd m f c s) = kend s" "procs (kmem_upd m f c s) = procs s"
  "this_cpu (kmem_upd m f c s) = this_cpu s" "ncpu (kmem_upd m f c s) = ncpu s" "levels (kmem_upd m f c s) = levels s"
  "pipes (kmem_upd m f c s) = pipes s" "ftable (kmem_upd m f c s) = ftable s"
  "c_proc (cpus (kmem_upd m f c s) i) = c_proc (cpus s i)" "c_cr3 (cpus (kmem_upd m f c s) i) = c_cr3 (cpus s i)"
  "c_cr2 (cpus (kmem_upd m f c s) i) = c_cr2 (cpus s i)"
  by (simp_all add: kmem_upd_def kmem_leave_def kmem_enter_def)

lemma kmem_upd_cpu_wf [simp]: "cpu_wf s \<Longrightarrow> cpu_view (this_cpu s) (ncpu s) (cpus (kmem_upd m f c s))"
  by (auto simp: kmem_upd_def kmem_leave_def kmem_enter_def cpu_view_def)

lemma kmem_upd_lock: "(use_lock s \<longrightarrow> lock_free Kmem_lock s) \<Longrightarrow> use_lock s \<longrightarrow> lock_free Kmem_lock (kmem_upd m f c s)"
  by (auto simp: kmem_upd_def kmem_leave_def kmem_enter_def)

lemma poolI:
  assumes "pool s qs" and "chain m f ps" and "distinct ps" and "\<And>p. p \<in> set ps \<Longrightarrow> heap_page (kend s) p"
  shows "pool (kmem_upd m f c s) ps"
  using assms kmem_upd_lock [of s m f c] by (simp add: pool_def)

lemma kalloc_some:
  assumes "pool s (p # ps)"
  shows "kalloc s = Inr (p, kmem_upd (mem s) (load32 (mem s) p) ((cow_count s)(PAGEINDEX p := 1)) s)"
    and "pool (kmem_upd (mem s) (load32 (mem s) p) ((cow_count s)(PAGEINDEX p := 1)) s) ps"
proof -
  note d = poolD [OF assms]
  have p: "freelist s = p" "chain (mem s) (load32 (mem s) p) ps" using d(1) by auto
  have hp: "heap_page (kend s) p" using d(3) by simp
  then have nz: "p \<noteq> 0" by (simp add: heap_page_def)
  let ?c = "(cow_count s)(PAGEINDEX p := 1)"
  have upd: "(kmem_enter s)\<lparr>freelist := load32 (mem s) p, cow_count := ?c\<rparr> =
      (kmem_enter s)\<lparr>mem := mem s, freelist := load32 (mem s) p, cow_count := ?c\<rparr>"
    by (cases "kmem_enter s"; cases s) (auto simp: kmem_enter_def acq_def split: if_splits)
  show "kalloc s = Inr (p, kmem_upd (mem s) (load32 (mem s) p) ?c s)"
    using kmem_acquire_eq [OF d(4,5)] kmem_release_eq [OF d(4,5)] nz p(1) heap_page_index [OF hp]
    by (simp add: kalloc_def set_count_def upd)
  show "pool (kmem_upd (mem s) (load32 (mem s) p) ?c s) ps"
    using d(2,3) p(2) by (intro poolI [OF assms]) auto
qed

lemma kalloc_none:
  assumes "pool s []"
  shows "kalloc s = Inr (0, kmem_upd (mem s) (freelist s) (cow_count s) s)"
    and "pool (kmem_upd (mem s) (freelist s) (cow_count s) s) []"
proof -
  note d = poolD [OF assms]
  have upd: "kmem_enter s = (kmem_enter s)\<lparr>mem := mem s, freelist := freelist s, cow_count := cow_count s\<rparr>"
    by (cases s) (auto simp: kmem_enter_def acq_def)
  have "kmem_release (kmem_enter s) = Inr (kmem_upd (mem s) (freelist s) (cow_count s) s)"
    by (subst upd) (rule kmem_release_eq [OF d(4,5)])
  then show "kalloc s = Inr (0, kmem_upd (mem s) (freelist s) (cow_count s) s)"
    using kmem_acquire_eq [OF d(4,5)] d(1) by (simp add: kalloc_def)
  show "pool (kmem_upd (mem s) (freelist s) (cow_count s) s) []"
    using d(1) by (intro poolI [OF assms]) auto
qed

lemma memset_other_page:
  assumes "v mod 4096 = 0" and "p mod 4096 = 0" and "p \<noteq> v" and "same_page p x"
  shows "memset v c 4096 m x = m x"
  using pages_apart [OF assms(1,2) _ assms(4)] assms(3) by (auto simp: memset_eq same_page_def)

lemma store32_other_page:
  assumes "v mod 4096 = 0" and "p mod 4096 = 0" and "p \<noteq> v" and "same_page p x"
  shows "store32 v w m x = m x"
proof (rule store32_outside)
  have "\<not> same_page v x" using pages_apart [OF assms(1,2) _ assms(4)] assms(3) by auto
  then show "4 \<le> unat (x - v)" by (simp add: same_page_def word_less_nat_alt)
qed

definition freed :: "uint \<Rightarrow> uint \<Rightarrow> memory \<Rightarrow> memory" where
  "freed v nxt m = store32 v nxt (memset v 1 4096 m)"

lemma freed_other_page:
  "v mod 4096 = 0 \<Longrightarrow> p mod 4096 = 0 \<Longrightarrow> p \<noteq> v \<Longrightarrow> same_page p x \<Longrightarrow> freed v nxt m x = m x"
  by (simp add: freed_def memset_other_page store32_other_page)

lemma kfree_page:
  assumes pool: "pool s ps" and v: "heap_page (kend s) v" "v \<notin> set ps"
  shows "kfree v s = Inr (kmem_upd (freed v (freelist s) (mem s)) v ((cow_count s)(PAGEINDEX v := 0)) s)"
    and "pool (kmem_upd (freed v (freelist s) (mem s)) v ((cow_count s)(PAGEINDEX v := 0)) s) (v # ps)"
proof -
  note d = poolD [OF pool]
  have vp: "v mod 4096 = 0" "\<not> v < kend s" "\<not> V2P v \<ge> PHYSTOP" using v(1) by (auto simp: heap_page_def)
  let ?s = "s\<lparr>mem := memset v 1 4096 (mem s)\<rparr>"
  let ?c = "(cow_count s)(PAGEINDEX v := 0)" and ?m = "freed v (freelist s) (mem s)"
  have acq: "kmem_acquire ?s = Inr (kmem_enter ?s)" using d(4,5) by (intro kmem_acquire_eq) simp_all
  have rel: "kmem_release ((kmem_enter ?s)\<lparr>mem := ?m, freelist := v, cow_count := ?c\<rparr>) = Inr (kmem_upd ?m v ?c ?s)"
    using d(4,5) by (intro kmem_release_eq) simp_all
  have eq: "(kmem_enter ?s)\<lparr>mem := ?m, cow_count := ?c, freelist := v\<rparr> = (kmem_enter ?s)\<lparr>mem := ?m, freelist := v, cow_count := ?c\<rparr>"
    by (cases "kmem_enter ?s") simp
  have upd: "kmem_upd ?m v ?c ?s = kmem_upd ?m v ?c s"
    by (cases s) (simp add: kmem_upd_def kmem_leave_def kmem_enter_def acq_def rel_def)
  show "kfree v s = Inr (kmem_upd ?m v ?c s)"
    using vp acq rel heap_page_index [OF v(1)] unfolding upd
    by (simp add: kfree_def set_count_def freed_def [symmetric] eq)
  have "chain ?m (load32 ?m v) ps"
  proof (rule chain_cong)
    show "chain (mem s) (load32 ?m v) ps" using d(1) by (simp add: freed_def)
    show "?m x = mem s x" if "p \<in> set ps" "same_page p x" for p x
      using that d(3) [of p] v(2) vp(1) by (intro freed_other_page) (auto simp: heap_page_def)
  qed
  then show "pool (kmem_upd ?m v ?c s) (v # ps)"
    using d(2,3) v by (intro poolI [OF pool]) auto
qed

lemma kfree_bad:
  assumes "v mod 4096 \<noteq> 0 \<or> v < kend s \<or> \<not> V2P v < PHYSTOP"
  shows "kfree v s = Inl (Panic ''kfree'')"
  using assms by (auto simp: kfree_def not_less)

text \<open>
  The interface the rest of the kernel relies on. \<open>owns\<close>: the free pages and the pages in use
  partition the pages that were there at the start.
\<close>

definition owns ::
  "('s \<Rightarrow> uint list \<Rightarrow> bool) \<Rightarrow> ('s \<Rightarrow> uint \<Rightarrow> bool) \<Rightarrow> uint set \<Rightarrow> 's \<Rightarrow> uint set \<Rightarrow> bool" where
  "owns avail page P s A \<longleftrightarrow>
     (\<exists>ps. avail s ps \<and> set ps \<inter> A = {} \<and> set ps \<union> A = P) \<and> (\<forall>a \<in> P. page s a)"

locale page_allocator =
  fixes alloc :: "'s \<Rightarrow> (uint \<times> 's) result" and free :: "uint \<Rightarrow> 's \<Rightarrow> 's result"
    and avail :: "'s \<Rightarrow> uint list \<Rightarrow> bool" and page :: "'s \<Rightarrow> uint \<Rightarrow> bool"
  assumes alloc_some: "avail s (p # ps) \<Longrightarrow> wp (alloc s) (\<lambda>(r, t). r = p \<and> avail t ps \<and> page t = page s)"
    and alloc_none: "avail s [] \<Longrightarrow> wp (alloc s) (\<lambda>(r, t). r = 0 \<and> avail t [] \<and> page t = page s)"
    and free_page: "avail s ps \<Longrightarrow> page s v \<Longrightarrow> v \<notin> set ps \<Longrightarrow> wp (free v s) (\<lambda>t. avail t (v # ps) \<and> page t = page s)"
    and avail_pages: "avail s ps \<Longrightarrow> distinct ps \<and> (\<forall>p \<in> set ps. page s p \<and> p \<noteq> 0)"
    and avail_unique: "avail s ps \<Longrightarrow> avail s qs \<Longrightarrow> ps = qs"
begin

lemma owns_start: "avail s ps \<Longrightarrow> owns avail page (set ps) s {}"
  using avail_pages by (auto simp: owns_def)

lemma owns_alloc:
  assumes "owns avail page P s A"
  shows "wp (alloc s) (\<lambda>(r, t). if r = 0 then A = P \<and> owns avail page P t A else r \<in> P - A \<and> owns avail page P t (insert r A))"
proof -
  obtain ps where ps: "avail s ps" "set ps \<inter> A = {}" "set ps \<union> A = P" "\<forall>a \<in> P. page s a"
    using assms by (auto simp: owns_def)
  show ?thesis
  proof (cases ps)
    case Nil
    with ps show ?thesis by (intro wp_mono [OF alloc_none [of s]]) (auto simp: owns_def)
  next
    case (Cons p qs)
    with avail_pages [OF ps(1)] have "p \<noteq> 0" "p \<notin> set qs" by auto
    with ps Cons show ?thesis by (intro wp_mono [OF alloc_some [of s p qs]]) (auto simp: owns_def)
  qed
qed

lemma owns_free:
  assumes "owns avail page P s A" and "v \<in> A"
  shows "wp (free v s) (\<lambda>t. owns avail page P t (A - {v}))"
proof -
  obtain ps where ps: "avail s ps" "set ps \<inter> A = {}" "set ps \<union> A = P" "\<forall>a \<in> P. page s a"
    using assms(1) by (auto simp: owns_def)
  then have "page s v" "v \<notin> set ps" using assms(2) by auto
  from free_page [OF ps(1) this] show ?thesis
    by (rule wp_mono) (use ps assms(2) in \<open>auto simp: owns_def intro!: exI [of _ "v # ps"]\<close>)
qed

end

interpretation kmem: page_allocator kalloc kfree pool "\<lambda>s. heap_page (kend s)"
proof
  show "wp (kalloc s) (\<lambda>(r, t). r = p \<and> pool t ps \<and> heap_page (kend t) = heap_page (kend s))" if "pool s (p # ps)" for s p ps
    using kalloc_some [OF that] by simp
  show "wp (kalloc s) (\<lambda>(r, t). r = 0 \<and> pool t [] \<and> heap_page (kend t) = heap_page (kend s))" if "pool s []" for s
    using kalloc_none [OF that] by simp
  show "wp (kfree v s) (\<lambda>t. pool t (v # ps) \<and> heap_page (kend t) = heap_page (kend s))"
    if "pool s ps" "heap_page (kend s) v" "v \<notin> set ps" for s ps v
    using kfree_page [OF that] by simp
  show "distinct ps \<and> (\<forall>p \<in> set ps. heap_page (kend s) p \<and> p \<noteq> 0)" if "pool s ps" for s ps
    using poolD [OF that] by auto
  show "ps = qs" if "pool s ps" "pool s qs" for s ps qs
    using chain_unique [OF poolD(1) [OF that(1)] poolD(1) [OF that(2)]] poolD(7) that by blast
qed

section \<open>Allocation as a machine\<close>

text \<open>
  The kernel and the set of pages in use. Whoever has a page may write into it; reference
  counts change at any time; nothing writes into a free page but the allocator.
\<close>

abbreviation kmem_owns :: "uint set \<Rightarrow> kernel \<Rightarrow> uint set \<Rightarrow> bool" where
  "kmem_owns \<equiv> owns pool (\<lambda>s. heap_page (kend s))"

inductive kmem_step :: "kernel \<times> uint set \<Rightarrow> kernel \<times> uint set \<Rightarrow> bool" where
  km_alloc: "kalloc s = Inr (v, t) \<Longrightarrow> v \<noteq> 0 \<Longrightarrow> kmem_step (s, A) (t, insert v A)"
| km_fail: "kalloc s = Inr (0, t) \<Longrightarrow> kmem_step (s, A) (t, A)"
| km_free: "v \<in> A \<Longrightarrow> kfree v s = Inr t \<Longrightarrow> kmem_step (s, A) (t, A - {v})"
| km_write: "v \<in> A \<Longrightarrow> same_page v x \<Longrightarrow> kmem_step (s, A) (s\<lparr>mem := (mem s)(x := b)\<rparr>, A)"
| km_incref: "incref v s = Inr t \<Longrightarrow> kmem_step (s, A) (t, A)"
| km_decref: "decref v s = Inr t \<Longrightarrow> kmem_step (s, A) (t, A)"

definition kmem_start :: "uint set \<Rightarrow> kernel \<times> uint set \<Rightarrow> bool" where
  "kmem_start P sA \<longleftrightarrow> snd sA = {} \<and> (\<exists>ps. pool (fst sA) ps \<and> set ps = P)"

lemma kmem_count:
  assumes "pool s ps" and "kmem_acquire s = Inr s1" and "set_count v f s1 = Inr s2" and "kmem_release s2 = Inr t"
  shows "\<exists>c. t = kmem_upd (mem s) (freelist s) c s"
proof -
  note d = poolD [OF assms(1)]
  have s1: "s1 = kmem_enter s" using assms(2) kmem_acquire_eq [OF d(4,5)] by simp
  obtain c where "s2 = (kmem_enter s)\<lparr>cow_count := c\<rparr>"
    using assms(3) by (auto simp: set_count_def s1 bindr_eq_Inr)
  then have "s2 = (kmem_enter s)\<lparr>mem := mem s, freelist := freelist s, cow_count := c\<rparr>"
    by (cases s) (auto simp: kmem_enter_def acq_def)
  with assms(4) kmem_release_eq [OF d(4,5)] show ?thesis by auto
qed

lemma kmem_owns_step:
  assumes own: "kmem_owns P s A" and step: "kmem_step (s, A) (t, B)"
  shows "kmem_owns P t B"
  using step
proof (cases rule: kmem_step.cases)
  case (km_alloc v)
  with wpD [OF kmem.owns_alloc [OF own]] show ?thesis by simp
next
  case km_fail
  with wpD [OF kmem.owns_alloc [OF own]] show ?thesis by auto
next
  case (km_free v)
  with wpD [OF kmem.owns_free [OF own]] show ?thesis by simp
next
  case (km_write v x b)
  obtain ps where ps: "pool s ps" "set ps \<inter> A = {}" "set ps \<union> A = P" "\<forall>a \<in> P. heap_page (kend s) a"
    using own by (auto simp: owns_def)
  have "((mem s)(x := b)) y = mem s y" if "p \<in> set ps" "same_page p y" for p y
  proof -
    have "p \<noteq> v" "p mod 4096 = 0" "v mod 4096 = 0" using that(1) ps km_write by (auto simp: heap_page_def)
    then have "y \<noteq> x" using pages_apart [of p v x] that(2) km_write by auto
    then show ?thesis by simp
  qed
  then have "chain ((mem s)(x := b)) (freelist s) ps" using poolD(1) [OF ps(1)] by (rule chain_cong [rotated])
  then have "pool t ps" using ps(1) km_write by (simp add: pool_def)
  then show ?thesis using ps km_write by (auto simp: owns_def)
next
  case (km_incref v)
  obtain ps where ps: "pool s ps" "set ps \<inter> A = {}" "set ps \<union> A = P" "\<forall>a \<in> P. heap_page (kend s) a"
    using own by (auto simp: owns_def)
  from km_incref obtain c where "t = kmem_upd (mem s) (freelist s) c s"
    using kmem_count [OF ps(1)] unfolding incref_def bindr_eq_Inr by blast
  then show ?thesis using ps km_incref poolI [OF ps(1) poolD(1,2,3) [OF ps(1)]] by (auto simp: owns_def)
next
  case (km_decref v)
  obtain ps where ps: "pool s ps" "set ps \<inter> A = {}" "set ps \<union> A = P" "\<forall>a \<in> P. heap_page (kend s) a"
    using own by (auto simp: owns_def)
  from km_decref obtain c where "t = kmem_upd (mem s) (freelist s) c s"
    using kmem_count [OF ps(1)] unfolding decref_def bindr_eq_Inr by blast
  then show ?thesis using ps km_decref poolI [OF ps(1) poolD(1,2,3) [OF ps(1)]] by (auto simp: owns_def)
qed

interpretation kmem_sys: invariant_system "kmem_start P" kmem_step "\<lambda>(s, A). kmem_owns P s A" for P
proof
  show "kmem_start P s \<Longrightarrow> case s of (s, A) \<Rightarrow> kmem_owns P s A" for s
    using kmem.owns_start by (cases s) (auto simp: kmem_start_def)
  show "case s of (s, A) \<Rightarrow> kmem_owns P s A \<Longrightarrow> kmem_step s t \<Longrightarrow> case t of (s, A) \<Rightarrow> kmem_owns P s A" for s t
    using kmem_owns_step by (cases s; cases t) auto
qed

text \<open>
  C4. The page allocator never hands out a page twice. However allocations, frees of pages in
  use, writes into pages in use and changes of reference counts follow each other, kalloc
  returns: either a page of the managed memory (aligned, above the kernel, below PHYSTOP)
  that is not in use, with its count set to 1, or 0, and 0 only if every page is in use;
  and freeing a page in use succeeds and makes it the next page to be handed out.
\<close>

theorem kalloc_hands_out_free_pages:
  assumes "reach (kmem_start P) kmem_step (s, A)"
  shows "(\<exists>r t. kalloc s = Inr (r, t) \<and>
      (if r = 0 then A = P else r \<in> P - A \<and> heap_page (kend s) r \<and> cow_count t (PAGEINDEX r) = 1)) \<and>
    (\<forall>v \<in> A. \<exists>t u. kfree v s = Inr t \<and> kalloc t = Inr (v, u))"
proof -
  have own: "kmem_owns P s A" using kmem_sys.inv_reach [OF assms] by simp
  then obtain ps where ps: "pool s ps" "set ps \<inter> A = {}" "set ps \<union> A = P" "\<forall>a \<in> P. heap_page (kend s) a"
    by (auto simp: owns_def)
  have "\<exists>r t. kalloc s = Inr (r, t) \<and> (if r = 0 then A = P else r \<in> P - A \<and> heap_page (kend s) r \<and> cow_count t (PAGEINDEX r) = 1)"
  proof (cases ps)
    case Nil
    with ps show ?thesis using kalloc_none [of s] by auto
  next
    case (Cons p qs)
    with ps have "p \<in> P - A" "heap_page (kend s) p" by auto
    with kalloc_some [of s p qs] ps(1) Cons show ?thesis by (auto simp: heap_page_def)
  qed
  moreover have "\<exists>t u. kfree v s = Inr t \<and> kalloc t = Inr (v, u)" if "v \<in> A" for v
  proof -
    have "heap_page (kend s) v" "v \<notin> set ps" using ps that by auto
    note f = kfree_page [OF ps(1) this]
    show ?thesis using f(1) kalloc_some(1) [OF f(2)] by blast
  qed
  ultimately show ?thesis by blast
qed

theorem kalloc_hands_out_free_pages_witness:
  "\<exists>s t. reach (kmem_start {0x80200000}) kmem_step (s, {}) \<and> kalloc s = Inr (0x80200000, t) \<and>
     reach (kmem_start {0x80200000}) kmem_step (t, {0x80200000}) \<and> (\<exists>u. kalloc t = Inr (0, u))"
proof -
  let ?P = "{0x80200000 :: uint}"
  let ?s = "(booted 1)\<lparr>freelist := 0x80200000\<rparr>"
  have "pool ?s [0x80200000]"
    by (simp add: pool_def heap_page_def V2P_def load32_def word_of_def)
  then have "kmem_start ?P (?s, {})" by (auto simp: kmem_start_def intro!: exI [of _ "[0x80200000]"])
  then have r: "reach (kmem_start ?P) kmem_step (?s, {})" by (rule reach_start)
  from kalloc_hands_out_free_pages [OF r] obtain t where t: "kalloc ?s = Inr (0x80200000, t)"
    by (auto split: if_splits)
  then have "kmem_step (?s, {}) (t, insert 0x80200000 {})" by (rule km_alloc) simp
  with r have r': "reach (kmem_start ?P) kmem_step (t, ?P)" by (auto intro: reach_step)
  from kalloc_hands_out_free_pages [OF r'] obtain u where "kalloc t = Inr (0, u)"
    by (auto split: if_splits)
  with r r' t show ?thesis by blast
qed

section \<open>Filling the pool\<close>

definition pages_in :: "uint \<Rightarrow> uint \<Rightarrow> uint set" where
  "pages_in a e = {v. v mod 4096 = 0 \<and> a \<le> v \<and> unat v + 4096 \<le> unat e}"

lemma next_page:
  fixes p :: uint
  assumes "unat p + 4096 < 2 ^ 32" and "p mod 4096 = 0"
  shows "unat (p + 4096) = unat p + 4096" "(p + 4096) mod 4096 = 0"
proof -
  show n: "unat (p + 4096) = unat p + 4096"
    using assms(1) unat_add32 [of p 4096] by simp
  have "unat p mod 4096 = 0" using assms(2) unat_mod_distrib [of p "4096 :: uint"] by simp
  then have "unat ((p + 4096) mod 4096) = 0" using unat_mod_distrib [of "p + 4096" "4096 :: uint"] n by simp
  then show "(p + 4096) mod 4096 = 0" by (simp add: unat_eq_0)
qed

lemma pages_in_step:
  assumes "p mod 4096 = 0" and "unat p + 4096 \<le> unat e"
  shows "pages_in p e = insert p (pages_in (p + 4096) e)"
proof -
  have lt: "unat p + 4096 < 2 ^ 32" using assms(2) unat32_bound [of e] by simp
  note np = next_page [OF lt assms(1)]
  have next_iff: "p + 4096 \<le> v \<longleftrightarrow> p \<le> v \<and> v \<noteq> p" if v: "v mod 4096 = 0" for v
  proof -
    from v have "\<exists>k. unat v = 4096 * k" by (rule page_unat)
    then obtain k where k: "unat v = 4096 * k" ..
    from assms(1) have "\<exists>k. unat p = 4096 * k" by (rule page_unat)
    then obtain j where j: "unat p = 4096 * j" ..
    show ?thesis by (auto simp: word_le_nat_alt np(1) word_unat_eq_iff j k)
  qed
  show ?thesis
  proof (rule set_eqI)
    fix v
    show "v \<in> pages_in p e \<longleftrightarrow> v \<in> insert p (pages_in (p + 4096) e)"
      using assms next_iff [of v] unfolding pages_in_def mem_Collect_eq insert_iff by (metis order_refl)
  qed
qed

lemma pages_in_end: "unat e < unat p + 4096 \<Longrightarrow> pages_in p e = {}"
  by (auto simp: pages_in_def word_le_nat_alt)

lemma freerange_loop_pools:
  assumes "pool s ps" and "\<forall>q \<in> set ps. q < p" and "p mod 4096 = 0" and "kend s \<le> p" and "unat p \<le> 0x8E000000"
    and e: "unat e \<le> 0x8E000000" and "(unat e - unat p) div 4096 \<le> n"
  shows "wp (freerange_loop n p e s) (\<lambda>t. \<exists>qs. pool t qs \<and> set qs = set ps \<union> pages_in p e)"
  using assms(1-5,7)
proof (induction n arbitrary: p s ps)
  case (0 p s ps)
  have "unat e < unat p + 4096"
  proof (rule ccontr)
    assume "\<not> unat e < unat p + 4096"
    then have "1 \<le> (unat e - unat p) div 4096" using div_le_mono [of 4096 "unat e - unat p" 4096] by simp
    with 0(6) show False by simp
  qed
  moreover have "unat (p + 4096) = unat p + 4096" using 0(5) by (intro next_page(1) 0(3)) simp
  ultimately show ?case
    using 0(1) by (subst freerange_loop.simps) (auto simp: word_le_nat_alt pages_in_end)
next
  case (Suc n p s ps)
  have np: "unat (p + 4096) = unat p + 4096" "(p + 4096) mod 4096 = 0"
    using Suc.prems(5) by (intro next_page Suc.prems(3); simp)+
  show ?case
  proof (cases "unat p + 4096 \<le> unat e")
    case False
    with Suc.prems(1) np show ?thesis by (subst freerange_loop.simps) (auto simp: word_le_nat_alt pages_in_end)
  next
    case True
    have kb: "0x80000000 \<le> unat p" using poolD(6) [OF Suc.prems(1)] Suc.prems(4) by (simp add: word_le_nat_alt)
    have "unat (V2P p) = unat p - 0x80000000" using kb unat_sub32 [of "0x80000000" p] by (simp add: V2P_def)
    then have hp: "heap_page (kend s) p"
      using Suc.prems(3,4) True e kb by (auto simp: heap_page_def word_less_nat_alt)
    have "p \<notin> set ps" using Suc.prems(2) by auto
    note kf = kfree_page [OF Suc.prems(1) hp this]
    let ?t = "kmem_upd (freed p (freelist s) (mem s)) p ((cow_count s)(PAGEINDEX p := 0)) s"
    have "wp (freerange_loop n (p + 4096) e ?t) (\<lambda>t. \<exists>qs. pool t qs \<and> set qs = set (p # ps) \<union> pages_in (p + 4096) e)"
    proof (rule Suc.IH [OF kf(2)])
      show "\<forall>q \<in> set (p # ps). q < p + 4096"
        using Suc.prems(2) np(1) by (auto simp: word_less_nat_alt)
      show "(unat e - unat (p + 4096)) div 4096 \<le> n"
        using Suc.prems(6) True le_div_geq [of 4096 "unat e - unat p"] by (simp add: np(1))
    qed (use np Suc.prems(4) True e in \<open>simp_all add: word_le_nat_alt\<close>)
    then show ?thesis
      using True np(1) kf(1) pages_in_step [OF Suc.prems(3) True]
      by (subst freerange_loop.simps) (simp add: word_le_nat_alt)
  qed
qed



end
