(* ===== verification/Cprintf.thy ===== *)
theory Cprintf
  imports Spinlock
begin

text \<open>
  Console output (\<^verbatim>\<open>console.c\<close>, \<^verbatim>\<open>uart.c\<close>): a character goes to the serial port and to the
  display, and \<^verbatim>\<open>cprintf\<close> formats numbers and strings. The cursor register of the
  display controller and the display memory are part of the state.
\<close>

section \<open>Characters\<close>

definition BACKSPACE :: int where [simp]: "BACKSPACE = 0x100"

text \<open>The bytes for the serial port, in order; without a port they are dropped.\<close>

definition uartputc :: "int \<Rightarrow> kernel \<Rightarrow> kernel" where
  "uartputc c s = s\<lparr>cons_out := cons_out s @ [c]\<rparr>"

definition crt_move :: "(nat \<Rightarrow> ushort) \<Rightarrow> nat \<Rightarrow> ushort" where
  "crt_move m i = (if i < 23 * 80 then m (i + 80) else m i)"

definition crt_clear :: "nat \<Rightarrow> (nat \<Rightarrow> ushort) \<Rightarrow> nat \<Rightarrow> ushort" where
  "crt_clear pos m i = (if pos \<le> i \<and> i < 24 * 80 then 0 else m i)"

definition cgaputc :: "int \<Rightarrow> kernel \<Rightarrow> kernel result" where
  "cgaputc c s =
     (let pos = crt_pos s;
          (pos, m) =
            (if c = 10 then (pos + (80 - pos mod 80), crt s)
             else if c = BACKSPACE then (if pos > 0 then pos - 1 else pos, crt s)
             else (pos + 1, (crt s)(nat pos := (word_of_int c AND 0xff) OR 0x0700)))
      in
      bindr (panic_if (pos < 0 \<or> pos > 25 * 80) ''pos under/overflow'') (\<lambda>_.
      let (pos, m) =
            (if pos div 80 \<ge> 24 then (pos - 80, crt_clear (nat (pos - 80)) (crt_move m)) else (pos, m))
      in Inr (s\<lparr>crt := m(nat pos := 0x20 OR 0x0700), crt_pos := pos mod 0x10000\<rparr>)))"

definition consputc :: "int \<Rightarrow> kernel \<Rightarrow> kernel result" where
  "consputc c s =
     (if panicked s then Inl Spins
      else cgaputc c
        (if c = BACKSPACE then uartputc 8 (uartputc 0x20 (uartputc 8 s)) else uartputc c s))"

definition cputs :: "int list \<Rightarrow> kernel \<Rightarrow> kernel result" where
  "cputs cs s = iter consputc cs s"

section \<open>Formatting\<close>

definition chars :: "string \<Rightarrow> int list" where
  "chars cs = map of_char cs"

definition digit_char :: "nat \<Rightarrow> int" where
  "digit_char d = chars ''0123456789abcdef'' ! d"

text \<open>The digits of \<open>x\<close> in the order they enter \<^verbatim>\<open>buf\<close>, least significant first.\<close>

function digits :: "nat \<Rightarrow> nat \<Rightarrow> nat list" where
  "digits base x = (if base < 2 \<or> x div base = 0 then [x mod base] else x mod base # digits base (x div base))"

  by pat_completeness auto

termination
proof (relation "measure snd")
  fix base x :: nat
  assume "\<not> (base < 2 \<or> x div base = 0)"
  then show "((base, x div base), base, x) \<in> measure snd"
    by (cases "x = 0") auto
qed simp

declare digits.simps [simp del]

definition printint :: "uint \<Rightarrow> nat \<Rightarrow> bool \<Rightarrow> kernel \<Rightarrow> kernel result" where
  "printint xx base sign s =
     (let neg = sign \<and> sint xx < 0;
          x = (if neg then - xx else xx);
          buf = map digit_char (digits base (unat x)) @ (if neg then [45] else [])
      in cputs (rev buf) s)"

text \<open>The arguments of \<^verbatim>\<open>cprintf\<close>: a word, or a pointer to a string that may be null.\<close>

datatype carg = Cword uint | Cstr "int list option"

fun cprintf_loop :: "int list \<Rightarrow> carg list \<Rightarrow> kernel \<Rightarrow> kernel result" where
  "cprintf_loop [] args s = Inr s"
| "cprintf_loop (c # cs) args s =
     (if c \<noteq> of_char CHR ''%'' then bindr (consputc c s) (cprintf_loop cs args)
      else
        (case cs of
           [] \<Rightarrow> Inr s
         | d # ds \<Rightarrow>
             if d = of_char CHR ''d'' then
               (case args of Cword w # args \<Rightarrow> bindr (printint w 10 True s) (cprintf_loop ds args)
                | _ \<Rightarrow> Inl Out_Of_Bounds)
             else if d = of_char CHR ''x'' \<or> d = of_char CHR ''p'' then
               (case args of Cword w # args \<Rightarrow> bindr (printint w 16 False s) (cprintf_loop ds args)
                | _ \<Rightarrow> Inl Out_Of_Bounds)
             else if d = of_char CHR ''s'' then
               (case args of
                  Cstr str # args \<Rightarrow>
                    bindr (cputs (case str of None \<Rightarrow> chars ''(null)'' | Some cs \<Rightarrow> cs) s)
                      (cprintf_loop ds args)
                | _ \<Rightarrow> Inl Out_Of_Bounds)
             else if d = of_char CHR ''%'' then bindr (consputc d s) (cprintf_loop ds args)
             else bindr (consputc c s) (\<lambda>s. bindr (consputc d s) (cprintf_loop ds args))))"

definition cprintf :: "string \<Rightarrow> carg list \<Rightarrow> kernel \<Rightarrow> kernel result" where
  "cprintf fmt args s =
     (let locking = cons_locking s in
      bindr (if locking then acquire Cons_lock s else Inr s) (\<lambda>s.
      bindr (cprintf_loop (chars fmt) args s) (\<lambda>s.
      if locking then release Cons_lock s else Inr s)))"

text \<open>
  \<^verbatim>\<open>panic\<close> up to its endless loop; \<open>pcs\<close> is the call stack \<^verbatim>\<open>getcallerpcs\<close> finds.
\<close>

definition panic :: "string \<Rightarrow> uint list \<Rightarrow> kernel \<Rightarrow> kernel result" where
  "panic msg pcs s =
     (let s = (cli s)\<lparr>cons_locking := False\<rparr> in
      bindr (cprintf ''lapicid %d: panic: '' [Cword (ucast (lapicid s))] s) (\<lambda>s.
      bindr (cprintf msg [] s) (\<lambda>s.
      bindr (cprintf ''\<newline>'' [] s) (\<lambda>s.
      bindr (iter (\<lambda>pc. cprintf '' %p'' [Cword pc]) pcs s) (\<lambda>s.
      Inr (s\<lparr>panicked := True\<rparr>))))))"

section \<open>The display\<close>

text \<open>
  The cursor stays on the 24 lines the driver scrolls. \<open>screen\<close> is what a character leaves
  alone: everything but the display memory, the cursor and the serial port.
\<close>

definition cursor_ok :: "kernel \<Rightarrow> bool" where
  "cursor_ok s \<longleftrightarrow> 0 \<le> crt_pos s \<and> crt_pos s < 24 * 80"

definition wrote :: "int list \<Rightarrow> kernel \<Rightarrow> kernel \<Rightarrow> bool" where
  "wrote cs s t \<longleftrightarrow> cursor_ok t \<and> cons_out t = cons_out s @ cs \<and>
     (\<forall>i \<ge> 25 * 80. crt t i = crt s i) \<and>
     t = s\<lparr>crt := crt t, crt_pos := crt_pos t, cons_out := cons_out t\<rparr>"

lemma wrote_refl: "cursor_ok s \<Longrightarrow> wrote [] s s"
  by (simp add: wrote_def)

lemma wrote_trans: "wrote as s t \<Longrightarrow> wrote bs t u \<Longrightarrow> wrote (as @ bs) s u"
  by (cases s; cases t; cases u) (simp add: wrote_def)

lemma wrote_cursor: "wrote cs s t \<Longrightarrow> cursor_ok t"
  by (simp add: wrote_def)

lemma wrote_panicked: "wrote cs s t \<Longrightarrow> panicked t = panicked s"
  by (cases s; cases t) (simp add: wrote_def)

text \<open>The two steps of \<open>cgaputc\<close>: placing the character, and scrolling.\<close>

lemma line_end: "0 \<le> p \<Longrightarrow> p < 24 * 80 \<Longrightarrow> p + (80 - p mod 80) \<le> 24 * 80 \<and> 0 \<le> p + (80 - p mod (80::int))"
  by presburger

lemma cgaputc_ok:
  assumes "cursor_ok s"
  shows "wp (cgaputc c s) (wrote [] s)"
proof -
  define pos where "pos = (if c = 10 then crt_pos s + (80 - crt_pos s mod 80)
    else if c = BACKSPACE then (if crt_pos s > 0 then crt_pos s - 1 else crt_pos s) else crt_pos s + 1)"
  define m where "m = (if c = 10 \<or> c = BACKSPACE then crt s
    else (crt s)(nat (crt_pos s) := (word_of_int c AND 0xff) OR 0x0700))"
  have pos: "0 \<le> pos" "pos \<le> 24 * 80"
    using assms line_end [of "crt_pos s"] unfolding pos_def cursor_ok_def by (simp_all split: if_splits)
  have m: "m i = crt s i" if "25 * 80 \<le> i" for i
    using assms that unfolding m_def cursor_ok_def by auto
  have eq: "cgaputc c s =
     bindr (panic_if (pos < 0 \<or> pos > 25 * 80) ''pos under/overflow'') (\<lambda>_.
      let (pos, m) = (if pos div 80 \<ge> 24 then (pos - 80, crt_clear (nat (pos - 80)) (crt_move m)) else (pos, m))
      in Inr (s\<lparr>crt := m(nat pos := 0x20 OR 0x0700), crt_pos := pos mod 0x10000\<rparr>))"
    unfolding cgaputc_def pos_def m_def by (simp add: Let_def)
  show ?thesis
  proof (cases "pos div 80 \<ge> 24")
    case True
    with pos have "pos = 24 * 80" by auto
    then show ?thesis
      by (auto simp: eq wrote_def cursor_ok_def crt_clear_def crt_move_def m)
  next
    case False
    then have "pos < 24 * 80" by auto
    with False pos show ?thesis
      by (auto simp: eq wrote_def cursor_ok_def m)
  qed
qed

definition echo :: "int \<Rightarrow> int list" where
  "echo c = (if c = BACKSPACE then [8, 0x20, 8] else [c])"

lemma consputc_ok:
  assumes "cursor_ok s" and "\<not> panicked s"
  shows "wp (consputc c s) (wrote (echo c) s)"
proof -
  let ?u = "if c = BACKSPACE then uartputc 8 (uartputc 0x20 (uartputc 8 s)) else uartputc c s"
  have "wp (cgaputc c ?u) (wrote [] ?u)"
    using assms(1) by (intro cgaputc_ok) (simp add: cursor_ok_def uartputc_def)
  then have "wp (cgaputc c ?u) (wrote (echo c) s)"
    by (rule wp_mono) (cases s; auto simp: wrote_def uartputc_def echo_def)
  with assms(2) show ?thesis by (simp add: consputc_def)
qed

lemma cputs_ok:
  assumes "cursor_ok s" and "\<not> panicked s"
  shows "wp (cputs cs s) (wrote (concat (map echo cs)) s)"
  unfolding cputs_def
proof (rule wp_iter [where I = "\<lambda>ys. wrote (concat (map echo ys)) s"])
  show "wrote (concat (map echo [])) s s" using assms by (simp add: wrote_refl)
next
  fix ys c zs t
  assume t: "wrote (concat (map echo ys)) s t"
  then have "wp (consputc c t) (wrote (echo c) t)"
    using assms(2) by (intro consputc_ok) (simp_all add: wrote_cursor wrote_panicked)
  then show "wp (consputc c t) (wrote (concat (map echo (ys @ [c]))) s)"
    by (rule wp_mono) (use wrote_trans [OF t] in simp)
qed

text \<open>
  C26. Console output cannot run off the display: from a cursor on the screen, any sequence of
  characters (newlines, erasures and unprintable values included) is written without the
  panic on the cursor, the cursor is again on the screen, the serial port has received the
  characters in order, and nothing outside the 25 lines of display memory, nor anything
  else in the kernel, has changed.
\<close>

theorem cputs_stays_on_screen:
  assumes "cursor_ok s" and "\<not> panicked s"
  shows "wp (cputs cs s) (wrote (concat (map echo cs)) s)"
  using assms by (rule cputs_ok)

theorem cputs_stays_on_screen_witness:
  "wp (cputs [65, 10, BACKSPACE] (booted 1)) (\<lambda>t. cursor_ok t \<and> cons_out t = [65, 10, 8, 0x20, 8])"
proof -
  have "wp (cputs [65, 10, BACKSPACE] (booted 1)) (wrote (concat (map echo [65, 10, BACKSPACE])) (booted 1))"
    by (rule cputs_stays_on_screen) (simp_all add: cursor_ok_def)
  then show ?thesis by (rule wp_mono) (simp add: wrote_def echo_def)
qed

section \<open>Numbers\<close>

definition digits_value :: "nat \<Rightarrow> nat list \<Rightarrow> nat" where
  "digits_value base ds = foldr (\<lambda>d n. d + base * n) ds 0"

lemma digits_value_digits: "2 \<le> base \<Longrightarrow> digits_value base (digits base x) = x"
proof (induction base x rule: digits.induct)
  case (1 base x)
  show ?case
  proof (cases "x div base = 0")
    case True
    then show ?thesis using 1(2) by (subst digits.simps) (simp add: digits_value_def div_eq_0_iff)
  next
    case False
    with 1 have "digits_value base (digits base (x div base)) = x div base" by auto
    with False 1(2) show ?thesis by (subst digits.simps) (simp add: digits_value_def)
  qed
qed

lemma digits_less: "2 \<le> base \<Longrightarrow> d \<in> set (digits base x) \<Longrightarrow> d < base"
proof (induction base x rule: digits.induct)
  case (1 base x)
  then show ?case by (subst (asm) digits.simps) (auto split: if_splits)
qed

text \<open>
  How a reader takes a numeral: an optional minus sign and digits, most significant first.
\<close>

definition char_digit :: "int \<Rightarrow> nat" where
  "char_digit c = nat (if 97 \<le> c then c - 87 else c - 48)"

definition read_number :: "nat \<Rightarrow> int list \<Rightarrow> int" where
  "read_number base cs =
     (case cs of
        [] \<Rightarrow> 0
      | c # ds \<Rightarrow> if c = 45 then - int (digits_value base (rev (map char_digit ds)))
                 else int (digits_value base (rev (map char_digit cs))))"

lemma digit_char_inverse:
  assumes "d < 16"
  shows "char_digit (digit_char d) = d \<and> digit_char d \<noteq> 45 \<and> echo (digit_char d) = [digit_char d]"
proof -
  have "\<forall>d \<in> set [0..<16]. char_digit (digit_char d) = d \<and> digit_char d \<noteq> 45 \<and> echo (digit_char d) = [digit_char d]"
    by code_simp
  with assms show ?thesis by simp
qed

lemma read_number_digits:
  fixes x :: nat
  assumes "2 \<le> base" and "base \<le> 16"
  defines "ds \<equiv> map digit_char (digits base x)"
  shows "read_number base (rev ds) = int x \<and> read_number base (rev (ds @ [45])) = - int x"
proof -
  have "map char_digit ds = digits base x"
    using digits_less [OF assms(1), of _ x] digit_char_inverse assms(2)
    unfolding ds_def map_map by (intro map_idI) (simp add: less_le_trans [OF _ assms(2)])
  then have val: "digits_value base (map char_digit ds) = x"
    using digits_value_digits [OF assms(1)] by simp
  have "45 \<notin> set ds"
    using digits_less [OF assms(1)] digit_char_inverse assms(2) unfolding ds_def by (fastforce dest: less_le_trans)
  moreover have "ds \<noteq> []" unfolding ds_def by (subst digits.simps) simp
  then obtain c cs where c: "rev ds = c # cs" by (cases "rev ds") auto
  ultimately have "c \<noteq> 45" by (metis list.set_intros(1) set_rev)
  then show ?thesis
    using val c by (simp add: read_number_def rev_map [symmetric])
qed

lemma echo_digits:
  assumes "2 \<le> base" and "base \<le> 16"
  shows "concat (map echo (rev (map digit_char (digits base x)))) = rev (map digit_char (digits base x))"
proof -
  have "map echo (rev (map digit_char (digits base x))) = map (\<lambda>c. [c]) (rev (map digit_char (digits base x)))"
    using digits_less [OF assms(1)] digit_char_inverse assms(2) by (fastforce dest: less_le_trans)
  then show ?thesis by (simp only: concat_map_singleton map_ident)
qed

lemma sint32:
  fixes w :: uint
  shows "sint w = (if uint w < 2 ^ 31 then uint w else uint w - 2 ^ 32)"
proof -
  have b: "0 \<le> uint w" "uint w < 2 ^ 32" using uint_range_size [of w] by (simp_all add: word_size)
  have "sint w = (uint w + 2 ^ 31) mod 2 ^ 32 - 2 ^ 31"
    using int_word_sint [of "uint w", where 'a = 32] by simp
  also have "\<dots> = (if uint w < 2 ^ 31 then uint w else uint w - 2 ^ 32)"
  proof (cases "uint w < 2 ^ 31")
    case True
    with b show ?thesis by (simp add: mod_pos_pos_trivial)
  next
    case False
    have "(uint w + 2 ^ 31) mod 2 ^ 32 = (uint w + 2 ^ 31 - 2 ^ 32) mod 2 ^ 32" by (rule minus_mod_self2 [symmetric])
    also have "\<dots> = uint w + 2 ^ 31 - 2 ^ 32" using b False by (intro mod_pos_pos_trivial) simp_all
    finally show ?thesis using False by simp
  qed
  finally show ?thesis .
qed

lemma sint_neg:
  fixes w :: uint
  shows "sint w < 0 \<Longrightarrow> int (unat (- w)) = - sint w" and "0 \<le> sint w \<Longrightarrow> int (unat w) = sint w"
proof -
  have b: "0 \<le> uint w" "uint w < 2 ^ 32" using uint_range_size [of w] by (simp_all add: word_size)
  show "int (unat w) = sint w" if "0 \<le> sint w"
    using that b by (simp add: sint32 split: if_splits)
  assume "sint w < 0"
  then have s: "sint w = uint w - 2 ^ 32" and pos: "0 < uint w" using b by (simp_all add: sint32 split: if_splits)
  have "uint (- w) = (- uint w) mod 2 ^ 32" by (simp add: uint_word_ariths)
  also have "\<dots> = (2 ^ 32 - uint w) mod 2 ^ 32" by (metis add.commute mod_add_self2 uminus_add_conv_diff)
  also have "\<dots> = 2 ^ 32 - uint w" using b pos by (intro mod_pos_pos_trivial) simp_all
  finally show "int (unat (- w)) = - sint w" using s by simp
qed



end
