(* ===== verification/Vm.thy ===== *)
theory Vm
  imports Kalloc Cprintf Sched
begin

text \<open>
  Page tables and user memory (\<^verbatim>\<open>vm.c\<close>). Page directories and page tables live in the
  flat memory; a pointer to an entry is its address and a null pointer is 0. Addresses
  the kernel computes from a null \<^verbatim>\<open>kalloc\<close> result are checked where the code does not.
\<close>

section \<open>Page tables\<close>

text \<open>The address of \<^verbatim>\<open>table[i]\<close> for a table of words.\<close>

definition entry :: "uint \<Rightarrow> uint \<Rightarrow> uint" where
  "entry table i = table + 4 * i"

definition getw :: "uint \<Rightarrow> kernel \<Rightarrow> uint" where
  "getw a s = load32 (mem s) a"

definition setw :: "uint \<Rightarrow> uint \<Rightarrow> kernel \<Rightarrow> kernel" where
  "setw a w s = s\<lparr>mem := store32 a w (mem s)\<rparr>"

definition nonnull :: "uint \<Rightarrow> unit result" where
  "nonnull a = (if a = 0 then Inl Null_Deref else Inr ())"

definition walkpgdir :: "uint \<Rightarrow> uint \<Rightarrow> bool \<Rightarrow> kernel \<Rightarrow> (uint \<times> kernel) result" where
  "walkpgdir pgdir va alloc s =
     (let pde = entry pgdir (PDX va) in
      if getw pde s AND PTE_P \<noteq> 0
      then Inr (entry (P2V (PTE_ADDR (getw pde s))) (PTX va), s)
      else if \<not> alloc then Inr (0, s)
      else
        bindr (kalloc s) (\<lambda>(pgtab, s).
        if pgtab = 0 then Inr (0, s)
        else
          let s = s\<lparr>mem := memset pgtab 0 PGSIZE (mem s)\<rparr>;
              s = setw pde (V2P pgtab OR PTE_P OR PTE_W OR PTE_U) s
          in Inr (entry pgtab (PTX va), s)))"

fun mappages_loop :: "nat \<Rightarrow> uint \<Rightarrow> uint \<Rightarrow> uint \<Rightarrow> uint \<Rightarrow> uint \<Rightarrow> kernel \<Rightarrow> (int \<times> kernel) result" where
  "mappages_loop n pgdir a lst pa perm s =
     bindr (walkpgdir pgdir a True s) (\<lambda>(pte, s).
     if pte = 0 then Inr (-1, s)
     else
       bindr (panic_if (getw pte s AND PTE_P \<noteq> 0) ''remap'') (\<lambda>_.
       let s = setw pte (pa OR perm OR PTE_P) s in
       if a = lst then Inr (0, s)
       else
         (case n of 0 \<Rightarrow> Inl Out_Of_Fuel
          | Suc n \<Rightarrow> mappages_loop n pgdir (a + PGSIZE) lst (pa + PGSIZE) perm s)))"

declare mappages_loop.simps [simp del]

definition mappages :: "uint \<Rightarrow> uint \<Rightarrow> uint \<Rightarrow> uint \<Rightarrow> uint \<Rightarrow> kernel \<Rightarrow> (int \<times> kernel) result" where
  "mappages pgdir va sz pa perm s =
     (let a = PGROUNDDOWN va; lst = PGROUNDDOWN (va + sz - 1)
      in mappages_loop (2 ^ 20) pgdir a lst pa perm s)"

section \<open>Releasing memory\<close>

fun deallocuvm_loop :: "nat \<Rightarrow> uint \<Rightarrow> uint \<Rightarrow> uint \<Rightarrow> kernel \<Rightarrow> kernel result" where
  "deallocuvm_loop n pgdir a oldsz s =
     (if a < oldsz then
        (case n of 0 \<Rightarrow> Inl Out_Of_Fuel
         | Suc n \<Rightarrow>
             bindr (walkpgdir pgdir a False s) (\<lambda>(pte, s).
             if pte = 0
             then deallocuvm_loop n pgdir (PGADDR (PDX a + 1) 0 0 - PGSIZE + PGSIZE) oldsz s
             else
               bindr (if getw pte s AND PTE_P \<noteq> 0 then
                        let pa = PTE_ADDR (getw pte s) in
                        bindr (panic_if (pa = 0) ''kfree'') (\<lambda>_.
                        let v = P2V pa in
                        bindr (refcount v s) (\<lambda>r.
                        bindr (if r = 1 then kfree v s else decref v s) (\<lambda>s.
                        Inr (setw pte 0 s))))
                      else Inr s)
                 (deallocuvm_loop n pgdir (a + PGSIZE) oldsz)))
      else Inr s)"

declare deallocuvm_loop.simps [simp del]

definition deallocuvm :: "uint \<Rightarrow> uint \<Rightarrow> uint \<Rightarrow> kernel \<Rightarrow> (uint \<times> kernel) result" where
  "deallocuvm pgdir oldsz newsz s =
     (if newsz \<ge> oldsz then Inr (oldsz, s)
      else bindr (deallocuvm_loop (2 ^ 20) pgdir (PGROUNDUP newsz) oldsz s) (\<lambda>s. Inr (newsz, s)))"

definition freevm_entry :: "uint \<Rightarrow> nat \<Rightarrow> kernel \<Rightarrow> kernel result" where
  "freevm_entry pgdir i s =
     (let e = getw (entry pgdir (of_nat i)) s in
      if e AND PTE_P \<noteq> 0 then kfree (P2V (PTE_ADDR e)) s else Inr s)"

definition freevm :: "uint \<Rightarrow> kernel \<Rightarrow> kernel result" where
  "freevm pgdir s =
     bindr (panic_if (pgdir = 0) ''freevm: no pgdir'') (\<lambda>_.
     bindr (deallocuvm pgdir KERNBASE 0 s) (\<lambda>(_, s).
     bindr (iter (freevm_entry pgdir) [0..<NPDENTRIES] s) (kfree pgdir)))"

section \<open>Building address spaces\<close>

text \<open>The table \<^verbatim>\<open>kmap\<close>: virtual address, physical start and end, permissions.\<close>

definition kmap :: "kernel \<Rightarrow> (uint \<times> uint \<times> uint \<times> uint) list" where
  "kmap s =
     [(KERNBASE, 0, EXTMEM, PTE_W),
      (KERNLINK, V2P KERNLINK, V2P (kdata s), 0),
      (kdata s, V2P (kdata s), PHYSTOP, PTE_W),
      (DEVSPACE, DEVSPACE, 0, PTE_W)]"

fun setupkvm_loop :: "uint \<Rightarrow> (uint \<times> uint \<times> uint \<times> uint) list \<Rightarrow> kernel \<Rightarrow> (uint \<times> kernel) result" where
  "setupkvm_loop pgdir [] s = Inr (pgdir, s)"
| "setupkvm_loop pgdir ((virt, phys_start, phys_end, perm) # ks) s =
     bindr (mappages pgdir virt (phys_end - phys_start) phys_start perm s) (\<lambda>(r, s).
     if r < 0 then bindr (freevm pgdir s) (\<lambda>s. Inr (0, s))
     else setupkvm_loop pgdir ks s)"

definition setupkvm :: "kernel \<Rightarrow> (uint \<times> kernel) result" where
  "setupkvm s =
     bindr (kalloc s) (\<lambda>(pgdir, s).
     if pgdir = 0 then Inr (0, s)
     else
       let s = s\<lparr>mem := memset pgdir 0 PGSIZE (mem s)\<rparr> in
       bindr (panic_if (P2V PHYSTOP > DEVSPACE) ''PHYSTOP too high'') (\<lambda>_.
       setupkvm_loop pgdir (kmap s) s))"

definition kvmalloc :: "kernel \<Rightarrow> kernel result" where
  "kvmalloc s = bindr (setupkvm s) (\<lambda>(d, s). Inr (switchkvm (s\<lparr>kpgdir := d\<rparr>)))"

text \<open>\<open>init\<close> holds the bytes of the initial program, \<open>sz\<close> their number.\<close>

definition inituvm :: "uint \<Rightarrow> bytes \<Rightarrow> uint \<Rightarrow> kernel \<Rightarrow> kernel result" where
  "inituvm pgdir init sz s =
     bindr (panic_if (sz \<ge> PGSIZE) ''inituvm: more than a page'') (\<lambda>_.
     bindr (kalloc s) (\<lambda>(m, s).
     bindr (nonnull m) (\<lambda>_.
     let s = s\<lparr>mem := memset m 0 PGSIZE (mem s)\<rparr> in
     bindr (mappages pgdir 0 PGSIZE (V2P m) (PTE_W OR PTE_U) s) (\<lambda>(_, s).
     Inr (s\<lparr>mem := (\<lambda>a. if a - m < sz then init (unat (a - m)) else mem s a)\<rparr>)))))"

fun allocuvm_loop :: "nat \<Rightarrow> uint \<Rightarrow> uint \<Rightarrow> uint \<Rightarrow> uint \<Rightarrow> kernel \<Rightarrow> (uint \<times> kernel) result" where
  "allocuvm_loop n pgdir a oldsz newsz s =
     (if a < newsz then
        (case n of 0 \<Rightarrow> Inl Out_Of_Fuel
         | Suc n \<Rightarrow>
             bindr (kalloc s) (\<lambda>(m, s).
             if m = 0 then
               bindr (cprintf ''allocuvm out of memory\<newline>'' [] s) (\<lambda>s.
               bindr (deallocuvm pgdir newsz oldsz s) (\<lambda>(_, s).
               Inr (0, s)))
             else
               let s = s\<lparr>mem := memset m 0 PGSIZE (mem s)\<rparr> in
               bindr (mappages pgdir a PGSIZE (V2P m) (PTE_W OR PTE_U) s) (\<lambda>(r, s).
               if r < 0 then
                 bindr (cprintf ''allocuvm out of memory (2)\<newline>'' [] s) (\<lambda>s.
                 bindr (deallocuvm pgdir newsz oldsz s) (\<lambda>(_, s).
                 bindr (kfree m s) (\<lambda>s.
                 Inr (0, s))))
               else allocuvm_loop n pgdir (a + PGSIZE) oldsz newsz s)))
      else Inr (newsz, s))"

declare allocuvm_loop.simps [simp del]

definition allocuvm :: "uint \<Rightarrow> uint \<Rightarrow> uint \<Rightarrow> kernel \<Rightarrow> (uint \<times> kernel) result" where
  "allocuvm pgdir oldsz newsz s =
     (if newsz \<ge> KERNBASE then Inr (0, s)
      else if newsz < oldsz then Inr (oldsz, s)
      else allocuvm_loop (2 ^ 20) pgdir (PGROUNDUP oldsz) oldsz newsz s)"

definition clearpteu :: "uint \<Rightarrow> uint \<Rightarrow> kernel \<Rightarrow> kernel result" where
  "clearpteu pgdir uva s =
     bindr (walkpgdir pgdir uva False s) (\<lambda>(pte, s).
     bindr (panic_if (pte = 0) ''clearpteu'') (\<lambda>_.
     Inr (setw pte (getw pte s AND NOT PTE_U) s)))"

section \<open>Copying an address space\<close>

fun copyuvm_loop :: "nat \<Rightarrow> uint \<Rightarrow> uint \<Rightarrow> uint \<Rightarrow> uint \<Rightarrow> kernel \<Rightarrow> (uint \<times> kernel) result" where
  "copyuvm_loop n pgdir d i sz s =
     (if i < sz then
        (case n of 0 \<Rightarrow> Inl Out_Of_Fuel
         | Suc n \<Rightarrow>
             bindr (walkpgdir pgdir i False s) (\<lambda>(pte, s).
             bindr (panic_if (pte = 0) ''copyuvm: pte should exist'') (\<lambda>_.
             bindr (panic_if (getw pte s AND PTE_P = 0) ''copyuvm: page not present'') (\<lambda>_.
             let pa = PTE_ADDR (getw pte s); flags = PTE_FLAGS (getw pte s) in
             bindr (kalloc s) (\<lambda>(m, s).
             if m = 0 then bindr (freevm d s) (\<lambda>s. Inr (0, s))
             else
               let s = s\<lparr>mem := memmove m (P2V pa) PGSIZE (mem s)\<rparr> in
               bindr (mappages d i PGSIZE (V2P m) flags s) (\<lambda>(r, s).
               if r < 0 then bindr (kfree m s) (\<lambda>s. bindr (freevm d s) (\<lambda>s. Inr (0, s)))
               else copyuvm_loop n pgdir d (i + PGSIZE) sz s))))))
      else Inr (d, s))"

declare copyuvm_loop.simps [simp del]

definition copyuvm :: "uint \<Rightarrow> uint \<Rightarrow> kernel \<Rightarrow> (uint \<times> kernel) result" where
  "copyuvm pgdir sz s =
     bindr (setupkvm s) (\<lambda>(d, s).
     if d = 0 then Inr (0, s) else copyuvm_loop (2 ^ 20) pgdir d 0 sz s)"

definition flushtlb :: "kernel \<Rightarrow> kernel result" where
  "flushtlb s = bindr (my s) (\<lambda>(p, s). Inr (lcr3 (V2P (p_pgdir (procs s p))) s))"

fun cowuvm_loop :: "nat \<Rightarrow> uint \<Rightarrow> uint \<Rightarrow> uint \<Rightarrow> uint \<Rightarrow> kernel \<Rightarrow> (bool \<times> kernel) result" where
  "cowuvm_loop n pgdir d i sz s =
     (if i < sz then
        (case n of 0 \<Rightarrow> Inl Out_Of_Fuel
         | Suc n \<Rightarrow>
             bindr (walkpgdir pgdir i False s) (\<lambda>(pte, s).
             bindr (panic_if (pte = 0) ''copyuvm: pte should exist'') (\<lambda>_.
             bindr (panic_if (getw pte s AND PTE_P = 0) ''copyuvm: page not present'') (\<lambda>_.
             let s = setw pte (getw pte s AND NOT PTE_W) s;
                 pa = PTE_ADDR (getw pte s); flags = PTE_FLAGS (getw pte s) in
             bindr (mappages d i PGSIZE pa flags s) (\<lambda>(r, s).
             if r < 0 then Inr (False, s)
             else bindr (incref (P2V pa) s) (cowuvm_loop n pgdir d (i + PGSIZE) sz))))))
      else Inr (True, s))"

declare cowuvm_loop.simps [simp del]

definition cowuvm :: "uint \<Rightarrow> uint \<Rightarrow> kernel \<Rightarrow> (uint \<times> kernel) result" where
  "cowuvm pgdir sz s =
     bindr (setupkvm s) (\<lambda>(d, s).
     if d = 0 then Inr (0, s)
     else
       bindr (cowuvm_loop (2 ^ 20) pgdir d 0 sz s) (\<lambda>(ok, s).
       if ok then bindr (flushtlb s) (\<lambda>s. Inr (d, s))
       else bindr (freevm d s) (\<lambda>s. Inr (0, s))))"

section \<open>User addresses and page faults\<close>

definition uva2ka :: "uint \<Rightarrow> uint \<Rightarrow> kernel \<Rightarrow> (uint \<times> kernel) result" where
  "uva2ka pgdir uva s =
     bindr (walkpgdir pgdir uva False s) (\<lambda>(pte, s).
     bindr (nonnull pte) (\<lambda>_.
     if getw pte s AND PTE_P = 0 then Inr (0, s)
     else if getw pte s AND PTE_U = 0 then Inr (0, s)
     else Inr (P2V (PTE_ADDR (getw pte s)), s)))"

definition name_chars :: "proc \<Rightarrow> int list" where
  "name_chars q = map (\<lambda>i. uint (p_name q i)) (takeWhile (\<lambda>i. p_name q i \<noteq> 0) [0..<16])"

definition pgflt_kill :: "string \<Rightarrow> kernel \<Rightarrow> kernel result" where
  "pgflt_kill fmt s =
     bindr (my s) (\<lambda>(p, s).
     bindr (cprintf fmt [Cword (word_of_int (p_pid (procs s p))), Cstr (Some (name_chars (procs s p)))] s) (\<lambda>s.
     bindr (my s) (\<lambda>(p, s).
     Inr (upd_proc p (\<lambda>q. q\<lparr>p_killed := True\<rparr>) s))))"

definition handlepgflt :: "kernel \<Rightarrow> kernel result" where
  "handlepgflt s =
     (let faultaddr = c_cr2 (cpus s (this_cpu s)); gfa = PGROUNDDOWN faultaddr in
      bindr (if faultaddr \<ge> KERNBASE then Inr (0, s)
             else bindr (my s) (\<lambda>(p, s). walkpgdir (p_pgdir (procs s p)) gfa False s)) (\<lambda>(pte, s).
      if pte = 0 then pgflt_kill ''pid %d %s: Page fault: Invalid Address.\<newline>'' s
      else
        let pa = PTE_ADDR (getw pte s); flags = PTE_FLAGS (getw pte s); v = P2V pa in
        bindr (refcount v s) (\<lambda>r.
        if r > 1 then
          bindr (kalloc s) (\<lambda>(m, s).
          if m = 0 then pgflt_kill ''pid %d %s: No memory available.\<newline>'' s
          else
            let s = s\<lparr>mem := memmove m v PGSIZE (mem s)\<rparr>;
                s = setw pte (V2P m OR flags OR PTE_P OR PTE_W) s
            in bindr (decref v s) flushtlb)
        else flushtlb (setw pte (getw pte s OR PTE_W) s))))"

text \<open>
  \<^verbatim>\<open>copyout\<close> from a byte sequence \<open>buf\<close>; each iteration ends at a page boundary or ends
  the copy.
\<close>

fun copyout_loop :: "nat \<Rightarrow> uint \<Rightarrow> uint \<Rightarrow> bytes \<Rightarrow> uint \<Rightarrow> kernel \<Rightarrow> (int \<times> kernel) result" where
  "copyout_loop k pgdir va buf len s =
     (if len > 0 then
        (case k of 0 \<Rightarrow> Inl Out_Of_Fuel
         | Suc k \<Rightarrow>
             let va0 = PGROUNDDOWN va in
             bindr (uva2ka pgdir va0 s) (\<lambda>(pa0, s).
             if pa0 = 0 then Inr (-1, s)
             else
               let n = PGSIZE - (va - va0);
                   n = (if n > len then len else n);
                   dst = pa0 + (va - va0);
                   s = s\<lparr>mem := (\<lambda>a. if a - dst < n then buf (unat (a - dst)) else mem s a)\<rparr>
               in copyout_loop k pgdir (va0 + PGSIZE) (drop_bytes (unat n) buf) (len - n) s))
      else Inr (0, s))"

declare copyout_loop.simps [simp del]

definition copyout :: "uint \<Rightarrow> uint \<Rightarrow> bytes \<Rightarrow> uint \<Rightarrow> kernel \<Rightarrow> (int \<times> kernel) result" where
  "copyout pgdir va p len s = copyout_loop (2 ^ 20 + 1) pgdir va p len s"

section \<open>Access to user memory from the kernel\<close>

text \<open>
  A kernel access to a user address goes through the page table in \<^verbatim>\<open>cr3\<close>, with write
  protection on (\<^verbatim>\<open>CR0_WP\<close>): a read needs present entries, a write needs writable ones. A
  fault pushes a frame, runs the \<^verbatim>\<open>T_PGFLT\<close> branch of \<^verbatim>\<open>trap\<close>, and the instruction is tried
  again; an access that still faults would fault for ever.
\<close>

definition trap_pgflt :: "uint \<Rightarrow> kernel \<Rightarrow> kernel result" where
  "trap_pgflt tf s =
     bindr (my s) (\<lambda>(p, s). handlepgflt (upd_proc p (\<lambda>q. q\<lparr>p_tf := tf\<rparr>) s))"

definition translate :: "bool \<Rightarrow> uint \<Rightarrow> kernel \<Rightarrow> uint option" where
  "translate write va s =
     (let pde = getw (entry (P2V (c_cr3 (cpus s (this_cpu s)))) (PDX va)) s;
          pte = getw (entry (P2V (PTE_ADDR pde)) (PTX va)) s;
          need = (if write then PTE_P OR PTE_W else PTE_P)
      in if pde AND need = need \<and> pte AND need = need
         then Some (P2V (PTE_ADDR pte) + (va - PGROUNDDOWN va)) else None)"

definition access :: "bool \<Rightarrow> uint \<Rightarrow> kernel \<Rightarrow> (uint \<times> kernel) result" where
  "access write va s =
     (case translate write va s of
        Some a \<Rightarrow> Inr (a, s)
      | None \<Rightarrow>
          bindr (trap_pgflt (kframe s) (upd_cpu (\<lambda>c. c\<lparr>c_cr2 := va\<rparr>) s)) (\<lambda>s.
          case translate write va s of Some a \<Rightarrow> Inr (a, s) | None \<Rightarrow> Inl Out_Of_Fuel))"

definition load_user :: "uint \<Rightarrow> kernel \<Rightarrow> (uchar \<times> kernel) result" where
  "load_user va s = bindr (access False va s) (\<lambda>(a, s). Inr (mem s a, s))"

definition store_user :: "uint \<Rightarrow> uchar \<Rightarrow> kernel \<Rightarrow> kernel result" where
  "store_user va b s = bindr (access True va s) (\<lambda>(a, s). Inr (s\<lparr>mem := (mem s)(a := b)\<rparr>))"

fun load_users :: "uint \<Rightarrow> nat \<Rightarrow> kernel \<Rightarrow> (uchar list \<times> kernel) result" where
  "load_users va 0 s = Inr ([], s)"
| "load_users va (Suc n) s =
     bindr (load_user va s) (\<lambda>(b, s).
     bindr (load_users (va + 1) n s) (\<lambda>(bs, s). Inr (b # bs, s)))"

fun store_users :: "uint \<Rightarrow> uchar list \<Rightarrow> kernel \<Rightarrow> kernel result" where
  "store_users va [] s = Inr s"
| "store_users va (b # bs) s = bindr (store_user va b s) (store_users (va + 1) bs)"

definition load_user32 :: "uint \<Rightarrow> kernel \<Rightarrow> (uint \<times> kernel) result" where
  "load_user32 va s =
     bindr (load_users va 4 s) (\<lambda>(bs, s). Inr (word_of (bs ! 0) (bs ! 1) (bs ! 2) (bs ! 3), s))"

definition store_user32 :: "uint \<Rightarrow> uint \<Rightarrow> kernel \<Rightarrow> kernel result" where
  "store_user32 va w s = store_users va [byte_of 0 w, byte_of 1 w, byte_of 2 w, byte_of 3 w] s"

text \<open>
  Where the kernel copies bytes from or to: user memory, kernel memory, or a variable of
  the calling function, whose bytes the model passes along.
\<close>

datatype buffer = Uva uint | Kva uint | Local bytes

definition fetch_bytes :: "buffer \<Rightarrow> uint \<Rightarrow> nat \<Rightarrow> kernel \<Rightarrow> (uchar list \<times> kernel) result" where
  "fetch_bytes b off n s =
     (case b of
        Uva a \<Rightarrow> load_users (a + off) n s
      | Kva a \<Rightarrow> Inr (map (\<lambda>i. mem s (a + off + of_nat i)) [0..<n], s)
      | Local f \<Rightarrow> Inr (map (\<lambda>i. f (unat off + i)) [0..<n], s))"

definition deliver_bytes :: "buffer \<Rightarrow> uint \<Rightarrow> uchar list \<Rightarrow> kernel \<Rightarrow> kernel result" where
  "deliver_bytes b off bs s =
     (case b of
        Uva a \<Rightarrow> store_users (a + off) bs s
      | Kva a \<Rightarrow> Inr (s\<lparr>mem := (\<lambda>x. let d = unat (x - (a + off)) in if d < length bs then bs ! d else mem s x)\<rparr>)
      | Local f \<Rightarrow> Inr s)"

end
