(* ===== verification/Inode.thy ===== *)
theory Inode
  imports Log Vm
begin

text \<open>
  Blocks and inodes of the file system (\<^verbatim>\<open>fs.c\<close>, first half): the free-block bitmap, the
  on-disk inode format of \<^verbatim>\<open>fs.h\<close>, the inode cache, and the map from file offsets to disk
  blocks. \<^verbatim>\<open>short\<close> fields are 16-bit words read as signed where the code compares them.
\<close>

section \<open>Format constants (\<^verbatim>\<open>fs.h\<close>)\<close>

definition ROOTINO :: uint where [simp]: "ROOTINO = 1"
definition NDIRECT :: nat where [simp]: "NDIRECT = 12"
definition NINDIRECT :: nat where [simp]: "NINDIRECT = 128"
definition MAXFILE :: nat where [simp]: "MAXFILE = NDIRECT + NINDIRECT"
definition IPB :: uint where [simp]: "IPB = 8"
definition BPB :: uint where [simp]: "BPB = 4096"
definition DIRSIZ :: nat where [simp]: "DIRSIZ = 14"
definition T_DIR :: ushort where [simp]: "T_DIR = 1"
definition T_FILE :: ushort where [simp]: "T_FILE = 2"
definition T_DEV :: ushort where [simp]: "T_DEV = 3"

definition IBLOCK :: "uint \<Rightarrow> superblock \<Rightarrow> uint" where
  "IBLOCK i sbk = i div IPB + sb_inodestart sbk"

definition BBLOCK :: "uint \<Rightarrow> superblock \<Rightarrow> uint" where
  "BBLOCK b sbk = b div BPB + sb_bmapstart sbk"

text \<open>\<^verbatim>\<open>struct dinode\<close> and its 64 bytes inside a block.\<close>

record dinode =
  d_type :: ushort
  d_major :: ushort
  d_minor :: ushort
  d_nlink :: ushort
  d_size :: uint
  d_addrs :: "nat \<Rightarrow> uint"

definition dinode_off :: "uint \<Rightarrow> nat" where
  "dinode_off inum = 64 * unat (inum mod IPB)"

definition get_dinode :: "block \<Rightarrow> nat \<Rightarrow> dinode" where
  "get_dinode d o' =
     \<lparr>d_type = get16 d o', d_major = get16 d (o' + 2), d_minor = get16 d (o' + 4), d_nlink = get16 d (o' + 6),
      d_size = get32 d (o' + 8), d_addrs = (\<lambda>i. if i \<le> NDIRECT then get32 d (o' + 12 + 4 * i) else 0)\<rparr>"

definition put_dinode :: "nat \<Rightarrow> dinode \<Rightarrow> block \<Rightarrow> block" where
  "put_dinode o' di d =
     fold (\<lambda>i. put32 (o' + 12 + 4 * i) (d_addrs di i)) [0..<NDIRECT + 1]
       (put32 (o' + 8) (d_size di)
       (put16 (o' + 6) (d_nlink di)
       (put16 (o' + 4) (d_minor di)
       (put16 (o' + 2) (d_major di)
       (put16 o' (d_type di) d)))))"

section \<open>Blocks\<close>

definition bzero :: "uint \<Rightarrow> uint \<Rightarrow> kernel \<Rightarrow> kernel result" where
  "bzero dev bno s =
     bindr (bread dev bno s) (\<lambda>(bp, s).
     let s = set_data bp (copy_block (buf_data bp s) (\<lambda>_. 0)) s in
     bindr (log_write bp s) (brelse bp))"

definition bit_mask :: "nat \<Rightarrow> uchar" where
  "bit_mask bi = push_bit (bi mod 8) 1"

definition bit_free :: "block \<Rightarrow> nat \<Rightarrow> bool" where
  "bit_free d bi \<longleftrightarrow> d (bi div 8) AND bit_mask bi = 0"

text \<open>The first free bit of one bitmap block, for the blocks \<open>b + bi\<close> that exist.\<close>

definition find_bit :: "block \<Rightarrow> uint \<Rightarrow> uint \<Rightarrow> nat option" where
  "find_bit d b size' =
     find (bit_free d) (takeWhile (\<lambda>bi. b + of_nat bi < size') [0..<unat BPB])"

fun balloc_loop :: "nat \<Rightarrow> uint \<Rightarrow> uint \<Rightarrow> kernel \<Rightarrow> (uint \<times> kernel) result" where
  "balloc_loop n b dev s =
     (if b < sb_size (sb s) then
        (case n of 0 \<Rightarrow> Inl Out_Of_Fuel
         | Suc n \<Rightarrow>
             bindr (bread dev (BBLOCK b (sb s)) s) (\<lambda>(bp, s).
             let d = buf_data bp s in
             case find_bit d b (sb_size (sb s)) of
               Some bi \<Rightarrow>
                 let s = set_data bp (d(bi div 8 := d (bi div 8) OR bit_mask bi)) s in
                 bindr (log_write bp s) (\<lambda>s.
                 bindr (brelse bp s) (\<lambda>s.
                 bindr (bzero dev (b + of_nat bi) s) (\<lambda>s.
                 Inr (b + of_nat bi, s))))
             | None \<Rightarrow> bindr (brelse bp s) (balloc_loop n (b + BPB) dev)))
      else Inl (Panic ''balloc: out of blocks''))"

declare balloc_loop.simps [simp del]

definition balloc :: "uint \<Rightarrow> kernel \<Rightarrow> (uint \<times> kernel) result" where
  "balloc dev s = balloc_loop (2 ^ 20) 0 dev s"

definition bfree :: "uint \<Rightarrow> uint \<Rightarrow> kernel \<Rightarrow> kernel result" where
  "bfree dev b s =
     bindr (readsb (sint dev) s) (\<lambda>(sb', s).
     let s = s\<lparr>sb := sb'\<rparr> in
     bindr (bread dev (BBLOCK b (sb s)) s) (\<lambda>(bp, s).
     let bi = unat (b mod BPB); d = buf_data bp s in
     bindr (panic_if (bit_free d bi) ''freeing free block'') (\<lambda>_.
     let s = set_data bp (d(bi div 8 := d (bi div 8) AND NOT (bit_mask bi))) s in
     bindr (log_write bp s) (brelse bp))))"

section \<open>The inode cache\<close>

definition iinit :: "int \<Rightarrow> kernel \<Rightarrow> kernel result" where
  "iinit dev s =
     (let s = initlock Icache_lock s;
          s = fold (\<lambda>i. initsleeplock (Inode_sl i)) [0..<NINODE] s in
      bindr (readsb dev s) (\<lambda>(sb', s).
      let s = s\<lparr>sb := sb'\<rparr> in
      cprintf ''sb: size %d nblocks %d ninodes %d nlog %d logstart %d inodestart %d bmap start %d\<newline>''
        [Cword (sb_size sb'), Cword (sb_nblocks sb'), Cword (sb_ninodes sb'), Cword (sb_nlog sb'),
         Cword (sb_logstart sb'), Cword (sb_inodestart sb'), Cword (sb_bmapstart sb')] s))"

definition iget :: "uint \<Rightarrow> uint \<Rightarrow> kernel \<Rightarrow> (nat \<times> kernel) result" where
  "iget dev inum s =
     bindr (acquire Icache_lock s) (\<lambda>s.
     case find (\<lambda>i. ip_ref (icache s i) > 0 \<and> ip_dev (icache s i) = dev \<and> ip_inum (icache s i) = inum)
            [0..<NINODE] of
       Some i \<Rightarrow>
         let s = upd_inode i (\<lambda>ip. ip\<lparr>ip_ref := ip_ref ip + 1\<rparr>) s in
         bindr (release Icache_lock s) (\<lambda>s. Inr (i, s))
     | None \<Rightarrow>
         (case find (\<lambda>i. ip_ref (icache s i) = 0) [0..<NINODE] of
            None \<Rightarrow> Inl (Panic ''iget: no inodes'')
          | Some i \<Rightarrow>
              let s = upd_inode i (\<lambda>ip. ip\<lparr>ip_dev := dev, ip_inum := inum, ip_ref := 1, ip_valid := False\<rparr>) s in
              bindr (release Icache_lock s) (\<lambda>s. Inr (i, s))))"

fun ialloc_loop :: "nat \<Rightarrow> uint \<Rightarrow> uint \<Rightarrow> ushort \<Rightarrow> kernel \<Rightarrow> (nat \<times> kernel) result" where
  "ialloc_loop n inum dev type s =
     (if inum < sb_ninodes (sb s) then
        (case n of 0 \<Rightarrow> Inl Out_Of_Fuel
         | Suc n \<Rightarrow>
             bindr (bread dev (IBLOCK inum (sb s)) s) (\<lambda>(bp, s).
             let d = buf_data bp s; o' = dinode_off inum in
             if get16 d o' = 0 then
               let s = set_data bp (put_dinode o' \<lparr>d_type = type, d_major = 0, d_minor = 0, d_nlink = 0,
                                                   d_size = 0, d_addrs = (\<lambda>_. 0)\<rparr> d) s in
               bindr (log_write bp s) (\<lambda>s.
               bindr (brelse bp s) (iget dev inum))
             else bindr (brelse bp s) (ialloc_loop n (inum + 1) dev type)))
      else Inl (Panic ''ialloc: no inodes''))"

declare ialloc_loop.simps [simp del]

definition ialloc :: "uint \<Rightarrow> ushort \<Rightarrow> kernel \<Rightarrow> (nat \<times> kernel) result" where
  "ialloc dev type s = ialloc_loop (2 ^ 32) 1 dev type s"

text \<open>The fields of an in-memory inode that live on disk.\<close>

definition dinode_of :: "inode \<Rightarrow> dinode" where
  "dinode_of ip = \<lparr>d_type = ip_type ip, d_major = ip_major ip, d_minor = ip_minor ip, d_nlink = ip_nlink ip,
                   d_size = ip_size ip, d_addrs = ip_addrs ip\<rparr>"

definition iupdate :: "nat \<Rightarrow> kernel \<Rightarrow> kernel result" where
  "iupdate i s =
     (let ip = icache s i in
      bindr (bread (ip_dev ip) (IBLOCK (ip_inum ip) (sb s)) s) (\<lambda>(bp, s).
      let s = set_data bp (put_dinode (dinode_off (ip_inum ip)) (dinode_of (icache s i)) (buf_data bp s)) s in
      bindr (log_write bp s) (brelse bp)))"

definition idup :: "nat \<Rightarrow> kernel \<Rightarrow> (nat \<times> kernel) result" where
  "idup i s =
     bindr (acquire Icache_lock s) (\<lambda>s.
     let s = upd_inode i (\<lambda>ip. ip\<lparr>ip_ref := ip_ref ip + 1\<rparr>) s in
     bindr (release Icache_lock s) (\<lambda>s. Inr (i, s)))"

definition load_inode :: "dinode \<Rightarrow> inode \<Rightarrow> inode" where
  "load_inode di ip = ip\<lparr>ip_type := d_type di, ip_major := d_major di, ip_minor := d_minor di,
     ip_nlink := d_nlink di, ip_size := d_size di,
     ip_addrs := (\<lambda>i. if i \<le> NDIRECT then d_addrs di i else ip_addrs ip i)\<rparr>"

definition ilock :: "nat option \<Rightarrow> kernel \<Rightarrow> kernel result" where
  "ilock ptr s =
     (case ptr of
        None \<Rightarrow> Inl (Panic ''ilock'')
      | Some i \<Rightarrow>
          bindr (panic_if (ip_ref (icache s i) < 1) ''ilock'') (\<lambda>_.
          bindr (acquiresleep (Inode_sl i) s) (\<lambda>s.
          if \<not> ip_valid (icache s i) then
            let ip = icache s i in
            bindr (bread (ip_dev ip) (IBLOCK (ip_inum ip) (sb s)) s) (\<lambda>(bp, s).
            let s = upd_inode i (load_inode (get_dinode (buf_data bp s) (dinode_off (ip_inum ip)))) s in
            bindr (brelse bp s) (\<lambda>s.
            let s = upd_inode i (\<lambda>ip. ip\<lparr>ip_valid := True\<rparr>) s in
            bindr (panic_if (ip_type (icache s i) = 0) ''ilock: no type'') (\<lambda>_.
            Inr s)))
          else Inr s)))"

definition iunlock :: "nat option \<Rightarrow> kernel \<Rightarrow> kernel result" where
  "iunlock ptr s =
     (case ptr of
        None \<Rightarrow> Inl (Panic ''iunlock'')
      | Some i \<Rightarrow>
          bindr (holdingsleep (Inode_sl i) s) (\<lambda>(h, s).
          bindr (panic_if (\<not> h \<or> ip_ref (icache s i) < 1) ''iunlock'') (\<lambda>_.
          releasesleep (Inode_sl i) s)))"

section \<open>The blocks of a file\<close>

text \<open>\<^verbatim>\<open>ip->addrs[bn]\<close>, allocated on first use.\<close>

definition bmap_slot :: "nat \<Rightarrow> nat \<Rightarrow> kernel \<Rightarrow> (uint \<times> kernel) result" where
  "bmap_slot i bn s =
     (let addr = ip_addrs (icache s i) bn in
      if addr = 0 then
        bindr (balloc (ip_dev (icache s i)) s) (\<lambda>(addr, s).
        Inr (addr, upd_inode i (\<lambda>ip. ip\<lparr>ip_addrs := (ip_addrs ip)(bn := addr)\<rparr>) s))
      else Inr (addr, s))"

definition bmap :: "nat \<Rightarrow> uint \<Rightarrow> kernel \<Rightarrow> (uint \<times> kernel) result" where
  "bmap i bn s =
     (if unat bn < NDIRECT then bmap_slot i (unat bn) s
      else
        let bn = bn - of_nat NDIRECT in
        if unat bn < NINDIRECT then
          bindr (bmap_slot i NDIRECT s) (\<lambda>(addr, s).
          bindr (bread (ip_dev (icache s i)) addr s) (\<lambda>(bp, s).
          let addr = get32 (buf_data bp s) (4 * unat bn) in
          bindr (if addr = 0 then
                   bindr (balloc (ip_dev (icache s i)) s) (\<lambda>(addr, s).
                   let s = set_data bp (put32 (4 * unat bn) addr (buf_data bp s)) s in
                   bindr (log_write bp s) (\<lambda>s. Inr (addr, s)))
                 else Inr (addr, s)) (\<lambda>(addr, s).
          bindr (brelse bp s) (\<lambda>s.
          Inr (addr, s)))))
        else Inl (Panic ''bmap: out of range''))"

definition itrunc_slot :: "nat \<Rightarrow> nat \<Rightarrow> kernel \<Rightarrow> kernel result" where
  "itrunc_slot i k s =
     (if ip_addrs (icache s i) k \<noteq> 0 then
        bindr (bfree (ip_dev (icache s i)) (ip_addrs (icache s i) k) s) (\<lambda>s.
        Inr (upd_inode i (\<lambda>ip. ip\<lparr>ip_addrs := (ip_addrs ip)(k := 0)\<rparr>) s))
      else Inr s)"

definition itrunc :: "nat \<Rightarrow> kernel \<Rightarrow> kernel result" where
  "itrunc i s =
     bindr (iter (itrunc_slot i) [0..<NDIRECT] s) (\<lambda>s.
     bindr (if ip_addrs (icache s i) NDIRECT \<noteq> 0 then
              bindr (bread (ip_dev (icache s i)) (ip_addrs (icache s i) NDIRECT) s) (\<lambda>(bp, s).
              bindr (iter (\<lambda>j s. let a = get32 (buf_data bp s) (4 * j) in
                                 if a \<noteq> 0 then bfree (ip_dev (icache s i)) a s else Inr s)
                       [0..<NINDIRECT] s) (\<lambda>s.
              bindr (brelse bp s) (itrunc_slot i NDIRECT)))
            else Inr s) (\<lambda>s.
     iupdate i (upd_inode i (\<lambda>ip. ip\<lparr>ip_size := 0\<rparr>) s)))"

definition iput :: "nat \<Rightarrow> kernel \<Rightarrow> kernel result" where
  "iput i s =
     bindr (acquiresleep (Inode_sl i) s) (\<lambda>s.
     bindr (if ip_valid (icache s i) \<and> ip_nlink (icache s i) = 0 then
              bindr (acquire Icache_lock s) (\<lambda>s.
              let r = ip_ref (icache s i) in
              bindr (release Icache_lock s) (\<lambda>s.
              if r = 1 then
                bindr (itrunc i s) (\<lambda>s.
                bindr (iupdate i (upd_inode i (\<lambda>ip. ip\<lparr>ip_type := 0\<rparr>) s)) (\<lambda>s.
                Inr (upd_inode i (\<lambda>ip. ip\<lparr>ip_valid := False\<rparr>) s)))
              else Inr s))
            else Inr s) (\<lambda>s.
     bindr (releasesleep (Inode_sl i) s) (\<lambda>s.
     bindr (acquire Icache_lock s) (\<lambda>s.
     release Icache_lock (upd_inode i (\<lambda>ip. ip\<lparr>ip_ref := ip_ref ip - 1\<rparr>) s)))))"

definition iunlockput :: "nat \<Rightarrow> kernel \<Rightarrow> kernel result" where
  "iunlockput i s = bindr (iunlock (Some i) s) (iput i)"

end
