(* ===== verification/Ring.thy ===== *)
theory Ring
  imports Kernel_Types
begin

text \<open>
  Ring buffers with free-running counters: a byte array of some capacity, a counter of the
  bytes ever taken and a counter of the bytes ever put, both of 32 bits, with the array
  index computed from a counter. Pipes and the console's input buffer are instances. The
  contract is that the index function keeps a window of \<open>cap\<close> consecutive counter values
  apart, also across the wrap of the counter.
\<close>

text \<open>The bytes between two counters, oldest first.\<close>

definition ring_window :: "(uint \<Rightarrow> nat) \<Rightarrow> (nat \<Rightarrow> uchar) \<Rightarrow> uint \<Rightarrow> uint \<Rightarrow> uchar list" where
  "ring_window slot data r w = map (\<lambda>k. data (slot (r + of_nat k))) [0..<unat (w - r)]"

lemma ring_window_length [simp]: "length (ring_window slot data r w) = unat (w - r)"
  by (simp add: ring_window_def)

lemma ring_window_empty [simp]: "ring_window slot data r w = [] \<longleftrightarrow> r = w"
  by (auto simp: ring_window_def unat_eq_0)

lemma ring_window_same [simp]: "ring_window slot data r r = []"
  by simp

lemma unat_sub_Suc:
  assumes "w \<noteq> (r :: uint)"
  shows "unat (w - r) = Suc (unat (w - (r + 1)))"
proof -
  have "w - r \<noteq> 0" using assms by simp
  then have "unat (w - r - 1) = unat (w - r) - 1" by (rule unat_minus_one)
  moreover have "0 < unat (w - r)" using assms by (simp add: unat_gt_0)
  ultimately show ?thesis by (simp add: diff_diff_eq)
qed

locale ring =
  fixes slot :: "uint \<Rightarrow> nat" and cap :: nat
  assumes slot_apart: "j < cap \<Longrightarrow> k < cap \<Longrightarrow> slot (i + of_nat j) = slot (i + of_nat k) \<Longrightarrow> j = k"
    and cap_range: "0 < cap" "cap < 2 ^ 32"
begin

lemma window_put:
  assumes "unat (w - r) < cap"
  shows "ring_window slot (data(slot w := c)) r (w + 1) = ring_window slot data r w @ [c]"
proof -
  define n where "n = unat (w - r)"
  have w: "w = r + of_nat n" by (simp add: n_def)
  have n: "n < cap" using assms by (simp add: n_def)
  have "w + 1 \<noteq> r"
  proof
    assume "w + 1 = r"
    then have "w - r = - 1" by (simp add: algebra_simps)
    then have "unat (w - r) = 2 ^ 32 - 1" by (simp add: unsigned_minus_1_eq_mask mask_eq_exp_minus_1)
    with assms cap_range(2) show False by linarith
  qed
  then have "unat (w + 1 - r) = Suc n"
    using unat_sub_Suc [of "w + 1" r] by (simp add: n_def)
  moreover have "slot (r + of_nat k) \<noteq> slot w" if "k < n" for k
    using slot_apart [of k n r] that n w by auto
  ultimately show ?thesis
    unfolding ring_window_def n_def [symmetric] by (simp add: w [symmetric])
qed

lemma window_get:
  assumes "w \<noteq> r"
  shows "ring_window slot data r w = data (slot r) # ring_window slot data (r + 1) w"
proof -
  have "[0..<unat (w - r)] = 0 # map Suc [0..<unat (w - (r + 1))]"
    using unat_sub_Suc [OF assms] by (simp add: map_Suc_upt upt_conv_Cons)
  then show ?thesis by (simp add: ring_window_def add.assoc)
qed

lemma window_unput:
  assumes "w \<noteq> r"
  shows "ring_window slot data r w = ring_window slot data r (w - 1) @ [data (slot (w - 1))]"
proof -
  have "unat (w - r) = Suc (unat (w - 1 - r))"
    using unat_sub_Suc [OF assms] by (simp add: diff_diff_eq add.commute)
  moreover have "r + of_nat (unat (w - 1 - r)) = w - 1" by simp
  ultimately show ?thesis by (simp add: ring_window_def)
qed

lemma window_append:
  assumes "unat (w - r) \<le> unat (e - r)"
  shows "ring_window slot data r e = ring_window slot data r w @ ring_window slot data w e"
proof -
  have "e - w = (e - r) - (w - r)" by simp
  then have "unat (e - w) = unat (e - r) - unat (w - r)"
    using assms by (simp only: unat_sub32)
  then have "unat (e - r) = unat (w - r) + unat (e - w)" using assms by simp
  then have "[0..<unat (e - r)] = [0..<unat (w - r)] @ map (\<lambda>k. k + unat (w - r)) [0..<unat (e - w)]"
    unfolding map_add_upt using upt_add_eq_append [of 0 "unat (w - r)" "unat (e - w)"] by (simp add: add.commute)
  moreover have "slot (r + of_nat (k + unat (w - r))) = slot (w + of_nat k)" for k
    by (simp add: algebra_simps)
  ultimately show ?thesis by (simp add: ring_window_def)
qed

end

text \<open>The index function of both buffers: the counter modulo a power of two.\<close>

lemma ring_mod:
  assumes "0 < cap" and "cap dvd (2 ^ 32 :: nat)" and "cap < 2 ^ 32"
    and slot: "\<And>i. slot i = unat i mod cap"
  shows "ring slot cap"
proof
  fix i :: uint and j k :: nat
  assume jk: "j < cap" "k < cap" and eq: "slot (i + of_nat j) = slot (i + of_nat k)"
  have val: "slot (i + of_nat l) = (unat i + l) mod cap" if "l < cap" for l
  proof -
    have "unat (i + of_nat l) = (unat i + l) mod 2 ^ 32"
      using that assms(3) by (simp add: unat_word_ariths unat_of_nat)
    then show ?thesis using assms(2) by (simp add: slot mod_mod_cancel)
  qed
  from eq have eq': "(unat i + j) mod cap = (unat i + k) mod cap" by (simp only: val jk)
  have "b - a = 0" if "a \<le> b" "b < cap" "(unat i + b) mod cap = (unat i + a) mod cap" for a b
  proof -
    have "cap dvd (unat i + b) - (unat i + a)"
      using that(1,3) by (intro mod_eq_dvd_iff_nat [THEN iffD1]) simp_all
    then have "cap dvd b - a" by simp
    with that(2) show ?thesis by (auto dest: dvd_imp_le)
  qed
  from this [of j k] this [of k j] eq' jk show "j = k" by linarith
next
  show "0 < cap" by (rule assms(1))
  show "cap < 2 ^ 32" by (rule assms(3))
qed

section \<open>Bounded queues\<close>

text \<open>
  What a client expects of a byte queue of bounded capacity: \<open>contents\<close> abstracts a state to
  the list of its bytes, \<open>ok\<close> is the representation invariant. \<open>queue_run\<close> relates two states by
  any sequence of operations, with the bytes that entered and the bytes that left.
\<close>

inductive queue_run ::
  "(uchar \<Rightarrow> 'q \<Rightarrow> 'q) \<Rightarrow> ('q \<Rightarrow> uchar \<times> 'q) \<Rightarrow> ('q \<Rightarrow> bool) \<Rightarrow> ('q \<Rightarrow> bool) \<Rightarrow>
   'q \<Rightarrow> uchar list \<Rightarrow> uchar list \<Rightarrow> 'q \<Rightarrow> bool"
  for put :: "uchar \<Rightarrow> 'q \<Rightarrow> 'q" and get :: "'q \<Rightarrow> uchar \<times> 'q"
    and full :: "'q \<Rightarrow> bool" and empty :: "'q \<Rightarrow> bool" where
  run_start: "queue_run put get full empty q [] [] q"
| run_put: "queue_run put get full empty q ins outs q' \<Longrightarrow> \<not> full q' \<Longrightarrow>
    queue_run put get full empty q (ins @ [c]) outs (put c q')"
| run_get: "queue_run put get full empty q ins outs q' \<Longrightarrow> \<not> empty q' \<Longrightarrow> get q' = (c, q'') \<Longrightarrow>
    queue_run put get full empty q ins (outs @ [c]) q''"

locale bounded_queue =
  fixes put :: "uchar \<Rightarrow> 'q \<Rightarrow> 'q" and get :: "'q \<Rightarrow> uchar \<times> 'q"
    and full :: "'q \<Rightarrow> bool" and empty :: "'q \<Rightarrow> bool"
    and ok :: "'q \<Rightarrow> bool" and contents :: "'q \<Rightarrow> uchar list" and cap :: nat
  assumes full_iff: "ok q \<Longrightarrow> full q \<longleftrightarrow> length (contents q) = cap"
    and empty_iff: "ok q \<Longrightarrow> empty q \<longleftrightarrow> contents q = []"
    and bounded: "ok q \<Longrightarrow> length (contents q) \<le> cap"
    and put_ok: "ok q \<Longrightarrow> \<not> full q \<Longrightarrow> ok (put c q)"
    and put_contents: "ok q \<Longrightarrow> \<not> full q \<Longrightarrow> contents (put c q) = contents q @ [c]"
    and get_ok: "ok q \<Longrightarrow> \<not> empty q \<Longrightarrow> get q = (c, q') \<Longrightarrow> ok q'"
    and get_contents: "ok q \<Longrightarrow> \<not> empty q \<Longrightarrow> get q = (c, q') \<Longrightarrow> contents q = c # contents q'"
begin

lemma run_fifo:
  "queue_run put get full empty q ins outs q' \<Longrightarrow> ok q \<Longrightarrow>
   ok q' \<and> outs @ contents q' = contents q @ ins \<and> length (contents q') \<le> cap"
proof (induction rule: queue_run.induct)
  case (run_start q)
  then show ?case by (simp add: bounded)
next
  case (run_put q ins outs q' c)
  then have "ok (put c q')" "contents (put c q') = contents q' @ [c]" by (simp_all add: put_ok put_contents)
  with run_put bounded [of "put c q'"] show ?case by auto
next
  case (run_get q ins outs q' c q'')
  then have "ok q''" "contents q' = c # contents q''" using get_ok get_contents by blast+
  with run_get bounded [of q''] show ?case by auto
qed

end

end
