(* ===== verification/Console.thy ===== *)
theory Console
  imports Inode Ring
begin

text \<open>
  The console device (\<^verbatim>\<open>console.c\<close>): line editing in the interrupt handler, and the read
  and write operations of the device. The input buffer is a ring of \<open>INPUT_BUF\<close> bytes
  with three indices that grow without bound and wrap at 32 bits.
\<close>

definition INPUT_BUF :: uint where [simp]: "INPUT_BUF = 128"

definition CONSOLE :: nat where [simp]: "CONSOLE = 1"

text \<open>\<^verbatim>\<open>C(x)\<close>, control-x.\<close>

definition ctrl :: "char \<Rightarrow> int" where
  "ctrl c = of_char c - of_char CHR ''@''"

definition in_slot :: "uint \<Rightarrow> nat" where
  "in_slot i = unat (i mod INPUT_BUF)"

definition upd_input :: "(input_buf \<Rightarrow> input_buf) \<Rightarrow> kernel \<Rightarrow> kernel" where
  "upd_input f s = s\<lparr>input := f (input s)\<rparr>"

section \<open>Input\<close>

fun kill_line :: "nat \<Rightarrow> kernel \<Rightarrow> kernel result" where
  "kill_line n s =
     (if in_e (input s) \<noteq> in_w (input s) \<and> in_buf (input s) (in_slot (in_e (input s) - 1)) \<noteq> 10 then
        (case n of 0 \<Rightarrow> Inl Out_Of_Fuel
         | Suc n \<Rightarrow>
             bindr (consputc BACKSPACE (upd_input (\<lambda>b. b\<lparr>in_e := in_e b - 1\<rparr>) s)) (kill_line n))
      else Inr s)"

declare kill_line.simps [simp del]

text \<open>One character of the loop of \<^verbatim>\<open>consoleintr\<close>; the flag is \<^verbatim>\<open>doprocdump\<close>.\<close>

definition consoleintr_char :: "int \<Rightarrow> bool \<times> kernel \<Rightarrow> (bool \<times> kernel) result" where
  "consoleintr_char c st =
     (let (doprocdump, s) = st in
      if c = ctrl CHR ''P'' then Inr (True, s)
      else if c = ctrl CHR ''U'' then bindr (kill_line 128 s) (\<lambda>s. Inr (doprocdump, s))
      else if c = ctrl CHR ''H'' \<or> c = 0x7f then
        bindr (if in_e (input s) \<noteq> in_w (input s)
               then consputc BACKSPACE (upd_input (\<lambda>b. b\<lparr>in_e := in_e b - 1\<rparr>) s) else Inr s) (\<lambda>s.
        Inr (doprocdump, s))
      else if c \<noteq> 0 \<and> in_e (input s) - in_r (input s) < INPUT_BUF then
        let c = (if c = 13 then 10 else c);
            s = upd_input (\<lambda>b. b\<lparr>in_buf := (in_buf b)(in_slot (in_e b) := word_of_int c), in_e := in_e b + 1\<rparr>) s
        in
        bindr (consputc c s) (\<lambda>s.
        bindr (if c = 10 \<or> c = ctrl CHR ''D'' \<or> in_e (input s) = in_r (input s) + INPUT_BUF
               then wakeup (Some Chan_input) (upd_input (\<lambda>b. b\<lparr>in_w := in_e b\<rparr>) s) else Inr s) (\<lambda>s.
        Inr (doprocdump, s)))
      else Inr (doprocdump, s))"

text \<open>\<open>cs\<close> are the characters \<^verbatim>\<open>getc\<close> delivers before it returns a negative value.\<close>

definition consoleintr :: "int list \<Rightarrow> (kernel \<Rightarrow> kernel result) \<Rightarrow> kernel \<Rightarrow> kernel result" where
  "consoleintr cs procdump s =
     bindr (acquire Cons_lock s) (\<lambda>s.
     bindr (iter consoleintr_char cs (False, s)) (\<lambda>(doprocdump, s).
     bindr (release Cons_lock s) (\<lambda>s.
     if doprocdump then procdump s else Inr s)))"

section \<open>The device operations\<close>

text \<open>
  The loop of \<^verbatim>\<open>consoleread\<close> with \<open>k\<close> bytes still wanted, up to its end or its call of
  \<^verbatim>\<open>sleep\<close>; it returns the bytes still wanted.
\<close>

fun consoleread_loop :: "nat \<Rightarrow> buffer \<Rightarrow> nat \<Rightarrow> kernel \<Rightarrow> ((wait \<times> nat) \<times> kernel) result" where
  "consoleread_loop target dst 0 s = Inr ((Returns 0, 0), s)"
| "consoleread_loop target dst (Suc k) s =
     (if in_r (input s) = in_w (input s) then
        bindr (my s) (\<lambda>(p, s).
        if p_killed (procs s p) then Inr ((Returns (-1), Suc k), s)
        else bindr (sleep_enter (Some Chan_input) (Some Cons_lock) s) (\<lambda>(b, s). Inr ((Sleeps b, Suc k), s)))
      else
        let c = in_buf (input s) (in_slot (in_r (input s)));
            s = upd_input (\<lambda>b. b\<lparr>in_r := in_r b + 1\<rparr>) s in
        if sint c = ctrl CHR ''D'' then
          Inr ((Returns 0, Suc k),
               if Suc k < target then upd_input (\<lambda>b. b\<lparr>in_r := in_r b - 1\<rparr>) s else s)
        else
          bindr (deliver_bytes dst (of_nat (target - Suc k)) [c] s) (\<lambda>s.
          if c = 10 then Inr ((Returns 0, k), s) else consoleread_loop target dst k s))"

definition consoleread_pass :: "nat \<Rightarrow> buffer \<Rightarrow> nat \<Rightarrow> nat \<Rightarrow> kernel \<Rightarrow> ((wait \<times> nat) \<times> kernel) result" where
  "consoleread_pass ip dst target n s =
     bindr (consoleread_loop target dst n s) (\<lambda>((w, k), s).
     case w of
       Sleeps b \<Rightarrow> Inr ((Sleeps b, k), s)
     | Returns r \<Rightarrow>
         bindr (release Cons_lock s) (\<lambda>s.
         bindr (ilock (Some ip) s) (\<lambda>s.
         Inr ((Returns (if r < 0 then -1 else int (target - k)), k), s))))"

definition consoleread_enter :: "nat \<Rightarrow> buffer \<Rightarrow> int \<Rightarrow> kernel \<Rightarrow> ((wait \<times> nat) \<times> kernel) result" where
  "consoleread_enter ip dst n s =
     bindr (iunlock (Some ip) s) (\<lambda>s.
     bindr (acquire Cons_lock s) (consoleread_pass ip dst (nat n) (nat n)))"

definition consoleread_again ::
  "nat \<Rightarrow> buffer \<Rightarrow> nat \<Rightarrow> nat \<Rightarrow> nat \<Rightarrow> bool \<Rightarrow> kernel \<Rightarrow> ((wait \<times> nat) \<times> kernel) result" where
  "consoleread_again ip dst target n p intena s =
     bindr (sleep_exit p Cons_lock intena s) (consoleread_pass ip dst target n)"

definition consoleread :: "nat \<Rightarrow> buffer \<Rightarrow> int \<Rightarrow> kernel \<Rightarrow> (int \<times> kernel) result" where
  "consoleread ip dst n s =
     one_go (bindr (consoleread_enter ip dst n s) (\<lambda>((w, _), s). Inr (w, s)))"

definition consolewrite :: "nat \<Rightarrow> buffer \<Rightarrow> int \<Rightarrow> kernel \<Rightarrow> (int \<times> kernel) result" where
  "consolewrite ip src n s =
     bindr (iunlock (Some ip) s) (\<lambda>s.
     bindr (acquire Cons_lock s) (\<lambda>s.
     bindr (iter (\<lambda>i s. bindr (fetch_bytes src (of_nat i) 1 s) (\<lambda>(bs, s). consputc (uint (hd bs)) s)) [0..<nat n] s) (\<lambda>s.
     bindr (release Cons_lock s) (\<lambda>s.
     bindr (ilock (Some ip) s) (\<lambda>s.
     Inr (n, s))))))"

definition consoleinit :: "kernel \<Rightarrow> kernel" where
  "consoleinit s =
     (let s = initlock Cons_lock s in
      s\<lparr>devsw := (devsw s)(CONSOLE := True), cons_locking := True\<rparr>)"

section \<open>Line editing\<close>

interpretation input_ring: ring in_slot 128
  by (rule ring_mod) (simp_all add: in_slot_def unat_mod_distrib)

text \<open>
  The bytes that readers may take, and the line being edited. The three counters stay in
  order within one turn of the ring, and a newline is never left in the line.
\<close>

definition typed :: "input_buf \<Rightarrow> uchar list" where
  "typed b = ring_window in_slot (in_buf b) (in_r b) (in_w b)"

definition edited :: "input_buf \<Rightarrow> uchar list" where
  "edited b = ring_window in_slot (in_buf b) (in_w b) (in_e b)"

definition input_ok :: "input_buf \<Rightarrow> bool" where
  "input_ok b \<longleftrightarrow> unat (in_w b - in_r b) \<le> unat (in_e b - in_r b) \<and> unat (in_e b - in_r b) \<le> 128 \<and>
     10 \<notin> set (edited b)"

text \<open>What one character does to the two, as a terminal's user sees it.\<close>

definition edit :: "int \<Rightarrow> uchar list \<times> uchar list \<Rightarrow> uchar list \<times> uchar list" where
  "edit c st =
     (let (ty, line) = st in
      if c = ctrl CHR ''P'' then (ty, line)
      else if c = ctrl CHR ''U'' then (ty, [])
      else if c = ctrl CHR ''H'' \<or> c = 0x7f then (ty, butlast line)
      else if c \<noteq> 0 \<and> length ty + length line < 128 then
        let c = (if c = 13 then 10 else c); line = line @ [word_of_int c] in
        if c = 10 \<or> c = ctrl CHR ''D'' \<or> length ty + length line = 128 then (ty @ line, []) else (ty, line)
      else (ty, line))"

lemma typed_edited:
  assumes "input_ok b"
  shows "ring_window in_slot (in_buf b) (in_r b) (in_e b) = typed b @ edited b"
    and "unat (in_e b - in_r b) = length (typed b) + length (edited b)"
proof -
  show "ring_window in_slot (in_buf b) (in_r b) (in_e b) = typed b @ edited b"
    using assms by (simp add: typed_def edited_def input_ok_def input_ring.window_append)
  then have "length (ring_window in_slot (in_buf b) (in_r b) (in_e b)) = length (typed b @ edited b)" by simp
  then show "unat (in_e b - in_r b) = length (typed b) + length (edited b)" by simp
qed

lemma order_sum:
  "unat (w - r :: uint) + unat (e - w) \<le> 128 \<Longrightarrow> unat (w - r) \<le> unat (e - r) \<and> unat (e - r) \<le> 128"
proof -
  assume le: "unat (w - r) + unat (e - w) \<le> 128"
  have "e - r = (w - r) + (e - w)" by simp
  then have "unat (e - r) = unat (w - r) + unat (e - w)"
    using le unat_add32 [of "w - r" "e - w"] by simp
  with le show ?thesis by simp
qed

lemma input_okI:
  "length (typed b) + length (edited b) \<le> 128 \<Longrightarrow> 10 \<notin> set (edited b) \<Longrightarrow> input_ok b"
  using order_sum [of "in_w b" "in_r b" "in_e b"] by (simp add: input_ok_def typed_def edited_def)

text \<open>Erasing the last character of the line.\<close>

lemma erase_one:
  assumes ok: "input_ok b" and ne: "in_e b \<noteq> in_w b"
  defines "b' \<equiv> b\<lparr>in_e := in_e b - 1\<rparr>"
  shows "input_ok b'" "typed b' = typed b" "edited b = edited b' @ [in_buf b (in_slot (in_e b - 1))]"
proof -
  show t: "typed b' = typed b" by (simp add: typed_def b'_def)
  show e: "edited b = edited b' @ [in_buf b (in_slot (in_e b - 1))]"
    using input_ring.window_unput [OF ne] by (simp add: edited_def b'_def)
  have "length (typed b) + length (edited b) \<le> 128" "10 \<notin> set (edited b)"
    using ok typed_edited(2) [OF ok] by (simp_all add: input_ok_def)
  then show "input_ok b'" by (intro input_okI) (simp_all add: t e)
qed

text \<open>Adding a character to the line, and committing the line.\<close>

lemma type_one:
  fixes c :: uchar
  assumes ok: "input_ok b" and room: "in_e b - in_r b < 128"
  defines "b' \<equiv> b\<lparr>in_buf := (in_buf b)(in_slot (in_e b) := c), in_e := in_e b + 1\<rparr>"
  shows "typed b' = typed b" "edited b' = edited b @ [c]"
    "in_e b' = in_r b' + 128 \<longleftrightarrow> length (typed b) + length (edited b) = 127"
proof -
  have len: "unat (in_e b - in_r b) < 128" using room by (simp add: word_less_nat_alt)
  have sum: "length (typed b) + length (edited b) < 128" using typed_edited(2) [OF ok] len by simp
  have all: "ring_window in_slot (in_buf b') (in_r b') (in_e b') = typed b @ edited b @ [c]"
    using input_ring.window_put [OF len] typed_edited(1) [OF ok] by (simp add: b'_def)
  have sub: "unat (in_e b - in_w b) < 128" using sum by (simp add: edited_def)
  show e: "edited b' = edited b @ [c]"
    using input_ring.window_put [OF sub] by (simp add: edited_def b'_def)
  have "unat (in_w b - in_r b) + unat (in_e b + 1 - in_w b) \<le> 128"
    using sum arg_cong [OF e, of length] by (simp add: typed_def edited_def b'_def)
  from order_sum [OF this]
  have "ring_window in_slot (in_buf b') (in_r b') (in_e b') = typed b' @ edited b'"
    by (simp add: typed_def edited_def b'_def input_ring.window_append)
  with all e show "typed b' = typed b" by simp
  have "in_e b' = in_r b' + 128 \<longleftrightarrow> in_e b' - in_r b' = 128" by (auto simp: algebra_simps)
  also have "\<dots> \<longleftrightarrow> unat (in_e b' - in_r b') = 128" by (simp add: word_unat_eq_iff)
  also have "\<dots> \<longleftrightarrow> length (typed b) + length (edited b) = 127"
    using arg_cong [OF all, of length] by simp
  finally show "in_e b' = in_r b' + 128 \<longleftrightarrow> length (typed b) + length (edited b) = 127" .
qed

lemma commit_line:
  assumes "length (typed b) + length (edited b) \<le> 128"
  defines "b' \<equiv> b\<lparr>in_w := in_e b\<rparr>"
  shows "typed b' = typed b @ edited b" "edited b' = []"
proof -
  have "unat (in_w b - in_r b) + unat (in_e b - in_w b) \<le> 128"
    using assms(1) by (simp add: typed_def edited_def)
  from order_sum [OF this] show "typed b' = typed b @ edited b"
    by (simp add: typed_def edited_def b'_def input_ring.window_append)
  show "edited b' = []" by (simp add: edited_def b'_def)
qed

section \<open>The interrupt handler\<close>

lemma wrote_fields:
  assumes "wrote cs s t"
  shows "cpus t = cpus s" "this_cpu t = this_cpu s" "ncpu t = ncpu s" "locks t = locks s" "procs t = procs s"
    "levels t = levels s" "input t = input s" "panicked t = panicked s" "mem t = mem s" "cursor_ok t"
  using assms by (cases s; cases t; simp add: wrote_def)+

text \<open>The state between two characters.\<close>

definition cons_ready :: "kernel \<Rightarrow> bool" where
  "cons_ready s \<longleftrightarrow> cpu_wf s \<and> sched_inv s \<and> lock_held Cons_lock s \<and> lock_free Ptable_lock s \<and>
     0 < c_ncli (cpus s (this_cpu s)) \<and> cursor_ok s \<and> \<not> panicked s"

definition in_console :: "kernel \<Rightarrow> bool" where
  "in_console s \<longleftrightarrow> cons_ready s \<and> input_ok (input s)"

definition line_state :: "kernel \<Rightarrow> uchar list \<times> uchar list" where
  "line_state s = (typed (input s), edited (input s))"

lemma in_console_echo:
  assumes "cons_ready s"
  shows "wp (consputc c (s\<lparr>input := b\<rparr>)) (\<lambda>t. cons_ready t \<and> input t = b)"
proof -
  let ?s = "s\<lparr>input := b\<rparr>"
  have s: "cursor_ok ?s" "\<not> panicked ?s" using assms by (simp_all add: cons_ready_def cursor_ok_def)
  show ?thesis
  proof (rule wp_mono [OF consputc_ok [OF s]])
    fix t
    assume "wrote (echo c) ?s t"
    note f = wrote_fields [OF this]
    have "sched_inv t" using assms(1) sched_view(1) [of t s] by (simp add: f cons_ready_def)
    then show "cons_ready t \<and> input t = b"
      using assms f(10) by (simp add: cons_ready_def f)
  qed
qed

lemma kill_line_erases:
  assumes "in_console s" and "length (edited (input s)) \<le> n"
  shows "wp (kill_line n s) (\<lambda>t. in_console t \<and> line_state t = (typed (input s), []))"
  using assms
proof (induction n arbitrary: s)
  case 0
  then have "in_e (input s) = in_w (input s)" "edited (input s) = []" by (simp_all add: edited_def unat_eq_0)
  with 0 show ?case by (subst kill_line.simps) (simp add: line_state_def)
next
  case (Suc n)
  show ?case
  proof (cases "in_e (input s) = in_w (input s)")
    case True
    then have "edited (input s) = []" by (simp add: edited_def)
    with True Suc.prems show ?thesis by (subst kill_line.simps) (simp add: line_state_def)
  next
    case False
    have ok: "input_ok (input s)" and rd: "cons_ready s" using Suc.prems(1) by (simp_all add: in_console_def)
    let ?b = "(input s)\<lparr>in_e := in_e (input s) - 1\<rparr>"
    note er = erase_one [OF ok False]
    have nl: "in_buf (input s) (in_slot (in_e (input s) - 1)) \<noteq> 10"
      using ok er(3) by (auto simp: input_ok_def)
    have "kill_line (Suc n) s = bindr (consputc BACKSPACE (s\<lparr>input := ?b\<rparr>)) (kill_line n)"
      using False nl by (subst kill_line.simps) (simp add: upd_input_def)
    moreover have "wp (bindr (consputc BACKSPACE (s\<lparr>input := ?b\<rparr>)) (kill_line n))
        (\<lambda>t. in_console t \<and> line_state t = (typed (input s), []))"
    proof (rule wp_seq [OF in_console_echo [OF rd]], elim conjE)
      fix t
      assume "cons_ready t" and i: "input t = ?b"
      then have t: "in_console t" "input t = ?b" using er(1) by (simp_all add: in_console_def)
      have "length (edited (input t)) \<le> n" using Suc.prems(2) er(3) by (simp add: t)
      from Suc.IH [OF t(1) this] show "wp (kill_line n t) (\<lambda>t. in_console t \<and> line_state t = (typed (input s), []))"
        by (simp add: t er(2))
    qed
    ultimately show ?thesis by simp
  qed
qed

lemma backspace_erases:
  assumes "in_console s"
  shows "wp (if in_e (input s) \<noteq> in_w (input s)
             then consputc BACKSPACE (upd_input (\<lambda>b. b\<lparr>in_e := in_e b - 1\<rparr>) s) else Inr s)
    (\<lambda>t. in_console t \<and> line_state t = (typed (input s), butlast (edited (input s))))"
proof (cases "in_e (input s) = in_w (input s)")
  case True
  then show ?thesis using assms by (simp add: line_state_def edited_def)
next
  case False
  have ok: "input_ok (input s)" and rd: "cons_ready s" using assms by (simp_all add: in_console_def)
  note er = erase_one [OF ok False]
  from False er(1) show ?thesis
    using wp_mono [OF in_console_echo [OF rd, of BACKSPACE]]
    by (simp add: upd_input_def line_state_def in_console_def er(2,3))
qed

lemma commit_wakes:
  assumes s: "cons_ready s"
  shows "wp (wakeup chan (upd_input f s)) (\<lambda>t. cons_ready t \<and> input t = f (input s))"
proof -
  let ?s = "s\<lparr>input := f (input s)\<rparr>"
  have "sched_inv ?s" using s sched_view(1) [of ?s s] by (simp add: cons_ready_def)
  then have "wp (wakeup chan ?s) (woke ?s)"
    using s by (intro wp_mono [OF wakeup_woke]) (simp_all add: cons_ready_def)
  then have "wp (wakeup chan ?s) (\<lambda>t. cons_ready t \<and> input t = f (input s))"
  proof (rule wp_mono)
    fix t
    assume w: "woke ?s t"
    note f = woke_fields [OF w]
    have "crt_pos t = crt_pos ?s" "panicked t = panicked ?s" using w by (cases t; simp add: woke_def)+
    then show "cons_ready t \<and> input t = f (input s)"
      using s f(15) by (simp add: cons_ready_def f cursor_ok_def)
  qed
  then show ?thesis by (simp add: upd_input_def)
qed

lemma type_char:
  assumes s: "in_console s" and room: "in_e (input s) - in_r (input s) < 128" and c: "0 \<le> c" "c < 256"
  defines "n \<equiv> length (typed (input s)) + length (edited (input s))"
  shows "wp (bindr (consputc c (upd_input (\<lambda>b. b\<lparr>in_buf := (in_buf b)(in_slot (in_e b) := word_of_int c), in_e := in_e b + 1\<rparr>) s)) (\<lambda>s.
           if c = 10 \<or> c = ctrl CHR ''D'' \<or> in_e (input s) = in_r (input s) + INPUT_BUF
           then wakeup (Some Chan_input) (upd_input (\<lambda>b. b\<lparr>in_w := in_e b\<rparr>) s) else Inr s))
    (\<lambda>t. in_console t \<and> line_state t =
      (if c = 10 \<or> c = ctrl CHR ''D'' \<or> n = 127 then (typed (input s) @ edited (input s) @ [word_of_int c], [])
       else (typed (input s), edited (input s) @ [word_of_int c])))"
proof -
  have ok: "input_ok (input s)" and rd: "cons_ready s" using s by (simp_all add: in_console_def)
  define b where "b = (input s)\<lparr>in_buf := (in_buf (input s))(in_slot (in_e (input s)) := word_of_int c),
     in_e := in_e (input s) + 1\<rparr>"
  note ty = type_one [OF ok room, of "word_of_int c", folded b_def]
  have n: "n < 128" using typed_edited(2) [OF ok] room by (simp add: n_def word_less_nat_alt)
  have le: "length (typed b) + length (edited b) \<le> 128" using n by (simp add: ty n_def)
  show ?thesis
    unfolding upd_input_def b_def [symmetric]
  proof (rule wp_seq [OF in_console_echo [OF rd]], elim conjE)
    fix t
    assume t: "cons_ready t" "input t = b"
    have cond: "(c = 10 \<or> c = ctrl CHR ''D'' \<or> in_e (input t) = in_r (input t) + INPUT_BUF) =
        (c = 10 \<or> c = ctrl CHR ''D'' \<or> n = 127)"
      using ty(3) by (simp add: t n_def)
    let ?w = "wakeup (Some Chan_input) (t\<lparr>input := (input t)\<lparr>in_w := in_e (input t)\<rparr>\<rparr>)"
    show "wp (if c = 10 \<or> c = ctrl CHR ''D'' \<or> in_e (input t) = in_r (input t) + INPUT_BUF then ?w else Inr t)
      (\<lambda>t. in_console t \<and> line_state t =
        (if c = 10 \<or> c = ctrl CHR ''D'' \<or> n = 127 then (typed (input s) @ edited (input s) @ [word_of_int c], [])
         else (typed (input s), edited (input s) @ [word_of_int c])))"
    proof (cases "c = 10 \<or> c = ctrl CHR ''D'' \<or> n = 127")
      case True
      have cl: "typed (b\<lparr>in_w := in_e b\<rparr>) = typed (input s) @ edited (input s) @ [word_of_int c]"
        "edited (b\<lparr>in_w := in_e b\<rparr>) = []"
        using commit_line [OF le] by (simp_all add: ty)
      have "input_ok (b\<lparr>in_w := in_e b\<rparr>)"
        using le by (intro input_okI) (simp_all add: cl ty)
      then have "wp ?w (\<lambda>t. in_console t \<and> line_state t = (typed (input s) @ edited (input s) @ [word_of_int c], []))"
        using wp_mono [OF commit_wakes [OF t(1), of "Some Chan_input" "\<lambda>b. b\<lparr>in_w := in_e b\<rparr>"]]
        by (simp add: upd_input_def t in_console_def line_state_def cl)
      with True show ?thesis unfolding cond by simp
    next
      case False
      have "word_of_int c \<noteq> (10 :: uchar)"
        using False c by (simp add: word_uint_eq_iff uint_word_of_int)
      then have "input_ok b" using ok le by (intro input_okI) (auto simp: ty input_ok_def)
      with False t show ?thesis unfolding cond by (simp add: in_console_def line_state_def ty)
    qed
  qed
qed

lemma consoleintr_char_edits:
  assumes s: "in_console s" and c: "0 \<le> c" "c < 256"
  shows "wp (consoleintr_char c (d, s)) (\<lambda>(d', t). d' = (d \<or> c = ctrl CHR ''P'') \<and> in_console t \<and>
    line_state t = edit c (line_state s))"
proof -
  have ok: "input_ok (input s)" using s by (simp add: in_console_def)
  have len: "length (edited (input s)) \<le> 128"
    using typed_edited(2) [OF ok] ok by (simp add: input_ok_def)
  have room: "in_e (input s) - in_r (input s) < 128 \<longleftrightarrow> length (typed (input s)) + length (edited (input s)) < 128"
    using typed_edited(2) [OF ok] by (simp add: word_less_nat_alt)
  have P: "ctrl CHR ''P'' = 16" "ctrl CHR ''U'' = 21" "ctrl CHR ''H'' = 8" "ctrl CHR ''D'' = 4" by (simp_all add: ctrl_def)
  consider "c = 16" | "c = 21" | "c = 8 \<or> c = 0x7f"
    | (put) "c \<notin> {16, 21, 8, 0x7f, 0}" "in_e (input s) - in_r (input s) < 128"
    | (drop) "c \<notin> {16, 21, 8, 0x7f}" "c = 0 \<or> \<not> in_e (input s) - in_r (input s) < 128" by auto
  then show ?thesis
  proof cases
    case 1
    then show ?thesis using s by (simp add: consoleintr_char_def edit_def P line_state_def)
  next
    case 2
    then show ?thesis
      using kill_line_erases [OF s len] by (auto simp: consoleintr_char_def edit_def P line_state_def wp_bindr elim: wp_mono)
  next
    case 3
    then show ?thesis
      using backspace_erases [OF s]
      by (auto simp: consoleintr_char_def edit_def P line_state_def wp_bindr elim: wp_mono simp del: wp_if)
  next
    case put
    let ?c = "if c = 13 then 10 else c"
    have c': "0 \<le> ?c" "?c < 256" using c by auto
    have st: "consoleintr_char c (d, s) = bindr (bindr (consputc ?c (upd_input (\<lambda>b. b\<lparr>in_buf := (in_buf b)(in_slot (in_e b) := word_of_int ?c), in_e := in_e b + 1\<rparr>) s)) (\<lambda>s.
           if ?c = 10 \<or> ?c = ctrl CHR ''D'' \<or> in_e (input s) = in_r (input s) + INPUT_BUF
           then wakeup (Some Chan_input) (upd_input (\<lambda>b. b\<lparr>in_w := in_e b\<rparr>) s) else Inr s)) (\<lambda>s. Inr (d, s))"
      using put by (simp add: consoleintr_char_def P Let_def bindr_assoc)
    have ed: "edit c (line_state s) = (if ?c = 10 \<or> ?c = ctrl CHR ''D'' \<or> length (typed (input s)) + length (edited (input s)) = 127
        then (typed (input s) @ edited (input s) @ [word_of_int ?c], [])
        else (typed (input s), edited (input s) @ [word_of_int ?c]))"
      using put room by (simp add: edit_def line_state_def P Let_def)
    show ?thesis
      unfolding st ed using put(1)
      by (intro wp_seq [OF type_char [OF s put(2) c']]) (simp add: P)
  next
    case drop
    then show ?thesis using s room by (auto simp: consoleintr_char_def edit_def P line_state_def)
  qed
qed

lemma console_chars_edit:
  assumes "in_console s" and "\<forall>c \<in> set cs. 0 \<le> c \<and> c < 256 \<and> c \<noteq> ctrl CHR ''P''"
  shows "wp (iter consoleintr_char cs (False, s)) (\<lambda>(d, t). \<not> d \<and> in_console t \<and> line_state t = fold edit cs (line_state s))"
proof -
  have "wp (iter consoleintr_char cs (False, s))
     ((\<lambda>ys (d, t). \<not> d \<and> in_console t \<and> line_state t = fold edit ys (line_state s)) cs)"
  proof (rule wp_iter)
    fix ys c zs st
    assume split: "cs = ys @ c # zs" and "case st of (d, t) \<Rightarrow> \<not> d \<and> in_console t \<and> line_state t = fold edit ys (line_state s)"
    then obtain t where st: "st = (False, t)" "in_console t" "line_state t = fold edit ys (line_state s)"
      by (cases st) auto
    have "0 \<le> c" "c < 256" "c \<noteq> ctrl CHR ''P''" using assms(2) split by auto
    with consoleintr_char_edits [OF st(2), of c False]
    show "wp (consoleintr_char c st) (\<lambda>(d, t). \<not> d \<and> in_console t \<and> line_state t = fold edit (ys @ [c]) (line_state s))"
      by (auto simp: st elim: wp_mono)
  qed (use assms in simp)
  then show ?thesis by simp
qed

text \<open>
  C16. Keyboard input is a line editor. Whatever characters arrive (process listings apart),
  the console interrupt handler never panics and changes the input buffer as editing a line
  does: a printable character extends the line, backspace and delete erase its last
  character, control-U erases it, and newline, control-D or a full buffer pass the line on
  to the readers; the 128-byte ring never overflows and its counters may wrap.
\<close>

theorem consoleintr_edits_lines:
  assumes "cpu_wf s" and "sched_inv s" and "lock_free Cons_lock s" and "lock_free Ptable_lock s"
    and "cursor_ok s" and "\<not> panicked s" and "input_ok (input s)"
    and "\<forall>c \<in> set cs. 0 \<le> c \<and> c < 256 \<and> c \<noteq> ctrl CHR ''P''"
  shows "\<exists>t. consoleintr cs procdump s = Inr t \<and> input_ok (input t) \<and>
    (typed (input t), edited (input t)) = fold edit cs (typed (input s), edited (input s)) \<and>
    lock_free Cons_lock t \<and> sched_inv t \<and> cursor_ok t"
proof -
  let ?s = "acq Cons_lock s"
  have ncli: "0 \<le> c_ncli (cpus s (this_cpu s))" using assms(1) by (simp add: cpu_view_def)
  have "in_console ?s"
    using assms ncli by (simp add: in_console_def cons_ready_def cursor_ok_def)
  from console_chars_edit [OF this assms(8)] obtain t where
    run: "iter consoleintr_char cs (False, ?s) = Inr (False, t)" and t: "in_console t"
      "line_state t = fold edit cs (line_state ?s)" by (auto simp: wp_def)
  have "release Cons_lock t = Inr (rel Cons_lock t)"
    using t(1) by (intro release_held) (simp_all add: in_console_def cons_ready_def)
  with run assms(1,3) have "consoleintr cs procdump s = Inr (rel Cons_lock t)"
    by (simp add: consoleintr_def)
  with t show ?thesis
    by (simp add: in_console_def cons_ready_def line_state_def cursor_ok_def)
qed

theorem consoleintr_edits_lines_witness:
  "\<exists>t. consoleintr [97, 98, 8, 99, 13] Inr (lone zero_proc) = Inr t \<and> typed (input t) = [97, 99, 10] \<and> edited (input t) = []"
proof -
  have i: "sched_inv (lone zero_proc)" by (rule lone_inv) (simp_all add: zero_proc_def)
  have e: "typed (input (lone zero_proc)) = []" "edited (input (lone zero_proc)) = []"
    by (simp_all add: lone_def booted_def typed_def edited_def)
  then have "input_ok (input (lone zero_proc))" by (intro input_okI) simp_all
  moreover have "cursor_ok (lone zero_proc)" "\<not> panicked (lone zero_proc)" by (simp_all add: lone_def cursor_ok_def)
  moreover have "fold edit [97, 98, 8, 99, 13] ([], []) = ([97, 99, 10], [])"
    by (simp add: edit_def ctrl_def)
  ultimately show ?thesis
    using consoleintr_edits_lines [of "lone zero_proc" "[97, 98, 8, 99, 13]" Inr] i by (auto simp: e ctrl_def)
qed

end
