(* ===== verification/Fs.thy ===== *)
theory Fs
  imports Console
begin

text \<open>
  File contents, directories and path names (\<^verbatim>\<open>fs.c\<close>, second half). A function that fills a
  variable of its caller returns the bytes.
\<close>

section \<open>Contents\<close>

record stat =
  st_type :: ushort
  st_dev :: int
  st_ino :: uint
  st_nlink :: ushort
  st_size :: uint

definition stati :: "nat \<Rightarrow> kernel \<Rightarrow> stat" where
  "stati i s =
     (let ip = icache s i in
      \<lparr>st_type = ip_type ip, st_dev = sint (ip_dev ip), st_ino = ip_inum ip, st_nlink = ip_nlink ip,
       st_size = ip_size ip\<rparr>)"

text \<open>The handler of a device, if the major number names one that is installed.\<close>

definition has_device :: "nat \<Rightarrow> kernel \<Rightarrow> bool" where
  "has_device i s \<longleftrightarrow>
     (let major = sint (ip_major (icache s i)) in 0 \<le> major \<and> major < NDEV \<and> devsw s (nat major))"

definition bsize :: uint where "bsize = of_nat BSIZE"

fun readi_loop :: "nat \<Rightarrow> nat \<Rightarrow> buffer \<Rightarrow> uint \<Rightarrow> uint \<Rightarrow> uint \<Rightarrow> kernel \<Rightarrow> (uchar list \<times> kernel) result" where
  "readi_loop k i dst tot off n s =
     (if tot < n then
        (case k of 0 \<Rightarrow> Inl Out_Of_Fuel
         | Suc k \<Rightarrow>
             bindr (bmap i (off div bsize) s) (\<lambda>(addr, s).
             bindr (bread (ip_dev (icache s i)) addr s) (\<lambda>(bp, s).
             let m = min (n - tot) (bsize - off mod bsize);
                 bs = map (\<lambda>j. buf_data bp s (unat (off mod bsize) + j)) [0..<unat m] in
             bindr (deliver_bytes dst tot bs s) (\<lambda>s.
             bindr (brelse bp s) (\<lambda>s.
             bindr (readi_loop k i dst (tot + m) (off + m) n s) (\<lambda>(rest, s).
             Inr (bs @ rest, s)))))))
      else Inr ([], s))"

declare readi_loop.simps [simp del]

definition readi :: "nat \<Rightarrow> buffer \<Rightarrow> uint \<Rightarrow> uint \<Rightarrow> kernel \<Rightarrow> ((int \<times> uchar list) \<times> kernel) result" where
  "readi i dst off n s =
     (if ip_type (icache s i) = T_DEV then
        (if \<not> has_device i s then Inr ((-1, []), s)
         else bindr (consoleread i dst (sint n) s) (\<lambda>(r, s). Inr ((r, []), s)))
      else if off > ip_size (icache s i) \<or> off + n < off then Inr ((-1, []), s)
      else
        let n = (if off + n > ip_size (icache s i) then ip_size (icache s i) - off else n) in
        bindr (readi_loop (2 ^ 24) i dst 0 off n s) (\<lambda>(bs, s).
        Inr ((sint n, bs), s)))"

definition splice :: "nat \<Rightarrow> uchar list \<Rightarrow> block \<Rightarrow> block" where
  "splice o' bs d i = (if o' \<le> i \<and> i < o' + length bs then bs ! (i - o') else d i)"

fun writei_loop :: "nat \<Rightarrow> nat \<Rightarrow> buffer \<Rightarrow> uint \<Rightarrow> uint \<Rightarrow> uint \<Rightarrow> kernel \<Rightarrow> (uint \<times> kernel) result" where
  "writei_loop k i src tot off n s =
     (if tot < n then
        (case k of 0 \<Rightarrow> Inl Out_Of_Fuel
         | Suc k \<Rightarrow>
             bindr (bmap i (off div bsize) s) (\<lambda>(addr, s).
             bindr (bread (ip_dev (icache s i)) addr s) (\<lambda>(bp, s).
             let m = min (n - tot) (bsize - off mod bsize) in
             bindr (fetch_bytes src tot (unat m) s) (\<lambda>(bs, s).
             let s = set_data bp (splice (unat (off mod bsize)) bs (buf_data bp s)) s in
             bindr (log_write bp s) (\<lambda>s.
             bindr (brelse bp s) (\<lambda>s.
             writei_loop k i src (tot + m) (off + m) n s))))))
      else Inr (off, s))"

declare writei_loop.simps [simp del]

definition writei :: "nat \<Rightarrow> buffer \<Rightarrow> uint \<Rightarrow> uint \<Rightarrow> kernel \<Rightarrow> (int \<times> kernel) result" where
  "writei i src off n s =
     (if ip_type (icache s i) = T_DEV then
        (if \<not> has_device i s then Inr (-1, s) else consolewrite i src (sint n) s)
      else if off > ip_size (icache s i) \<or> off + n < off then Inr (-1, s)
      else if off + n > of_nat (MAXFILE * BSIZE) then Inr (-1, s)
      else
        bindr (writei_loop (2 ^ 24) i src 0 off n s) (\<lambda>(off, s).
        bindr (if n > 0 \<and> off > ip_size (icache s i)
               then iupdate i (upd_inode i (\<lambda>ip. ip\<lparr>ip_size := off\<rparr>) s) else Inr s) (\<lambda>s.
        Inr (sint n, s))))"

section \<open>Directories\<close>

text \<open>\<^verbatim>\<open>struct dirent\<close> as its 16 bytes: the inode number and the name.\<close>

definition de_size :: uint where [simp]: "de_size = 16"

definition de_inum :: "uchar list \<Rightarrow> ushort" where
  "de_inum bs = ucast (bs ! 0) OR push_bit 8 (ucast (bs ! 1))"

definition de_name :: "uchar list \<Rightarrow> bytes" where
  "de_name bs i = (if i < DIRSIZ then bs ! (2 + i) else 0)"

definition make_dirent :: "ushort \<Rightarrow> bytes \<Rightarrow> bytes" where
  "make_dirent inum name i =
     (if i = 0 then ucast inum else if i = 1 then ucast (drop_bit 8 inum) else name (i - 2))"

definition namecmp :: "bytes \<Rightarrow> bytes \<Rightarrow> int" where
  "namecmp s t = strncmp s t (of_nat DIRSIZ)"

definition read_dirent :: "nat \<Rightarrow> uint \<Rightarrow> string \<Rightarrow> kernel \<Rightarrow> (uchar list \<times> kernel) result" where
  "read_dirent dp off msg s =
     bindr (readi dp (Local (\<lambda>_. 0)) off de_size s) (\<lambda>((r, de), s).
     bindr (panic_if (r \<noteq> 16) msg) (\<lambda>_. Inr (de, s)))"

fun dirlookup_loop :: "nat \<Rightarrow> nat \<Rightarrow> bytes \<Rightarrow> uint \<Rightarrow> kernel \<Rightarrow> ((nat \<times> uint) option \<times> kernel) result" where
  "dirlookup_loop k dp name off s =
     (if off < ip_size (icache s dp) then
        (case k of 0 \<Rightarrow> Inl Out_Of_Fuel
         | Suc k \<Rightarrow>
             bindr (read_dirent dp off ''dirlookup read'' s) (\<lambda>(de, s).
             if de_inum de \<noteq> 0 \<and> namecmp name (de_name de) = 0 then
               bindr (iget (ip_dev (icache s dp)) (ucast (de_inum de)) s) (\<lambda>(ip, s).
               Inr (Some (ip, off), s))
             else dirlookup_loop k dp name (off + de_size) s))
      else Inr (None, s))"

declare dirlookup_loop.simps [simp del]

definition dirlookup :: "nat \<Rightarrow> bytes \<Rightarrow> kernel \<Rightarrow> ((nat \<times> uint) option \<times> kernel) result" where
  "dirlookup dp name s =
     bindr (panic_if (ip_type (icache s dp) \<noteq> T_DIR) ''dirlookup not DIR'') (\<lambda>_.
     dirlookup_loop (2 ^ 28) dp name 0 s)"

fun empty_slot :: "nat \<Rightarrow> nat \<Rightarrow> uint \<Rightarrow> kernel \<Rightarrow> (uint \<times> kernel) result" where
  "empty_slot k dp off s =
     (if off < ip_size (icache s dp) then
        (case k of 0 \<Rightarrow> Inl Out_Of_Fuel
         | Suc k \<Rightarrow>
             bindr (read_dirent dp off ''dirlink read'' s) (\<lambda>(de, s).
             if de_inum de = 0 then Inr (off, s) else empty_slot k dp (off + de_size) s))
      else Inr (off, s))"

declare empty_slot.simps [simp del]

definition dirlink :: "nat \<Rightarrow> bytes \<Rightarrow> uint \<Rightarrow> kernel \<Rightarrow> (int \<times> kernel) result" where
  "dirlink dp name inum s =
     bindr (dirlookup dp name s) (\<lambda>(r, s).
     case r of
       Some (ip, _) \<Rightarrow> bindr (iput ip s) (\<lambda>s. Inr (-1, s))
     | None \<Rightarrow>
         bindr (empty_slot (2 ^ 28) dp 0 s) (\<lambda>(off, s).
         let de = make_dirent (ucast inum) (strncpy (\<lambda>_. 0) name (int DIRSIZ)) in
         bindr (writei dp (Local de) off de_size s) (\<lambda>(r, s).
         bindr (panic_if (r \<noteq> 16) ''dirlink'') (\<lambda>_.
         Inr (0, s)))))"

section \<open>Path names\<close>

text \<open>
  Paths are their bytes up to the terminating NUL. \<open>skipelem\<close> returns the rest of the
  path and the element, both without their end; an element of \<open>DIRSIZ\<close> bytes or more
  loses the rest.
\<close>

definition slash :: uchar where "slash = 0x2f"

definition skipelem :: "uchar list \<Rightarrow> (uchar list \<times> uchar list) option" where
  "skipelem path =
     (let path = dropWhile (\<lambda>c. c = slash) path in
      if path = [] then None
      else
        let el = takeWhile (\<lambda>c. c \<noteq> slash) path; rest = dropWhile (\<lambda>c. c \<noteq> slash) path;
            name = (if length el \<ge> DIRSIZ then take DIRSIZ el else el)
        in Some (dropWhile (\<lambda>c. c = slash) rest, name))"

text \<open>A name buffer as \<^verbatim>\<open>namecmp\<close> and \<^verbatim>\<open>strncpy\<close> read it.\<close>

definition name_bytes :: "uchar list \<Rightarrow> bytes" where
  "name_bytes el i = (if i < length el then el ! i else 0)"

lemma skipelem_shorter: "skipelem path = Some (rest, name) \<Longrightarrow> length rest < length path"
proof -
  assume sk: "skipelem path = Some (rest, name)"
  define p where "p = dropWhile (\<lambda>c. c = slash) path"
  from sk have ne: "p \<noteq> []" and r: "rest = dropWhile (\<lambda>c. c = slash) (dropWhile (\<lambda>c. c \<noteq> slash) p)"
    by (auto simp: skipelem_def p_def Let_def split: if_splits)
  have "hd p \<noteq> slash" using hd_dropWhile [of "\<lambda>c. c = slash" path] ne by (simp add: p_def)
  then have "length (dropWhile (\<lambda>c. c \<noteq> slash) p) < length p"
    using ne by (cases p) (auto simp: le_imp_less_Suc length_dropWhile_le)
  moreover have "length rest \<le> length (dropWhile (\<lambda>c. c \<noteq> slash) p)"
    unfolding r by (rule length_dropWhile_le)
  moreover have "length p \<le> length path" unfolding p_def by (rule length_dropWhile_le)
  ultimately show ?thesis by linarith
qed

function namex_loop :: "bool \<Rightarrow> uchar list \<Rightarrow> nat \<Rightarrow> kernel \<Rightarrow> ((nat \<times> uchar list) option \<times> kernel) result" where
  "namex_loop parent path ip s =
     (case skipelem path of
        None \<Rightarrow> if parent then bindr (iput ip s) (\<lambda>s. Inr (None, s)) else Inr (Some (ip, []), s)
      | Some (rest, name) \<Rightarrow>
          bindr (ilock (Some ip) s) (\<lambda>s.
          if ip_type (icache s ip) \<noteq> T_DIR then bindr (iunlockput ip s) (\<lambda>s. Inr (None, s))
          else if parent \<and> rest = [] then bindr (iunlock (Some ip) s) (\<lambda>s. Inr (Some (ip, name), s))
          else
            bindr (dirlookup ip (name_bytes name) s) (\<lambda>(r, s).
            case r of
              None \<Rightarrow> bindr (iunlockput ip s) (\<lambda>s. Inr (None, s))
            | Some (nxt, _) \<Rightarrow> bindr (iunlockput ip s) (namex_loop parent rest nxt))))"
  by pat_completeness auto

termination
  by (relation "measure (\<lambda>(_, path, _, _). length path)") (auto dest: skipelem_shorter)

declare namex_loop.simps [simp del]

definition namex :: "uchar list \<Rightarrow> bool \<Rightarrow> kernel \<Rightarrow> ((nat \<times> uchar list) option \<times> kernel) result" where
  "namex path parent s =
     bindr (if path \<noteq> [] \<and> hd path = slash then iget ROOTDEV ROOTINO s
            else
              bindr (my s) (\<lambda>(p, s).
              bindr (deref (p_cwd (procs s p))) (\<lambda>cwd.
              idup cwd s))) (\<lambda>(ip, s).
     namex_loop parent path ip s)"

definition namei :: "uchar list \<Rightarrow> kernel \<Rightarrow> (nat option \<times> kernel) result" where
  "namei path s = bindr (namex path False s) (\<lambda>(r, s). Inr (map_option fst r, s))"

definition nameiparent :: "uchar list \<Rightarrow> kernel \<Rightarrow> ((nat \<times> uchar list) option \<times> kernel) result" where
  "nameiparent path s = namex path True s"

end
