(* ===== verification/Pipe.thy ===== *)
theory Pipe
  imports Vm Ring
begin

text \<open>
  Pipes (\<^verbatim>\<open>pipe.c\<close>). A pipe fills a page from the page allocator and is named by the page's
  address; its data is a ring of \<open>PIPESIZE\<close> bytes with two byte counters that wrap at 32
  bits. \<^verbatim>\<open>pipealloc\<close>, which needs the file table, is in the theory of \<^verbatim>\<open>file.c\<close>.
\<close>

definition PIPESIZE :: uint where [simp]: "PIPESIZE = 512"

definition pi_slot :: "uint \<Rightarrow> nat" where
  "pi_slot i = unat (i mod PIPESIZE)"

section \<open>Operations\<close>

definition pipeclose :: "uint \<Rightarrow> bool \<Rightarrow> kernel \<Rightarrow> kernel result" where
  "pipeclose p writable s =
     bindr (acquire (Pipe_lock p) s) (\<lambda>s.
     bindr (if writable
            then wakeup (Some (Chan_nread p)) (upd_pipe p (\<lambda>q. q\<lparr>pi_writeopen := False\<rparr>) s)
            else wakeup (Some (Chan_nwrite p)) (upd_pipe p (\<lambda>q. q\<lparr>pi_readopen := False\<rparr>) s)) (\<lambda>s.
     if \<not> pi_readopen (pipes s p) \<and> \<not> pi_writeopen (pipes s p)
     then bindr (release (Pipe_lock p) s) (kfree p)
     else release (Pipe_lock p) s))"

text \<open>The ring buffer: one byte in, one byte out.\<close>

definition pipe_full :: "pipe \<Rightarrow> bool" where
  "pipe_full q \<longleftrightarrow> pi_nwrite q = pi_nread q + PIPESIZE"

definition pipe_empty :: "pipe \<Rightarrow> bool" where
  "pipe_empty q \<longleftrightarrow> pi_nread q = pi_nwrite q"

definition pipe_put :: "uchar \<Rightarrow> pipe \<Rightarrow> pipe" where
  "pipe_put c q = q\<lparr>pi_data := (pi_data q)(pi_slot (pi_nwrite q) := c), pi_nwrite := pi_nwrite q + 1\<rparr>"

definition pipe_get :: "pipe \<Rightarrow> uchar \<times> pipe" where
  "pipe_get q = (pi_data q (pi_slot (pi_nread q)), q\<lparr>pi_nread := pi_nread q + 1\<rparr>)"

text \<open>
  The loop of \<^verbatim>\<open>pipewrite\<close> with \<open>k\<close> of \<open>n\<close> bytes left, up to its return or \<^verbatim>\<open>sleep\<close>; it says
  how many bytes are left.
\<close>

fun pipewrite_loop :: "uint \<Rightarrow> buffer \<Rightarrow> int \<Rightarrow> nat \<Rightarrow> kernel \<Rightarrow> ((wait \<times> nat) \<times> kernel) result" where
  "pipewrite_loop p addr n 0 s =
     bindr (wakeup (Some (Chan_nread p)) s) (\<lambda>s.
     bindr (release (Pipe_lock p) s) (\<lambda>s.
     Inr ((Returns n, 0), s)))"
| "pipewrite_loop p addr n (Suc k) s =
     (if pipe_full (pipes s p) then
        bindr (if \<not> pi_readopen (pipes s p) then Inr (True, s)
               else bindr (my s) (\<lambda>(q, s). Inr (p_killed (procs s q), s))) (\<lambda>(stop, s).
        if stop then bindr (release (Pipe_lock p) s) (\<lambda>s. Inr ((Returns (-1), Suc k), s))
        else
          bindr (wakeup (Some (Chan_nread p)) s) (\<lambda>s.
          bindr (sleep_enter (Some (Chan_nwrite p)) (Some (Pipe_lock p)) s) (\<lambda>(b, s).
          Inr ((Sleeps b, Suc k), s))))
      else
        bindr (fetch_bytes addr (of_int (n - int (Suc k))) 1 s) (\<lambda>(bs, s).
        pipewrite_loop p addr n k (upd_pipe p (pipe_put (hd bs)) s)))"

definition pipewrite_enter :: "uint \<Rightarrow> buffer \<Rightarrow> int \<Rightarrow> kernel \<Rightarrow> ((wait \<times> nat) \<times> kernel) result" where
  "pipewrite_enter p addr n s = bindr (acquire (Pipe_lock p) s) (pipewrite_loop p addr n (nat n))"

definition pipewrite_again ::
  "uint \<Rightarrow> buffer \<Rightarrow> int \<Rightarrow> nat \<Rightarrow> nat \<Rightarrow> bool \<Rightarrow> kernel \<Rightarrow> ((wait \<times> nat) \<times> kernel) result" where
  "pipewrite_again p addr n k q intena s =
     bindr (sleep_exit q (Pipe_lock p) intena s) (pipewrite_loop p addr n k)"

definition pipewrite :: "uint \<Rightarrow> buffer \<Rightarrow> int \<Rightarrow> kernel \<Rightarrow> (int \<times> kernel) result" where
  "pipewrite p addr n s = one_go (bindr (pipewrite_enter p addr n s) (\<lambda>((w, _), s). Inr (w, s)))"

text \<open>The copy loop of \<^verbatim>\<open>piperead\<close>: \<open>k\<close> bytes left of the \<open>n\<close> asked for.\<close>

fun piperead_copy :: "uint \<Rightarrow> buffer \<Rightarrow> nat \<Rightarrow> nat \<Rightarrow> kernel \<Rightarrow> (nat \<times> kernel) result" where
  "piperead_copy p addr n 0 s = Inr (n, s)"
| "piperead_copy p addr n (Suc k) s =
     (if pipe_empty (pipes s p) then Inr (n - Suc k, s)
      else
        let (c, q) = pipe_get (pipes s p); s = upd_pipe p (\<lambda>_. q) s in
        bindr (deliver_bytes addr (of_nat (n - Suc k)) [c] s) (piperead_copy p addr n k))"

definition piperead_pass :: "uint \<Rightarrow> buffer \<Rightarrow> int \<Rightarrow> kernel \<Rightarrow> (wait \<times> kernel) result" where
  "piperead_pass p addr n s =
     (if pipe_empty (pipes s p) \<and> pi_writeopen (pipes s p) then
        bindr (my s) (\<lambda>(q, s).
        if p_killed (procs s q) then bindr (release (Pipe_lock p) s) (\<lambda>s. Inr (Returns (-1), s))
        else bindr (sleep_enter (Some (Chan_nread p)) (Some (Pipe_lock p)) s) (\<lambda>(b, s). Inr (Sleeps b, s)))
      else
        bindr (piperead_copy p addr (nat n) (nat n) s) (\<lambda>(i, s).
        bindr (wakeup (Some (Chan_nwrite p)) s) (\<lambda>s.
        bindr (release (Pipe_lock p) s) (\<lambda>s.
        Inr (Returns (int i), s)))))"

definition piperead_enter :: "uint \<Rightarrow> buffer \<Rightarrow> int \<Rightarrow> kernel \<Rightarrow> (wait \<times> kernel) result" where
  "piperead_enter p addr n s = bindr (acquire (Pipe_lock p) s) (piperead_pass p addr n)"

definition piperead_again :: "uint \<Rightarrow> buffer \<Rightarrow> int \<Rightarrow> nat \<Rightarrow> bool \<Rightarrow> kernel \<Rightarrow> (wait \<times> kernel) result" where
  "piperead_again p addr n q intena s =
     bindr (sleep_exit q (Pipe_lock p) intena s) (piperead_pass p addr n)"

definition piperead :: "uint \<Rightarrow> buffer \<Rightarrow> int \<Rightarrow> kernel \<Rightarrow> (int \<times> kernel) result" where
  "piperead p addr n s = one_go (piperead_enter p addr n s)"

section \<open>A pipe is a bounded queue of bytes\<close>

interpretation pipe_ring: ring pi_slot 512
  by (rule ring_mod) (simp_all add: pi_slot_def unat_mod_distrib)

definition pipe_ok :: "pipe \<Rightarrow> bool" where
  "pipe_ok q \<longleftrightarrow> unat (pi_nwrite q - pi_nread q) \<le> 512"

definition pipe_bytes :: "pipe \<Rightarrow> uchar list" where
  "pipe_bytes q = ring_window pi_slot (pi_data q) (pi_nread q) (pi_nwrite q)"

lemma pipe_bytes_open [simp]:
  "pipe_bytes (q\<lparr>pi_readopen := b\<rparr>) = pipe_bytes q" "pipe_bytes (q\<lparr>pi_writeopen := b\<rparr>) = pipe_bytes q"
  "pipe_ok (q\<lparr>pi_readopen := b\<rparr>) = pipe_ok q" "pipe_ok (q\<lparr>pi_writeopen := b\<rparr>) = pipe_ok q"
  by (simp_all add: pipe_bytes_def pipe_ok_def)

lemma pipe_full_iff: "pipe_full q \<longleftrightarrow> length (pipe_bytes q) = 512"
proof -
  have "pi_nwrite q = pi_nread q + 512 \<longleftrightarrow> pi_nwrite q - pi_nread q = 512" by (auto simp: algebra_simps)
  also have "\<dots> \<longleftrightarrow> unat (pi_nwrite q - pi_nread q) = 512" by (simp add: word_unat_eq_iff)
  finally show ?thesis by (simp add: pipe_full_def pipe_bytes_def)
qed

lemma pipe_empty_iff: "pipe_empty q \<longleftrightarrow> pipe_bytes q = []"
  by (simp add: pipe_empty_def pipe_bytes_def)

lemma pipe_put_bytes:
  assumes "pipe_ok q" and "\<not> pipe_full q"
  shows "pipe_ok (pipe_put c q)" and "pipe_bytes (pipe_put c q) = pipe_bytes q @ [c]"
proof -
  have "unat (pi_nwrite q - pi_nread q) < 512"
    using assms pipe_full_iff [of q] by (simp add: pipe_ok_def pipe_bytes_def)
  note put = pipe_ring.window_put [OF this]
  then show "pipe_bytes (pipe_put c q) = pipe_bytes q @ [c]"
    by (simp add: pipe_bytes_def pipe_put_def)
  then have "length (pipe_bytes (pipe_put c q)) = Suc (length (pipe_bytes q))" by simp
  with \<open>_ < 512\<close> show "pipe_ok (pipe_put c q)" by (simp add: pipe_ok_def pipe_bytes_def)
qed

lemma pipe_get_bytes:
  assumes "pipe_ok q" and "\<not> pipe_empty q" and "pipe_get q = (c, q')"
  shows "pipe_ok q'" and "pipe_bytes q = c # pipe_bytes q'"
proof -
  have ne: "pi_nwrite q \<noteq> pi_nread q" using assms(2) by (simp add: pipe_empty_def)
  show "pipe_bytes q = c # pipe_bytes q'"
    using pipe_ring.window_get [OF ne] assms(3) by (auto simp: pipe_bytes_def pipe_get_def)
  then have "length (pipe_bytes q) = Suc (length (pipe_bytes q'))" by simp
  with assms(1) show "pipe_ok q'" by (simp add: pipe_ok_def pipe_bytes_def)
qed

interpretation pipe_queue: bounded_queue pipe_put pipe_get pipe_full pipe_empty pipe_ok pipe_bytes 512
proof
  show "pipe_ok q \<Longrightarrow> length (pipe_bytes q) \<le> 512" for q by (simp add: pipe_ok_def pipe_bytes_def)
qed (use pipe_full_iff pipe_empty_iff pipe_put_bytes pipe_get_bytes in blast)+

text \<open>
  C11. A pipe is a first-in first-out queue of at most 512 bytes: whatever the two 32-bit byte
  counters are at the start, and through any sequence of bytes put while it is not full
  and bytes taken while it is not empty (the counters may wrap), the bytes taken followed by
  the bytes still in the ring are the bytes that were in it followed by the bytes put.
\<close>

theorem pipe_is_fifo:
  assumes "queue_run pipe_put pipe_get pipe_full pipe_empty q ins outs q'" and "pipe_ok q"
  shows "pipe_ok q' \<and> outs @ pipe_bytes q' = pipe_bytes q @ ins \<and> length (pipe_bytes q') \<le> 512"
  using assms by (rule pipe_queue.run_fifo)

theorem pipe_is_fifo_witness:
  "\<exists>q'. queue_run pipe_put pipe_get pipe_full pipe_empty
       (zero_pipe\<lparr>pi_nread := 0xFFFFFFFF, pi_nwrite := 0xFFFFFFFF\<rparr>) [1, 2] [1] q' \<and> pipe_bytes q' = [2]"
proof -
  let ?q = "zero_pipe\<lparr>pi_nread := 0xFFFFFFFF, pi_nwrite := 0xFFFFFFFF\<rparr>"
  let ?q2 = "pipe_put 2 (pipe_put 1 ?q)"
  obtain q' where g: "pipe_get ?q2 = (1, q')"
    by (simp add: pipe_get_def pipe_put_def pi_slot_def)
  have "queue_run pipe_put pipe_get pipe_full pipe_empty ?q ([] @ [1]) [] (pipe_put 1 ?q)"
    by (intro run_put run_start) (simp add: pipe_full_def)
  then have "queue_run pipe_put pipe_get pipe_full pipe_empty ?q (([] @ [1]) @ [2]) [] ?q2"
    by (rule run_put) (simp add: pipe_full_def pipe_put_def)
  from run_get [OF this _ g]
  have r: "queue_run pipe_put pipe_get pipe_full pipe_empty ?q [1, 2] [1] q'"
    by (simp add: pipe_empty_def pipe_put_def)
  from pipe_is_fifo [OF this] have "pipe_bytes q' = [2]"
    by (simp add: pipe_ok_def pipe_bytes_def)
  with r show ?thesis by blast
qed

section \<open>Reading and writing\<close>

text \<open>The state in which the loops run: the pipe's lock is held and is the only one.\<close>

definition in_pipe :: "uint \<Rightarrow> kernel \<Rightarrow> bool" where
  "in_pipe p s \<longleftrightarrow> cpu_wf s \<and> sched_inv s \<and> lock_held (Pipe_lock p) s \<and> lock_free Ptable_lock s \<and>
     c_ncli (cpus s (this_cpu s)) = 1 \<and> pipe_ok (pipes s p)"

text \<open>What a completed call has done: the pipe, and the memory of a reader.\<close>

definition piped :: "uint \<Rightarrow> uchar list \<Rightarrow> memory \<Rightarrow> kernel \<Rightarrow> kernel \<Rightarrow> bool" where
  "piped p bs m s t \<longleftrightarrow> cpu_wf t \<and> sched_inv t \<and> lock_free (Pipe_lock p) t \<and> lock_free Ptable_lock t \<and>
     c_ncli (cpus t (this_cpu t)) = 0 \<and> pipe_ok (pipes t p) \<and> pipe_bytes (pipes t p) = bs \<and>
     (\<forall>a. a \<noteq> p \<longrightarrow> pipes t a = pipes s a) \<and> pi_readopen (pipes t p) = pi_readopen (pipes s p) \<and>
     pi_writeopen (pipes t p) = pi_writeopen (pipes s p) \<and> mem t = m \<and>
     (\<forall>lk. lk \<noteq> Pipe_lock p \<and> lk \<noteq> Ptable_lock \<longrightarrow> locks t lk = locks s lk) \<and>
     this_cpu t = this_cpu s \<and> c_proc (cpus t (this_cpu t)) = c_proc (cpus s (this_cpu s))"

lemma in_pipe_acq:
  assumes "cpu_wf s" and "sched_inv s" and "lock_free (Pipe_lock p) s" and "lock_free Ptable_lock s"
    and "c_ncli (cpus s (this_cpu s)) = 0" and "pipe_ok (pipes s p)"
  shows "in_pipe p (acq (Pipe_lock p) s)"
  using assms by (simp add: in_pipe_def)

lemma pipe_wakeup_release:
  assumes "in_pipe p s"
  shows "wp (bindr (wakeup chan s) (\<lambda>s. bindr (release (Pipe_lock p) s) (\<lambda>s. Inr (r, s))))
    (\<lambda>(r', t). r' = r \<and> piped p (pipe_bytes (pipes s p)) (mem s) s t)"
proof -
  have s: "cpu_wf s" "sched_inv s" "lock_held (Pipe_lock p) s" "lock_free Ptable_lock s"
    "c_ncli (cpus s (this_cpu s)) = 1" "pipe_ok (pipes s p)" using assms by (simp_all add: in_pipe_def)
  show ?thesis
  proof (rule wp_seq [OF wakeup_woke [OF s(1) _ s(4,2)]], goal_cases)
    case 1
    then show ?case using s(5) by simp
  next
    case (2 t)
    then have "woke s t" ..
    note f = woke_fields [OF this]
    have "release (Pipe_lock p) t = Inr (rel (Pipe_lock p) t)"
      using s by (intro release_held) (simp_all add: f)
    moreover have "piped p (pipe_bytes (pipes s p)) (mem s) s (rel (Pipe_lock p) t)"
      using s f(15) by (simp add: piped_def f)
    ultimately show ?case by simp
  qed
qed

lemma in_pipe_put:
  assumes "in_pipe p s" and "\<not> pipe_full (pipes s p)"
  shows "in_pipe p (upd_pipe p (pipe_put c) s)"
    and "pipe_bytes (pipes (upd_pipe p (pipe_put c) s) p) = pipe_bytes (pipes s p) @ [c]"
  using assms pipe_put_bytes [of "pipes s p" c] sched_view(1) [of "upd_pipe p (pipe_put c) s" s]
  by (auto simp: in_pipe_def)

lemma piped_put:
  "piped p bs m (upd_pipe p (pipe_put c) s) t \<Longrightarrow> piped p bs m s t"
  by (auto simp: piped_def pipe_put_def)

text \<open>A write that fits goes through in one pass.\<close>

lemma pipewrite_loop_fits:
  assumes "in_pipe p s" and "length (pipe_bytes (pipes s p)) + k \<le> 512" and "int k \<le> n"
  shows "wp (pipewrite_loop p (Kva a) n k s) (\<lambda>((w, l), t). w = Returns n \<and> l = 0 \<and>
    piped p (pipe_bytes (pipes s p) @ map (\<lambda>i. mem s (a + of_int (n - int k) + of_nat i)) [0..<k]) (mem s) s t)"
  using assms
proof (induction k arbitrary: s)
  case 0
  show ?case
    unfolding pipewrite_loop.simps
    by (rule wp_mono [OF pipe_wakeup_release [OF 0(1)]]) auto
next
  case (Suc k)
  let ?c = "mem s (a + of_int (n - int (Suc k)))"
  let ?t = "upd_pipe p (pipe_put ?c) s"
  have nf: "\<not> pipe_full (pipes s p)" using Suc.prems(2) by (simp add: pipe_full_iff)
  note put = in_pipe_put [OF Suc.prems(1) nf, of ?c]
  have upt: "[0..<Suc k] = 0 # map Suc [0..<k]" by (simp add: map_Suc_upt upt_conv_Cons)
  have shift: "a + of_int (n - int k) + of_nat i = a + of_int (n - int (Suc k)) + of_nat (Suc i)" for i
    by simp
  have bytes: "pipe_bytes (pipes ?t p) @ map (\<lambda>i. mem ?t (a + of_int (n - int k) + of_nat i)) [0..<k] =
    pipe_bytes (pipes s p) @ map (\<lambda>i. mem s (a + of_int (n - int (Suc k)) + of_nat i)) [0..<Suc k]"
    unfolding put(2) upt shift list.map map_map comp_def by simp
  have mem: "mem ?t = mem s" by simp
  have "wp (pipewrite_loop p (Kva a) n k ?t) (\<lambda>((w, l), t). w = Returns n \<and> l = 0 \<and>
    piped p (pipe_bytes (pipes ?t p) @ map (\<lambda>i. mem ?t (a + of_int (n - int k) + of_nat i)) [0..<k]) (mem ?t) ?t t)"
    using Suc.prems(2,3) put by (intro Suc.IH) simp_all
  then have "wp (pipewrite_loop p (Kva a) n k ?t) (\<lambda>((w, l), t). w = Returns n \<and> l = 0 \<and>
    piped p (pipe_bytes (pipes s p) @ map (\<lambda>i. mem s (a + of_int (n - int (Suc k)) + of_nat i)) [0..<Suc k]) (mem s) s t)"
    unfolding bytes unfolding mem by (rule wp_mono) (use piped_put in \<open>auto simp only: split: prod.splits\<close>)
  with nf show ?case by (simp add: fetch_bytes_def)
qed

text \<open>Bytes stored one after the other.\<close>

primrec poke :: "uint \<Rightarrow> uchar list \<Rightarrow> memory \<Rightarrow> memory" where
  "poke a [] m = m"
| "poke a (b # bs) m = poke (a + 1) bs (m(a := b))"

lemma poke_outside: "length bs < 2 ^ 32 \<Longrightarrow> length bs \<le> unat (x - a) \<Longrightarrow> poke a bs m x = m x"
proof (induction bs arbitrary: a m)
  case Nil
  then show ?case by simp
next
  case (Cons b bs)
  then have "x \<noteq> a" by auto
  with Cons.prems have "length bs \<le> unat (x - (a + 1))" using unat_sub_Suc [of x a] by simp
  with Cons \<open>x \<noteq> a\<close> show ?case by simp
qed

lemma poke_inside: "length bs < 2 ^ 32 \<Longrightarrow> i < length bs \<Longrightarrow> poke a bs m (a + of_nat i) = bs ! i"
proof (induction bs arbitrary: a m i)
  case Nil
  then show ?case by simp
next
  case (Cons b bs)
  show ?case
  proof (cases i)
    case 0
    have "length bs \<le> unat (a - (a + 1))"
      using Cons.prems(1) by (simp add: unsigned_minus_1_eq_mask mask_eq_exp_minus_1)
    then show ?thesis using 0 Cons.prems(1) by (simp add: poke_outside)
  next
    case (Suc j)
    then show ?thesis using Cons.IH [of j "a + 1"] Cons.prems by (simp add: add.assoc)
  qed
qed

lemma in_pipe_get:
  assumes "in_pipe p s" and "\<not> pipe_empty (pipes s p)" and g: "pipe_get (pipes s p) = (c, q)"
  shows "in_pipe p (s\<lparr>pipes := (pipes s)(p := q), mem := m\<rparr>)"
    and "pipe_bytes (pipes s p) = c # pipe_bytes q"
  using assms(1) pipe_get_bytes [OF _ assms(2) g] sched_view(1) [of "s\<lparr>pipes := (pipes s)(p := q), mem := m\<rparr>" s]
  by (auto simp: in_pipe_def)

definition took :: "uint \<Rightarrow> uchar list \<Rightarrow> memory \<Rightarrow> kernel \<Rightarrow> kernel \<Rightarrow> bool" where
  "took p bs m s t \<longleftrightarrow> in_pipe p t \<and> pipe_bytes (pipes t p) = bs \<and>
     pi_readopen (pipes t p) = pi_readopen (pipes s p) \<and> pi_writeopen (pipes t p) = pi_writeopen (pipes s p) \<and>
     t = s\<lparr>pipes := (pipes s)(p := pipes t p), mem := m\<rparr>"

lemma piperead_copy_takes:
  assumes "in_pipe p s" and "k \<le> n"
  shows "wp (piperead_copy p (Kva b) n k s) (\<lambda>(i, t). i = n - k + min k (length (pipe_bytes (pipes s p))) \<and>
    took p (drop k (pipe_bytes (pipes s p))) (poke (b + of_nat (n - k)) (take k (pipe_bytes (pipes s p))) (mem s)) s t)"
  using assms
proof (induction k arbitrary: s)
  case 0
  then show ?case by (simp add: took_def)
next
  case (Suc k)
  show ?case
  proof (cases "pipe_empty (pipes s p)")
    case True
    then have "pipe_bytes (pipes s p) = []" by (simp add: pipe_empty_iff)
    then show ?thesis using True Suc.prems by (simp add: took_def)
  next
    case False
    obtain c q where g: "pipe_get (pipes s p) = (c, q)" by fastforce
    let ?a = "b + of_nat (n - Suc k)"
    let ?t = "s\<lparr>pipes := (pipes s)(p := q), mem := (mem s)(?a := c)\<rparr>"
    note get = in_pipe_get [OF Suc.prems(1) False g]
    have q: "pi_readopen q = pi_readopen (pipes s p)" "pi_writeopen q = pi_writeopen (pipes s p)"
      using g by (auto simp: pipe_get_def)
    have nk: "n - k = Suc (n - Suc k)" using Suc.prems(2) by simp
    have "wp (piperead_copy p (Kva b) n k ?t) (\<lambda>(i, t). i = n - k + min k (length (pipe_bytes (pipes ?t p))) \<and>
      took p (drop k (pipe_bytes (pipes ?t p))) (poke (b + of_nat (n - k)) (take k (pipe_bytes (pipes ?t p))) (mem ?t)) ?t t)"
      using Suc.prems(2) get(1) by (intro Suc.IH) simp_all
    then have "wp (piperead_copy p (Kva b) n k ?t)
       (\<lambda>(i, t). i = n - Suc k + min (Suc k) (length (pipe_bytes (pipes s p))) \<and>
      took p (drop (Suc k) (pipe_bytes (pipes s p))) (poke ?a (take (Suc k) (pipe_bytes (pipes s p))) (mem s)) s t)"
      by (rule wp_mono) (auto simp: get(2) nk q took_def algebra_simps)
    moreover have "(\<lambda>x. if x = ?a then c else mem s x) = (mem s)(?a := c)" by auto
    ultimately show ?thesis
      using False g by (simp add: deliver_bytes_def Let_def unat_eq_0 cong: if_cong)
  qed
qed

lemma piped_took:
  assumes t: "took p bs m s t" and u: "piped p bs' m' t u"
  shows "piped p bs' m' s u"
proof -
  have eq: "t = s\<lparr>pipes := (pipes s)(p := pipes t p), mem := m\<rparr>" and
    op: "pi_readopen (pipes t p) = pi_readopen (pipes s p)" "pi_writeopen (pipes t p) = pi_writeopen (pipes s p)"
    using t by (simp_all add: took_def)
  have "pipes t a = pipes s a" if "a \<noteq> p" for a by (subst eq) (simp add: that)
  moreover have "locks t = locks s" "this_cpu t = this_cpu s" "cpus t = cpus s" by (subst eq, simp)+
  ultimately show ?thesis using u op by (auto simp: piped_def)
qed

lemma piperead_pass_takes:
  assumes s: "in_pipe p s" and some: "pipe_bytes (pipes s p) \<noteq> [] \<or> \<not> pi_writeopen (pipes s p)"
  defines "bs \<equiv> pipe_bytes (pipes s p)"
  shows "wp (piperead_pass p (Kva b) n s) (\<lambda>(w, t). w = Returns (int (min (nat n) (length bs))) \<and>
    piped p (drop (nat n) bs) (poke b (take (nat n) bs) (mem s)) s t)"
proof -
  have go: "\<not> (pipe_empty (pipes s p) \<and> pi_writeopen (pipes s p))" using some by (simp add: pipe_empty_iff)
  have copy: "wp (piperead_copy p (Kva b) (nat n) (nat n) s) (\<lambda>(i, t). i = min (nat n) (length bs) \<and>
      took p (drop (nat n) bs) (poke b (take (nat n) bs) (mem s)) s t)"
    using piperead_copy_takes [OF s, of "nat n" "nat n" b] by (simp add: bs_def)
  show ?thesis
    unfolding piperead_pass_def if_not_P [OF go]
  proof (rule wp_seq [OF copy], clarify)
    fix i t
    assume t: "took p (drop (nat n) bs) (poke b (take (nat n) bs) (mem s)) s t"
    then have it: "in_pipe p t" "pipe_bytes (pipes t p) = drop (nat n) bs" "mem t = poke b (take (nat n) bs) (mem s)"
      by (auto simp: took_def elim: ssubst)
    show "wp (bindr (wakeup (Some (Chan_nwrite p)) t) (\<lambda>s. bindr (release (Pipe_lock p) s)
        (\<lambda>s. Inr (Returns (int (min (nat n) (length bs))), s))))
      (\<lambda>(w, t). w = Returns (int (min (nat n) (length bs))) \<and>
        piped p (drop (nat n) bs) (poke b (take (nat n) bs) (mem s)) s t)"
      by (rule wp_mono [OF pipe_wakeup_release [OF it(1)]]) (use piped_took [OF t] it in auto)
  qed
qed

text \<open>The states in which the system calls start: no lock is held.\<close>

definition outside :: "uint \<Rightarrow> kernel \<Rightarrow> bool" where
  "outside p s \<longleftrightarrow> cpu_wf s \<and> sched_inv s \<and> lock_free (Pipe_lock p) s \<and> lock_free Ptable_lock s \<and>
     c_ncli (cpus s (this_cpu s)) = 0 \<and> pipe_ok (pipes s p)"

lemma outside_enter:
  assumes "outside p s"
  shows "acquire (Pipe_lock p) s = Inr (acq (Pipe_lock p) s)" "in_pipe p (acq (Pipe_lock p) s)"
  using assms by (simp_all add: outside_def in_pipe_def)

lemma piped_acq: "piped p bs m (acq (Pipe_lock p) s) t \<Longrightarrow> piped p bs m s t"
  by (auto simp: piped_def)

lemma piped_outside: "piped p bs m s t \<Longrightarrow> outside p t"
  unfolding piped_def outside_def by blast

lemma piped_result: "piped p bs m s t \<Longrightarrow> outside p t \<and> pipe_bytes (pipes t p) = bs \<and> mem t = m"
  by (rule conjI, erule piped_outside, simp add: piped_def)


lemma outside_lone:
  assumes "0 \<le> p_nice q" "p_nice q < 4" "p_next q = None" "p_back q = None"
  shows "outside p (lone q)"
proof -
  have "pipes (lone q) = (\<lambda>_. zero_pipe)" by (simp add: lone_def)
  then show ?thesis
    using lone_inv(1) [OF assms] by (simp add: outside_def pipe_ok_def zero_pipe_def)
qed


text \<open>A writer that finds the pipe full.\<close>

lemma pipewrite_full:
  assumes s: "in_pipe p s" and full: "pipe_full (pipes s p)" and op: "pi_readopen (pipes s p)"
    and q: "c_proc (cpus s (this_cpu s)) = Some q" "\<not> p_killed (procs s q)" "p_state (procs s q) = RUNNING" "q < 64"
  shows "wp (pipewrite_loop p addr n (Suc k) s) (\<lambda>((w, l), t). w = Sleeps (c_intena (cpus s (this_cpu s))) \<and> l = Suc k \<and>
    sched_inv t \<and> sleeps_on (Some (Chan_nwrite p)) (procs t q) \<and> (\<nexists>r. r < 64 \<and> sleeps_on (Some (Chan_nread p)) (procs t r)) \<and>
    lock_free (Pipe_lock p) t \<and> lock_held Ptable_lock t \<and> pipes t = pipes s)"
proof -
  have st: "cpu_wf s" "sched_inv s" "lock_held (Pipe_lock p) s" "lock_free Ptable_lock s"
    "c_ncli (cpus s (this_cpu s)) = 1" "pipe_ok (pipes s p)" using s by (simp_all add: in_pipe_def)
  have pp: "pop1 (push1 (cpus s (this_cpu s))) = cpus s (this_cpu s)"
    using st by (intro pop1_push1) (auto simp: cpu_view_def)
  have my: "my s = Inr (q, s)" using myproc_eq [OF st(1)] q(1) pp by (simp add: my_def)
  have eq: "pipewrite_loop p addr n (Suc k) s =
      bindr (wakeup (Some (Chan_nread p)) s) (\<lambda>s.
      bindr (sleep_enter (Some (Chan_nwrite p)) (Some (Pipe_lock p)) s) (\<lambda>(b, s). Inr ((Sleeps b, Suc k), s)))"
    using full op q(2) my by simp
  show ?thesis
    unfolding eq
  proof (rule wp_seq [OF wakeup_woke [OF st(1) _ st(4,2)]], goal_cases)
    case 1
    then show ?case using st(5) by simp
  next
    case (2 t)
    then have w: "woke s t" and tq: "\<And>r. same_but_links (procs t r)
      (if r < 64 \<and> sleeps_on (Some (Chan_nread p)) (procs s r) then woken (procs s r) else procs s r)" by blast+
    note f = woke_fields [OF w]
    have sl: "sleep_enter (Some (Chan_nwrite p)) (Some (Pipe_lock p)) t = Inr (c_intena (cpus t (this_cpu t)),
      t\<lparr>procs := (procs t)(q := (procs t q)\<lparr>p_chan := Some (Chan_nwrite p), p_state := SLEEPING\<rparr>),
        locks := (locks t)(Ptable_lock := \<lparr>lk_locked = True, lk_cpu = Some (this_cpu t)\<rparr>,
                           Pipe_lock p := \<lparr>lk_locked = False, lk_cpu = None\<rparr>)\<rparr>)" (is "_ = Inr (_, ?u)")
      using st q(1) by (intro sleep_enter_eq) (simp_all add: f)
    have none: "\<not> sleeps_on (Some (Chan_nread p)) (procs t r)" if "r < 64" for r
      using tq [of r] same_but_links_fields(1,5) [OF tq [of r]] that
      by (auto simp: sleeps_on_def woken_def split: if_splits)
    have "p_state (procs t q) = RUNNING" "p_nice (procs t q) = p_nice (procs s q)"
      using same_but_links_fields(1,2) [OF tq [of q]] q(3) by (simp_all add: sleeps_on_def)
    then have inv: "sched_inv ?u"
      using sched_inv_change(1) [OF f(15), of q _ ?u] sched_inv_nice [OF st(2) q(4)] by simp
    have "sleeps_on (Some (Chan_nwrite p)) (procs ?u q)" by (simp add: sleeps_on_def)
    moreover have "\<nexists>r. r < 64 \<and> sleeps_on (Some (Chan_nread p)) (procs ?u r)"
      using none by (auto simp: sleeps_on_def)
    ultimately show ?case using inv by (simp add: sl f)
  qed
qed

text \<open>
  C23. A writer that finds the pipe full hands over to the readers: it does not lose or
  overwrite a byte, it wakes every process asleep in piperead on this pipe, and it goes to
  sleep on the pipe's write channel with the pipe's lock released and ptable.lock held, so
  that no reader can be left asleep while the pipe is full.
\<close>

theorem pipewrite_full_hands_over:
  assumes "outside p s" and "pipe_full (pipes s p)" and "pi_readopen (pipes s p)" and "0 < n"
    and "c_proc (cpus s (this_cpu s)) = Some q" and "q < 64" and "p_state (procs s q) = RUNNING"
    and "\<not> p_killed (procs s q)"
  shows "\<exists>b t. pipewrite_enter p addr n s = Inr ((Sleeps b, nat n), t) \<and> pipes t = pipes s \<and> sched_inv t \<and>
    sleeps_on (Some (Chan_nwrite p)) (procs t q) \<and> (\<nexists>r. r < 64 \<and> sleeps_on (Some (Chan_nread p)) (procs t r)) \<and>
    lock_free (Pipe_lock p) t \<and> lock_held Ptable_lock t"
proof -
  obtain k where k: "nat n = Suc k" using assms(4) by (cases "nat n") auto
  note enter = outside_enter [OF assms(1)]
  let ?s = "acq (Pipe_lock p) s"
  have "wp (pipewrite_loop p addr n (Suc k) ?s) (\<lambda>((w, l), t). w = Sleeps (c_intena (cpus ?s (this_cpu ?s))) \<and> l = Suc k \<and>
    sched_inv t \<and> sleeps_on (Some (Chan_nwrite p)) (procs t q) \<and> (\<nexists>r. r < 64 \<and> sleeps_on (Some (Chan_nread p)) (procs t r)) \<and>
    lock_free (Pipe_lock p) t \<and> lock_held Ptable_lock t \<and> pipes t = pipes ?s)"
    using assms by (intro pipewrite_full [OF enter(2)]) simp_all
  then show ?thesis
    unfolding pipewrite_enter_def enter(1) bindr_simps k wp_def by auto
qed

theorem pipewrite_full_hands_over_witness:
  "\<exists>s t b. pipe_full (pipes s 0x80200000) \<and> sleeps_on (Some (Chan_nread 0x80200000)) (procs s 7) \<and>
     pipewrite_enter 0x80200000 (Kva 0) 1 s = Inr ((Sleeps b, 1), t) \<and> \<not> sleeps_on (Some (Chan_nread 0x80200000)) (procs t 7)"
proof -
  let ?p = "0x80200000 :: uint"
  let ?r = "zero_proc\<lparr>p_state := SLEEPING, p_chan := Some (Chan_nread ?p)\<rparr>"
  let ?w = "zero_proc\<lparr>p_state := RUNNING\<rparr>"
  let ?s = "(lone ?r)\<lparr>procs := (procs (lone ?r))(3 := ?w), cpus := (cpus (lone ?r))(0 := zero_cpu\<lparr>c_proc := Some 3\<rparr>),
      pipes := (\<lambda>_. zero_pipe\<lparr>pi_nwrite := 512, pi_readopen := True\<rparr>)\<rparr>"
  have "sched_inv (lone ?r)" by (rule lone_inv) (simp_all add: zero_proc_def)
  then have inv: "sched_inv ?s"
    by (rule sched_inv_change(1) [of _ 3 ?w]) (simp_all add: zero_proc_def lone_def)
  have "cpu_wf (booted 1)" by simp
  then have "outside ?p ?s"
    using inv by (simp add: outside_def pipe_ok_def zero_pipe_def cpu_view_def distinct_ids_def inj_on_def)
  moreover have full: "pipe_full (pipes ?s ?p)" by (simp add: pipe_full_def zero_pipe_def)
  ultimately obtain b t where "pipewrite_enter ?p (Kva 0) 1 ?s = Inr ((Sleeps b, nat 1), t)"
      "\<nexists>r. r < 64 \<and> sleeps_on (Some (Chan_nread ?p)) (procs t r)"
    using pipewrite_full_hands_over [of ?p ?s 1 3 "Kva 0"] by (auto simp: zero_proc_def)
  then have "pipewrite_enter ?p (Kva 0) 1 ?s = Inr ((Sleeps b, 1), t)" "\<not> sleeps_on (Some (Chan_nread ?p)) (procs t 7)"
    by auto
  moreover have "sleeps_on (Some (Chan_nread ?p)) (procs ?s 7)" by (simp add: sleeps_on_def)
  ultimately show ?thesis using full by blast
qed

end
