(* ===== verification/File.thy ===== *)
theory File
  imports Fs Pipe
begin

text \<open>
  The file table (\<^verbatim>\<open>file.c\<close>): open files with a reference count, on top of inodes and pipes;
  and \<^verbatim>\<open>pipealloc\<close> of \<^verbatim>\<open>pipe.c\<close>.
\<close>

section \<open>Operations\<close>

definition fileinit :: "kernel \<Rightarrow> kernel" where
  "fileinit s = initlock Ftable_lock s"

definition filealloc :: "kernel \<Rightarrow> (nat option \<times> kernel) result" where
  "filealloc s =
     bindr (acquire Ftable_lock s) (\<lambda>s.
     case find (\<lambda>f. f_ref (ftable s f) = 0) [0..<NFILE] of
       Some f \<Rightarrow>
         let s = upd_file f (\<lambda>fl. fl\<lparr>f_ref := 1\<rparr>) s in
         bindr (release Ftable_lock s) (\<lambda>s. Inr (Some f, s))
     | None \<Rightarrow> bindr (release Ftable_lock s) (\<lambda>s. Inr (None, s)))"

definition filedup :: "nat \<Rightarrow> kernel \<Rightarrow> (nat \<times> kernel) result" where
  "filedup f s =
     bindr (acquire Ftable_lock s) (\<lambda>s.
     bindr (panic_if (f_ref (ftable s f) < 1) ''filedup'') (\<lambda>_.
     let s = upd_file f (\<lambda>fl. fl\<lparr>f_ref := f_ref fl + 1\<rparr>) s in
     bindr (release Ftable_lock s) (\<lambda>s. Inr (f, s))))"

definition fileclose :: "nat \<Rightarrow> kernel \<Rightarrow> kernel result" where
  "fileclose f s =
     bindr (acquire Ftable_lock s) (\<lambda>s.
     bindr (panic_if (f_ref (ftable s f) < 1) ''fileclose'') (\<lambda>_.
     let s = upd_file f (\<lambda>fl. fl\<lparr>f_ref := f_ref fl - 1\<rparr>) s in
     if f_ref (ftable s f) > 0 then release Ftable_lock s
     else
       let ff = ftable s f; s = upd_file f (\<lambda>fl. fl\<lparr>f_ref := 0, f_type := FD_NONE\<rparr>) s in
       bindr (release Ftable_lock s) (\<lambda>s.
       case f_type ff of
         FD_PIPE \<Rightarrow> pipeclose (f_pipe ff) (f_writable ff) s
       | FD_INODE \<Rightarrow>
           bindr (begin_op s) (\<lambda>s.
           bindr (deref (f_ip ff)) (\<lambda>ip.
           bindr (iput ip s) end_op))
       | FD_NONE \<Rightarrow> Inr s)))"

text \<open>\<^verbatim>\<open>struct stat\<close> in user memory; \<^verbatim>\<open>stati\<close> fills it field by field.\<close>

definition store_stat :: "uint \<Rightarrow> stat \<Rightarrow> kernel \<Rightarrow> kernel result" where
  "store_stat a st s =
     bindr (store_user32 (a + 4) (word_of_int (st_dev st)) s) (\<lambda>s.
     bindr (store_user32 (a + 8) (st_ino st) s) (\<lambda>s.
     bindr (store_users a [ucast (st_type st), ucast (drop_bit 8 (st_type st))] s) (\<lambda>s.
     bindr (store_users (a + 12) [ucast (st_nlink st), ucast (drop_bit 8 (st_nlink st))] s)
       (store_user32 (a + 16) (st_size st)))))"

definition filestat :: "nat \<Rightarrow> uint \<Rightarrow> kernel \<Rightarrow> (int \<times> kernel) result" where
  "filestat f st s =
     (if f_type (ftable s f) = FD_INODE then
        bindr (ilock (f_ip (ftable s f)) s) (\<lambda>s.
        bindr (deref (f_ip (ftable s f))) (\<lambda>ip.
        bindr (store_stat st (stati ip s) s) (\<lambda>s.
        bindr (iunlock (f_ip (ftable s f)) s) (\<lambda>s.
        Inr (0, s)))))
      else Inr (-1, s))"

definition fileread :: "nat \<Rightarrow> buffer \<Rightarrow> int \<Rightarrow> kernel \<Rightarrow> (int \<times> kernel) result" where
  "fileread f addr n s =
     (let fl = ftable s f in
      if \<not> f_readable fl then Inr (-1, s)
      else
        (case f_type fl of
           FD_PIPE \<Rightarrow> piperead (f_pipe fl) addr n s
         | FD_INODE \<Rightarrow>
             bindr (ilock (f_ip fl) s) (\<lambda>s.
             bindr (deref (f_ip fl)) (\<lambda>ip.
             bindr (readi ip addr (f_off (ftable s f)) (word_of_int n) s) (\<lambda>((r, _), s).
             let s = (if r > 0 then upd_file f (\<lambda>fl. fl\<lparr>f_off := f_off fl + word_of_int r\<rparr>) s else s) in
             bindr (iunlock (f_ip fl) s) (\<lambda>s.
             Inr (r, s)))))
         | FD_NONE \<Rightarrow> Inl (Panic ''fileread'')))"

text \<open>\<^verbatim>\<open>addr + i\<close>.\<close>

primrec buffer_at :: "buffer \<Rightarrow> int \<Rightarrow> buffer" where
  "buffer_at (Uva a) i = Uva (a + word_of_int i)"
| "buffer_at (Kva a) i = Kva (a + word_of_int i)"
| "buffer_at (Local b) i = Local (drop_bytes (nat i) b)"

definition write_max :: int where
  "write_max = ((MAXOPBLOCKS - 1 - 1 - 2) div 2) * 512"

text \<open>
  The loop of \<^verbatim>\<open>filewrite\<close> on an inode: a chunk of at most \<open>write_max\<close> bytes per
  transaction. The last component is the value of \<^verbatim>\<open>i\<close> when the loop ends.
\<close>

fun filewrite_loop :: "nat \<Rightarrow> nat \<Rightarrow> buffer \<Rightarrow> int \<Rightarrow> int \<Rightarrow> kernel \<Rightarrow> (int \<times> kernel) result" where
  "filewrite_loop k f addr i n s =
     (if i < n then
        (case k of 0 \<Rightarrow> Inl Out_Of_Fuel
         | Suc k \<Rightarrow>
             let n1 = (if n - i > write_max then write_max else n - i) in
             bindr (begin_op s) (\<lambda>s.
             bindr (ilock (f_ip (ftable s f)) s) (\<lambda>s.
             bindr (deref (f_ip (ftable s f))) (\<lambda>ip.
             bindr (writei ip (buffer_at addr i) (f_off (ftable s f)) (word_of_int n1) s) (\<lambda>(r, s).
             let s = (if r > 0 then upd_file f (\<lambda>fl. fl\<lparr>f_off := f_off fl + word_of_int r\<rparr>) s else s) in
             bindr (iunlock (f_ip (ftable s f)) s) (\<lambda>s.
             bindr (end_op s) (\<lambda>s.
             if r < 0 then Inr (i, s)
             else
               bindr (panic_if (r \<noteq> n1) ''short filewrite'') (\<lambda>_.
               filewrite_loop k f addr (i + r) n s)))))))) 
      else Inr (i, s))"

declare filewrite_loop.simps [simp del]

definition filewrite :: "nat \<Rightarrow> buffer \<Rightarrow> int \<Rightarrow> kernel \<Rightarrow> (int \<times> kernel) result" where
  "filewrite f addr n s =
     (let fl = ftable s f in
      if \<not> f_writable fl then Inr (-1, s)
      else
        (case f_type fl of
           FD_PIPE \<Rightarrow> pipewrite (f_pipe fl) addr n s
         | FD_INODE \<Rightarrow>
             bindr (filewrite_loop (nat n) f addr 0 n s) (\<lambda>(i, s).
             Inr (if i = n then n else -1, s))
         | FD_NONE \<Rightarrow> Inl (Panic ''filewrite'')))"

section \<open>Pipes as files\<close>

definition close_opt :: "nat option \<Rightarrow> kernel \<Rightarrow> kernel result" where
  "close_opt f s = (case f of None \<Rightarrow> Inr s | Some f \<Rightarrow> fileclose f s)"

definition pipealloc :: "kernel \<Rightarrow> ((nat \<times> nat) option \<times> kernel) result" where
  "pipealloc s =
     bindr (filealloc s) (\<lambda>(f0, s).
     bindr (if f0 = None then Inr (None, s) else filealloc s) (\<lambda>(f1, s).
     bindr (if f0 = None \<or> f1 = None then Inr (0, s) else kalloc s) (\<lambda>(p, s).
     case (f0, f1) of
       (Some g0, Some g1) \<Rightarrow>
         if p = 0
         then bindr (close_opt f0 s) (\<lambda>s. bindr (close_opt f1 s) (\<lambda>s. Inr (None, s)))
         else
           let s = upd_pipe p (\<lambda>q. q\<lparr>pi_readopen := True, pi_writeopen := True, pi_nwrite := 0, pi_nread := 0\<rparr>) s;
               s = initlock (Pipe_lock p) s;
               s = upd_file g0 (\<lambda>fl. fl\<lparr>f_type := FD_PIPE, f_readable := True, f_writable := False, f_pipe := p\<rparr>) s;
               s = upd_file g1 (\<lambda>fl. fl\<lparr>f_type := FD_PIPE, f_readable := False, f_writable := True, f_pipe := p\<rparr>) s
           in Inr (Some (g0, g1), s)
     | _ \<Rightarrow> bindr (close_opt f0 s) (\<lambda>s. bindr (close_opt f1 s) (\<lambda>s. Inr (None, s))))))"

end
