(* ===== verification/Semaphore.thy ===== *)
theory Semaphore
  imports Sched
begin

text \<open>
  Counting semaphores (\<^verbatim>\<open>semaphore.c\<close>): the system table \<^verbatim>\<open>sems\<close>, the descriptors attached
  to processes, and the operations of the system calls. The table has \<open>SYSMAXSEM\<close> entries
  and every access to it is checked against that bound. \<^verbatim>\<open>semdown\<close> is the pass up to its
  return or its call of \<^verbatim>\<open>sleep\<close> (\<open>semdown\<close>), and the pass after it has been woken
  (\<open>semdown_again\<close>).
\<close>

definition EINVAL :: int where [simp]: "EINVAL = -2"
definition ENSEM :: int where [simp]: "ENSEM = -3"
definition ENSEMSYS :: int where [simp]: "ENSEMSYS = -4"

section \<open>Operations\<close>

definition seminit :: "kernel \<Rightarrow> kernel" where
  "seminit s = initlock Sems_lock s"

text \<open>An access \<^verbatim>\<open>sems.list[semid]\<close>.\<close>

definition sem_at :: "int \<Rightarrow> nat result" where
  "sem_at semid = bindr (in_bounds (0 \<le> semid \<and> semid < SYSMAXSEM)) (\<lambda>_. Inr (nat semid))"

definition isfree :: "int \<Rightarrow> kernel \<Rightarrow> bool result" where
  "isfree semid s = bindr (sem_at semid) (\<lambda>i. Inr (sem_references (sems_list s i) = 0))"

definition semcreate :: "kernel \<Rightarrow> int \<times> kernel" where
  "semcreate s =
     (case find (\<lambda>i. sem_references (sems_list s i) = 0) [0..<nat SYSMAXSEM] of
        Some i \<Rightarrow> (int i, s\<lparr>sems_used := sems_used s + 1\<rparr>)
      | None \<Rightarrow> (-1, s))"

definition semset :: "int \<Rightarrow> int \<Rightarrow> int \<Rightarrow> kernel \<Rightarrow> kernel result" where
  "semset semid value references s =
     bindr (sem_at semid) (\<lambda>i.
     Inr (upd_sem i (\<lambda>_. \<lparr>sem_value = value, sem_references = references\<rparr>) s))"

text \<open>The first slot of a process that holds \<open>v\<close>, as the loops over \<^verbatim>\<open>p->semids\<close> find it.\<close>

definition slot_of :: "int \<Rightarrow> proc \<Rightarrow> nat option" where
  "slot_of v q = find (\<lambda>i. p_semids q i = v) [0..<nat PROCMAXSEM]"

definition semattach :: "int \<Rightarrow> kernel \<Rightarrow> (bool \<times> kernel) result" where
  "semattach semid s =
     bindr (my s) (\<lambda>(p, s).
     case slot_of (-1) (procs s p) of
       Some i \<Rightarrow> Inr (True, upd_proc p (\<lambda>q. q\<lparr>p_semids := (p_semids q)(i := semid),
                                              p_semcount := p_semcount q + 1\<rparr>) s)
     | None \<Rightarrow> Inr (False, s))"

definition semdetach :: "int \<Rightarrow> kernel \<Rightarrow> (bool \<times> kernel) result" where
  "semdetach semid s =
     bindr (my s) (\<lambda>(p, s).
     case slot_of semid (procs s p) of
       Some i \<Rightarrow> Inr (True, upd_proc p (\<lambda>q. q\<lparr>p_semids := (p_semids q)(i := -1),
                                              p_semcount := p_semcount q - 1\<rparr>) s)
     | None \<Rightarrow> Inr (False, s))"

definition isattached :: "int \<Rightarrow> kernel \<Rightarrow> (bool \<times> kernel) result" where
  "isattached semid s =
     bindr (my s) (\<lambda>(p, s). Inr (slot_of semid (procs s p) \<noteq> None, s))"

text \<open>\<^verbatim>\<open>release(&sems.lock); return r;\<close>\<close>

definition sems_return :: "int \<Rightarrow> kernel \<Rightarrow> (int \<times> kernel) result" where
  "sems_return r s = bindr (release Sems_lock s) (\<lambda>s. Inr (r, s))"

definition semget :: "int \<Rightarrow> int \<Rightarrow> kernel \<Rightarrow> (int \<times> kernel) result" where
  "semget key init_value s =
     bindr (my s) (\<lambda>(p, s).
     if p_semcount (procs s p) > PROCMAXSEM then Inr (ENSEM, s)
     else
       bindr (acquire Sems_lock s) (\<lambda>s.
       if sems_used s > SYSMAXSEM then sems_return ENSEMSYS s
       else
         bindr (if key < -1 \<or> key > SYSMAXSEM then Inr True
                else if key \<ge> 0 then isfree key s else Inr False) (\<lambda>invalid.
         if invalid then sems_return EINVAL s
         else if key = -1 then
           let (semid, s) = semcreate s in
           bindr (semset semid init_value 1 s) (\<lambda>s.
           let s = s\<lparr>sems_used := sems_used s + 1\<rparr> in
           bindr (release Sems_lock s) (\<lambda>s.
           bindr (semattach semid s) (\<lambda>(_, s).
           Inr (semid, s))))
         else
           bindr (sem_at key) (\<lambda>i.
           let s = upd_sem i (\<lambda>m. m\<lparr>sem_references := sem_references m + 1\<rparr>) s in
           bindr (release Sems_lock s) (\<lambda>s.
           bindr (semattach key s) (\<lambda>(_, s).
           Inr (key, s)))))))"

definition semfree :: "int \<Rightarrow> kernel \<Rightarrow> (int \<times> kernel) result" where
  "semfree key s =
     bindr (acquire Sems_lock s) (\<lambda>s.
     bindr (if key < 0 \<or> key > SYSMAXSEM then Inr (True, s)
            else bindr (isfree key s) (\<lambda>f.
                 if f then Inr (True, s)
                 else bindr (semdetach key s) (\<lambda>(d, s). Inr (\<not> d, s)))) (\<lambda>(invalid, s).
     if invalid then sems_return EINVAL s
     else
       bindr (sem_at key) (\<lambda>i.
       let s = upd_sem i (\<lambda>m. m\<lparr>sem_references := sem_references m - 1\<rparr>) s;
           s = (if sem_references (sems_list s i) = 0 then s\<lparr>sems_used := sems_used s - 1\<rparr> else s)
       in sems_return 0 s)))"

text \<open>
  The common check of \<^verbatim>\<open>semdown\<close> and \<^verbatim>\<open>semup\<close>: \<^verbatim>\<open>key < 0 || key > SYSMAXSEM || isfree(key) ||
  !isattached(key)\<close>.
\<close>

definition key_invalid :: "int \<Rightarrow> kernel \<Rightarrow> (bool \<times> kernel) result" where
  "key_invalid key s =
     (if key < 0 \<or> key > SYSMAXSEM then Inr (True, s)
      else bindr (isfree key s) (\<lambda>f.
           if f then Inr (True, s)
           else bindr (isattached key s) (\<lambda>(a, s). Inr (\<not> a, s))))"

definition semdown_pass :: "int \<Rightarrow> kernel \<Rightarrow> (wait \<times> kernel) result" where
  "semdown_pass key s =
     bindr (sem_at key) (\<lambda>i.
     if sem_value (sems_list s i) > 0 then
       let s = upd_sem i (\<lambda>m. m\<lparr>sem_value := sem_value m - 1\<rparr>) s in
       bindr (release Sems_lock s) (\<lambda>s. Inr (Returns 0, s))
     else bindr (sleep_enter (Some (Chan_sem key)) (Some Sems_lock) s) (\<lambda>(b, s). Inr (Sleeps b, s)))"

definition semdown :: "int \<Rightarrow> kernel \<Rightarrow> (wait \<times> kernel) result" where
  "semdown key s =
     bindr (acquire Sems_lock s) (\<lambda>s.
     bindr (key_invalid key s) (\<lambda>(invalid, s).
     if invalid then bindr (release Sems_lock s) (\<lambda>s. Inr (Returns EINVAL, s))
     else semdown_pass key s))"

definition semdown_again :: "int \<Rightarrow> nat \<Rightarrow> bool \<Rightarrow> kernel \<Rightarrow> (wait \<times> kernel) result" where
  "semdown_again key p intena s = bindr (sleep_exit p Sems_lock intena s) (semdown_pass key)"

text \<open>
  \<^verbatim>\<open>semup\<close> has two critical sections: \<open>semup_inc\<close> ends with the release of \<^verbatim>\<open>sems.lock\<close> and
  says whether \<^verbatim>\<open>wakeup\<close> follows.
\<close>

definition semup_inc :: "int \<Rightarrow> kernel \<Rightarrow> (int \<times> bool \<times> kernel) result" where
  "semup_inc key s =
     bindr (acquire Sems_lock s) (\<lambda>s.
     bindr (key_invalid key s) (\<lambda>(invalid, s).
     if invalid then bindr (release Sems_lock s) (\<lambda>s. Inr (EINVAL, False, s))
     else
       bindr (sem_at key) (\<lambda>i.
       let semvalue = sem_value (sems_list s i) in
       bindr (c_add semvalue 1) (\<lambda>v.
       let s = upd_sem i (\<lambda>m. m\<lparr>sem_value := v\<rparr>) s in
       bindr (release Sems_lock s) (\<lambda>s.
       Inr (0, semvalue = 0, s))))))"

definition semup :: "int \<Rightarrow> kernel \<Rightarrow> (int \<times> kernel) result" where
  "semup key s =
     bindr (semup_inc key s) (\<lambda>(r, wake, s).
     bindr (if wake then wakeup (Some (Chan_sem key)) s else Inr s) (\<lambda>s.
     Inr (r, s)))"

definition semcopy_slot :: "nat \<Rightarrow> nat \<Rightarrow> nat \<Rightarrow> kernel \<Rightarrow> kernel result" where
  "semcopy_slot parent child i s =
     (let semid = p_semids (procs s parent) i in
      if semid \<noteq> -1 then
        let s = upd_proc child (\<lambda>q. q\<lparr>p_semids := (p_semids q)(i := semid)\<rparr>) s in
        bindr (acquire Sems_lock s) (\<lambda>s.
        bindr (sem_at semid) (\<lambda>k.
        let s = upd_sem k (\<lambda>m. m\<lparr>sem_references := sem_references m + 1\<rparr>) s in
        release Sems_lock s))
      else Inr s)"

definition semcopy :: "nat option \<Rightarrow> nat option \<Rightarrow> kernel \<Rightarrow> kernel result" where
  "semcopy parent child s =
     (case (parent, child) of
        (Some parent, Some child) \<Rightarrow>
          bindr (iter (semcopy_slot parent child) [0..<nat PROCMAXSEM] s) (\<lambda>s.
          Inr (upd_proc child (\<lambda>q. q\<lparr>p_semcount := p_semcount (procs s parent)\<rparr>) s))
      | _ \<Rightarrow> Inl (Panic ''semcopy error: null process''))"

section \<open>What the operations do when they return\<close>

text \<open>The part of the state the semaphores live in; locks and CPUs are left out.\<close>

definition sem_view :: "kernel \<Rightarrow> (nat \<Rightarrow> semaphore) \<times> (nat \<Rightarrow> proc) \<times> int" where
  "sem_view s = (sems_list s, procs s, sems_used s)"

lemma sem_view_frame: "lk_frame s t \<Longrightarrow> sem_view t = sem_view s"
  by (simp add: sem_view_def lk_frame_fields)

lemma my_view: "my s = Inr (p, t) \<Longrightarrow> me s = Some p \<and> sem_view t = sem_view s \<and> me t = me s"
proof -
  assume "my s = Inr (p, t)"
  then have "myproc s = Inr (Some p, t)" by (auto simp: my_def bindr_eq_Inr)
  then have "lk_frame s t" "me s = Some p" using myproc_frame by auto
  then show ?thesis using sem_view_frame me_frame by blast
qed

lemma acquire_view: "acquire lk s = Inr t \<Longrightarrow> sem_view t = sem_view s \<and> me t = me s"
  using acquire_frame sem_view_frame me_frame by blast

lemma release_view: "release lk s = Inr t \<Longrightarrow> sem_view t = sem_view s \<and> me t = me s"
  using release_frame sem_view_frame me_frame by blast

lemma sched_enter_view: "sched_enter s = Inr (b, t) \<Longrightarrow> sem_view t = sem_view s"
  by (auto simp: sched_enter_def bindr_eq_Inr dest!: my_view holding_frame sem_view_frame)

lemma sched_exit_view: "sched_exit b s = Inr t \<Longrightarrow> sem_view t = sem_view s \<and> me t = me s"
proof -
  assume "sched_exit b s = Inr t"
  then have "lk_frame s t" by (auto simp: sched_exit_def bindr_eq_Inr)
  then show ?thesis using sem_view_frame me_frame by blast
qed

text \<open>The process goes to sleep; the table is as it was.\<close>

definition put_to_sleep :: "nat \<Rightarrow> int \<Rightarrow> (nat \<Rightarrow> proc) \<Rightarrow> nat \<Rightarrow> proc" where
  "put_to_sleep p key h = h(p := (h p)\<lparr>p_chan := Some (Chan_sem key), p_state := SLEEPING\<rparr>)"

lemma sleep_enter_view:
  assumes "sleep_enter (Some (Chan_sem key)) (Some Sems_lock) s = Inr (b, t)"
  obtains p where "me s = Some p" and "sem_view t = (sems_list s, put_to_sleep p key (procs s), sems_used s)"
proof -
  from assms obtain ptr s1 where my: "myproc s = Inr (ptr, s1)"
    by (auto simp: sleep_enter_def bindr_eq_Inr)
  then obtain p where p: "ptr = Some p" using assms by (cases ptr) (auto simp: sleep_enter_def)
  with my assms obtain s2 s3 where "acquire Ptable_lock s1 = Inr s2" "release Sems_lock s2 = Inr s3" and
    t: "sched_enter (set_state SLEEPING p (upd_proc p (\<lambda>q. q\<lparr>p_chan := Some (Chan_sem key)\<rparr>) s3)) = Inr (b, t)"
    by (auto simp: sleep_enter_def bindr_eq_Inr Let_def simp del: upd_defs)
  moreover have "sem_view s1 = sem_view s" "me s = Some p"
    using myproc_frame [OF my] sem_view_frame p by auto
  ultimately have "sem_view s3 = sem_view s" using acquire_view release_view by metis
  then have "sem_view t = (sems_list s, put_to_sleep p key (procs s), sems_used s)"
    using sched_enter_view [OF t] by (simp add: sem_view_def put_to_sleep_def)
  with \<open>me s = Some p\<close> show thesis by (rule that)
qed

lemma sem_at_Inr: "sem_at key = Inr i \<longleftrightarrow> 0 \<le> key \<and> key < 20 \<and> i = nat key"
  by (auto simp: sem_at_def bindr_eq_Inr)

lemma isfree_Inr: "isfree key s = Inr b \<longleftrightarrow> 0 \<le> key \<and> key < 20 \<and> b = (sem_references (sems_list s (nat key)) = 0)"
  by (auto simp: isfree_def bindr_eq_Inr sem_at_Inr)

lemma slot_of_Some: "slot_of v q = Some i \<Longrightarrow> i < 5 \<and> p_semids q i = v"
  by (auto simp: slot_of_def find_Some_iff)

lemma slot_of_None: "slot_of v q = None \<longleftrightarrow> (\<forall>i < 5. p_semids q i \<noteq> v)"
  by (auto simp: slot_of_def find_None_iff)

lemma key_invalid_view:
  assumes "key_invalid key s = Inr (b, t)"
  shows "sem_view t = sem_view s \<and> me t = me s \<and>
    (\<not> b \<longrightarrow> 0 \<le> key \<and> key < 20 \<and> (\<exists>p i. me s = Some p \<and> i < 5 \<and> p_semids (procs s p) i = key))"
proof (cases "key < 0 \<or> key > SYSMAXSEM")
  case True
  then show ?thesis using assms by (auto simp: key_invalid_def)
next
  case False
  then obtain f where f: "isfree key s = Inr f" and
    rest: "(if f then Inr (True, s) else bindr (isattached key s) (\<lambda>(a, s). Inr (\<not> a, s))) = Inr (b, t)"
    using assms by (auto simp: key_invalid_def bindr_eq_Inr)
  show ?thesis
  proof (cases f)
    case True
    then show ?thesis using rest by auto
  next
    case False
    then obtain p where my: "my s = Inr (p, t)" and b: "b = (slot_of key (procs t p) = None)"
      using rest by (auto simp: isattached_def bindr_eq_Inr)
    from my_view [OF my] have v: "me s = Some p" "sem_view t = sem_view s" "me t = me s" by auto
    then have "procs t = procs s" by (simp add: sem_view_def)
    then show ?thesis using v b f slot_of_None [of key "procs s p"] by (auto simp: isfree_Inr)
  qed
qed

text \<open>
  \<open>roused h h'\<close>: from one process table to the other, processes may have become runnable, and
  what they wait for and which semaphores they have is the same.
\<close>

definition roused :: "(nat \<Rightarrow> proc) \<Rightarrow> (nat \<Rightarrow> proc) \<Rightarrow> bool" where
  "roused h h' \<longleftrightarrow> (\<forall>q. p_chan (h' q) = p_chan (h q) \<and> p_semids (h' q) = p_semids (h q) \<and>
     (p_state (h' q) = p_state (h q) \<or> p_state (h' q) = RUNNABLE))"

lemma roused_refl [simp]: "roused h h"
  by (simp add: roused_def)

lemma roused_trans: "roused h h' \<Longrightarrow> roused h' h'' \<Longrightarrow> roused h h''"
  unfolding roused_def by metis

lemma roused_sleeps: "roused h h' \<Longrightarrow> sleeps_on c (h' q) \<Longrightarrow> sleeps_on c (h q)"
  by (auto simp: roused_def sleeps_on_def dest!: spec [of _ q])

lemma increasepriority_roused:
  "increasepriority (Some p) s = Inr t \<Longrightarrow> sems_list t = sems_list s \<and> sems_used t = sems_used s \<and> roused (procs s) (procs t)"
  by (auto simp: increasepriority_def roused_def)

lemma enqueue_roused:
  "enqueue (Some p) s = Inr t \<Longrightarrow>
     sems_list t = sems_list s \<and> sems_used t = sems_used s \<and> roused (procs s) (procs t) \<and> p_state (procs t p) = RUNNABLE"
  unfolding enqueue_def option.case bindr_eq_Inr Let_def
  by (cases "lv_head (levels s (nat (p_nice (procs s p))))") (auto simp: roused_def)

lemma wakeup1_roused:
  assumes "iter (\<lambda>p s. if p_state (procs s p) = SLEEPING \<and> p_chan (procs s p) = chan
      then bindr (increasepriority (Some p) s) (enqueue (Some p)) else Inr s) ps s = Inr t"
  shows "sems_list t = sems_list s \<and> sems_used t = sems_used s \<and> roused (procs s) (procs t) \<and>
    (\<forall>p \<in> set ps. \<not> sleeps_on chan (procs t p))"
  using assms
proof (induction ps arbitrary: s)
  case Nil
  then show ?case by simp
next
  case (Cons p ps)
  from Cons.prems obtain u where
    u: "(if p_state (procs s p) = SLEEPING \<and> p_chan (procs s p) = chan
      then bindr (increasepriority (Some p) s) (enqueue (Some p)) else Inr s) = Inr u" and
    rest: "iter (\<lambda>p s. if p_state (procs s p) = SLEEPING \<and> p_chan (procs s p) = chan
      then bindr (increasepriority (Some p) s) (enqueue (Some p)) else Inr s) ps u = Inr t"
    unfolding iter.simps bindr_eq_Inr by blast
  have first: "sems_list u = sems_list s \<and> sems_used u = sems_used s \<and> roused (procs s) (procs u) \<and> \<not> sleeps_on chan (procs u p)"
  proof (cases "p_state (procs s p) = SLEEPING \<and> p_chan (procs s p) = chan")
    case True
    with u obtain v where v: "increasepriority (Some p) s = Inr v" "enqueue (Some p) v = Inr u"
      by (auto elim: bindr_InrE)
    from increasepriority_roused [OF v(1)] enqueue_roused [OF v(2)] show ?thesis
      using roused_trans by (auto simp: sleeps_on_def)
  next
    case False
    then show ?thesis using u by (auto simp: sleeps_on_def)
  qed
  from Cons.IH [OF rest] first show ?case
    using roused_trans roused_sleeps by (metis set_ConsD)
qed

lemma wakeup_roused:
  assumes "wakeup chan s = Inr t"
  shows "sems_list t = sems_list s" "sems_used t = sems_used s" "roused (procs s) (procs t)"
    "q < 64 \<Longrightarrow> \<not> sleeps_on chan (procs t q)"
proof -
  from assms obtain u v where u: "acquire Ptable_lock s = Inr u" "wakeup1 chan u = Inr v" "release Ptable_lock v = Inr t"
    by (auto simp: wakeup_def bindr_eq_Inr)
  have "sem_view u = sem_view s" "sem_view t = sem_view v" using u acquire_view release_view by blast+
  with wakeup1_roused [OF u(2) [unfolded wakeup1_def]]
  show "sems_list t = sems_list s" "sems_used t = sems_used s" "roused (procs s) (procs t)"
    "q < 64 \<Longrightarrow> \<not> sleeps_on chan (procs t q)" by (simp_all add: sem_view_def)
qed

text \<open>\<^verbatim>\<open>semdown\<close>: the value goes down by one, or the process sleeps on a semaphore it has attached.\<close>

lemma semdown_pass_view:
  assumes "semdown_pass key s = Inr (w, t)"
  shows "0 \<le> key \<and> key < 20 \<and>
    (if sem_value (sems_list s (nat key)) > 0
     then sems_list t = (sems_list s)(nat key := (sems_list s (nat key))\<lparr>sem_value := sem_value (sems_list s (nat key)) - 1\<rparr>) \<and>
       procs t = procs s \<and> w = Returns 0
     else sems_list t = sems_list s \<and> (\<exists>p b. me s = Some p \<and> procs t = put_to_sleep p key (procs s) \<and> w = Sleeps b))"
proof -
  from assms have k: "0 \<le> key" "key < 20" by (auto simp: semdown_pass_def bindr_eq_Inr sem_at_Inr)
  then have at: "sem_at key = Inr (nat key)" by (simp add: sem_at_Inr)
  show ?thesis
  proof (cases "sem_value (sems_list s (nat key)) > 0")
    case True
    let ?s = "s\<lparr>sems_list := (sems_list s)(nat key := (sems_list s (nat key))\<lparr>sem_value := sem_value (sems_list s (nat key)) - 1\<rparr>)\<rparr>"
    from True assms have "release Sems_lock ?s = Inr t" "w = Returns 0"
      by (auto simp: semdown_pass_def at bindr_eq_Inr Let_def)
    then show ?thesis using release_view [of Sems_lock ?s t] True k by (simp add: sem_view_def)
  next
    case False
    with assms obtain b where "sleep_enter (Some (Chan_sem key)) (Some Sems_lock) s = Inr (b, t)" "w = Sleeps b"
      by (auto simp: semdown_pass_def at bindr_eq_Inr)
    then show ?thesis using False k by (auto simp: sem_view_def elim: sleep_enter_view)
  qed
qed

text \<open>\<open>given p i v h h'\<close>: in slot \<open>i\<close> of process \<open>p\<close> there is now \<open>v\<close>.\<close>

definition given :: "nat \<Rightarrow> nat \<Rightarrow> int \<Rightarrow> (nat \<Rightarrow> proc) \<Rightarrow> (nat \<Rightarrow> proc) \<Rightarrow> bool" where
  "given p i v h h' \<longleftrightarrow>
     (\<forall>q. p_chan (h' q) = p_chan (h q) \<and> p_state (h' q) = p_state (h q) \<and>
        p_semids (h' q) = (if q = p then (p_semids (h p))(i := v) else p_semids (h q)))"

lemma semattach_view:
  assumes "semattach v s = Inr (b, t)"
  shows "sems_list t = sems_list s \<and> (procs t = procs s \<or>
    (\<exists>p i. me s = Some p \<and> i < 5 \<and> p_semids (procs s p) i = -1 \<and> given p i v (procs s) (procs t)))"
proof -
  from assms obtain p u where my: "my s = Inr (p, u)" and
    t: "(case slot_of (-1) (procs u p) of
       Some i \<Rightarrow> Inr (True, upd_proc p (\<lambda>q. q\<lparr>p_semids := (p_semids q)(i := v), p_semcount := p_semcount q + 1\<rparr>) u)
     | None \<Rightarrow> Inr (False, u)) = (Inr (b, t) :: (bool \<times> kernel) result)"
    by (auto simp: semattach_def bindr_eq_Inr)
  from my_view [OF my] have v: "me s = Some p" "sems_list u = sems_list s" "procs u = procs s" by (auto simp: sem_view_def)
  then show ?thesis using t slot_of_Some [of "-1" "procs s p"]
    by (auto simp: given_def split: option.splits)
qed

lemma semdetach_view:
  assumes "semdetach v s = Inr (b, t)"
  shows "sems_list t = sems_list s \<and> me t = me s \<and> (if b then
    \<exists>p i. me s = Some p \<and> i < 5 \<and> p_semids (procs s p) i = v \<and> given p i (-1) (procs s) (procs t) else procs t = procs s)"
proof -
  from assms obtain p u where my: "my s = Inr (p, u)" and
    t: "(case slot_of v (procs u p) of
       Some i \<Rightarrow> Inr (True, upd_proc p (\<lambda>q. q\<lparr>p_semids := (p_semids q)(i := -1), p_semcount := p_semcount q - 1\<rparr>) u)
     | None \<Rightarrow> Inr (False, u)) = (Inr (b, t) :: (bool \<times> kernel) result)"
    by (auto simp: semdetach_def bindr_eq_Inr)
  from my_view [OF my] have v: "me s = Some p" "sems_list u = sems_list s" "procs u = procs s" "me u = me s" by (auto simp: sem_view_def)
  have m: "me (u\<lparr>procs := h\<rparr>) = me u" for h by (rule me_upd; simp)
  show ?thesis using t v slot_of_Some [of v "procs s p"]
    by (auto simp: given_def m split: option.splits)
qed

text \<open>\<open>referenced k l l'\<close>: semaphore \<open>k\<close> has one reference more; a new one had none before.\<close>

definition referenced :: "nat \<Rightarrow> (nat \<Rightarrow> semaphore) \<Rightarrow> (nat \<Rightarrow> semaphore) \<Rightarrow> bool" where
  "referenced k l l' \<longleftrightarrow> (\<forall>j. j \<noteq> k \<longrightarrow> l' j = l j) \<and> sem_references (l' k) = sem_references (l k) + 1 \<and>
     (sem_value (l' k) = sem_value (l k) \<or> sem_references (l k) = 0)"

text \<open>\<open>granted s t r\<close>: \<^verbatim>\<open>semget\<close> has returned \<open>r\<close>, having left the table alone or counted a reference.\<close>

definition granted :: "kernel \<Rightarrow> kernel \<Rightarrow> int \<Rightarrow> int \<Rightarrow> bool" where
  "granted s t key r \<longleftrightarrow> r < 0 \<and> sems_list t = sems_list s \<and> procs t = procs s \<or>
    (\<exists>k < 20. referenced k (sems_list s) (sems_list t) \<and> r = int k \<and> (key = -1 \<longrightarrow> sem_references (sems_list s k) = 0) \<and>
      (procs t = procs s \<or>
       (\<exists>p i. me s = Some p \<and> i < 5 \<and> p_semids (procs s p) i = -1 \<and> given p i (int k) (procs s) (procs t))))"

lemma granted_attach:
  assumes "release Sems_lock u = Inr w" and "semattach (int k) w = Inr (b, t)" and "k < 20"
    and "referenced k (sems_list s) (sems_list u)" and "procs u = procs s" and "me u = me s"
    and "key = -1 \<longrightarrow> sem_references (sems_list s k) = 0"
  shows "granted s t key (int k)"
proof -
  from release_view [OF assms(1)] assms(5,6) have "sems_list w = sems_list u" "procs w = procs s" "me w = me s"
    by (auto simp: sem_view_def)
  then show ?thesis using semattach_view [OF assms(2)] assms(3,4,7) by (auto simp: granted_def)
qed

lemma granted_return:
  "sems_return e u = Inr (r, t) \<Longrightarrow> e < 0 \<Longrightarrow> sems_list u = sems_list s \<Longrightarrow> procs u = procs s \<Longrightarrow> granted s t key r"
  using release_view [of Sems_lock u t] by (auto simp: sems_return_def bindr_eq_Inr sem_view_def granted_def)

lemma granted_cong: "sem_view s' = sem_view s \<Longrightarrow> me s' = me s \<Longrightarrow> granted s' t key r \<Longrightarrow> granted s t key r"
  unfolding granted_def sem_view_def by auto

text \<open>The critical section of \<^verbatim>\<open>semget\<close>, for a new semaphore and for an existing one.\<close>

lemma semget_new:
  assumes "(let (semid, s) = semcreate s in
           bindr (semset semid init 1 s) (\<lambda>s.
           let s = s\<lparr>sems_used := sems_used s + 1\<rparr> in
           bindr (release Sems_lock s) (\<lambda>s.
           bindr (semattach semid s) (\<lambda>(_, s).
           Inr (semid, s))))) = Inr (r, t)"
  shows "granted s t (-1) r"
proof -
  let ?f = "find (\<lambda>i. sem_references (sems_list s i) = 0) [0..<20]"
  from assms obtain k where k: "?f = Some k"
    by (cases ?f) (auto simp: semcreate_def semset_def sem_at_def)
  then have f: "k < 20" "sem_references (sems_list s k) = 0" by (auto simp: find_Some_iff)
  let ?u = "s\<lparr>sems_list := (sems_list s)(k := \<lparr>sem_value = init, sem_references = 1\<rparr>), sems_used := 2 + sems_used s\<rparr>"
  from assms k f obtain w b where "release Sems_lock ?u = Inr w" "semattach (int k) w = Inr (b, t)" "r = int k"
    by (auto simp: semcreate_def semset_def sem_at_def bindr_eq_Inr Let_def)
  then show ?thesis using f by (auto intro!: granted_attach [of ?u w k b] simp: referenced_def)
qed

lemma semget_old:
  assumes "bindr (sem_at key) (\<lambda>i.
           let s = upd_sem i (\<lambda>m. m\<lparr>sem_references := sem_references m + 1\<rparr>) s in
           bindr (release Sems_lock s) (\<lambda>s.
           bindr (semattach key s) (\<lambda>(_, s).
           Inr (key, s)))) = Inr (r, t)"
  shows "granted s t key r"
proof -
  from assms have key: "0 \<le> key" "key < 20" by (auto simp: bindr_eq_Inr sem_at_Inr)
  let ?u = "s\<lparr>sems_list := (sems_list s)(nat key := (sems_list s (nat key))\<lparr>sem_references := sem_references (sems_list s (nat key)) + 1\<rparr>)\<rparr>"
  from assms key obtain w b where "release Sems_lock ?u = Inr w" "semattach key w = Inr (b, t)" "r = key"
    by (auto simp: sem_at_def bindr_eq_Inr Let_def)
  then show ?thesis using key granted_attach [of ?u w "nat key" b] by (auto simp: referenced_def)
qed

lemma semget_view:
  assumes "semget key init s = Inr (r, t)"
  shows "granted s t key r"
proof -
  from assms obtain p s1 where my: "my s = Inr (p, s1)" and
    rest: "(if p_semcount (procs s1 p) > PROCMAXSEM then Inr (ENSEM, s1) else
       bindr (acquire Sems_lock s1) (\<lambda>s.
       if sems_used s > SYSMAXSEM then sems_return ENSEMSYS s
       else
         bindr (if key < -1 \<or> key > SYSMAXSEM then Inr True
                else if key \<ge> 0 then isfree key s else Inr False) (\<lambda>invalid.
         if invalid then sems_return EINVAL s
         else if key = -1 then
           let (semid, s) = semcreate s in
           bindr (semset semid init 1 s) (\<lambda>s.
           let s = s\<lparr>sems_used := sems_used s + 1\<rparr> in
           bindr (release Sems_lock s) (\<lambda>s.
           bindr (semattach semid s) (\<lambda>(_, s).
           Inr (semid, s))))
         else
           bindr (sem_at key) (\<lambda>i.
           let s = upd_sem i (\<lambda>m. m\<lparr>sem_references := sem_references m + 1\<rparr>) s in
           bindr (release Sems_lock s) (\<lambda>s.
           bindr (semattach key s) (\<lambda>(_, s).
           Inr (key, s))))))) = Inr (r, t)"
    unfolding semget_def bindr_eq_Inr by auto
  have v1: "sem_view s1 = sem_view s" "me s1 = me s" using my_view [OF my] by auto
  show ?thesis
  proof (cases "p_semcount (procs s1 p) > PROCMAXSEM")
    case True
    then show ?thesis using rest v1 by (simp add: granted_def sem_view_def)
  next
    case False
    obtain s2 where a: "acquire Sems_lock s1 = Inr s2"
      using rest [unfolded if_not_P [OF False]] by (auto simp: bindr_eq_Inr)
    have "granted s2 t key r"
      using rest [unfolded if_not_P [OF False] a bindr_simps]
      by (cases "SYSMAXSEM < sems_used s2"; cases "key < -1 \<or> key > SYSMAXSEM"; cases "key \<ge> 0"; cases "isfree key s2"; cases "key = -1")
        (auto split: if_splits intro: granted_return semget_new semget_old simp del: upd_defs)
    with a show ?thesis using acquire_view v1 granted_cong by metis
  qed
qed

lemma semfree_view:
  assumes "semfree key s = Inr (r, t)"
  shows "sems_list t = sems_list s \<and> procs t = procs s \<and> r = EINVAL \<or>
    (\<exists>p i. 0 \<le> key \<and> key < 20 \<and> me s = Some p \<and> i < 5 \<and> p_semids (procs s p) i = key \<and> given p i (-1) (procs s) (procs t) \<and>
      sems_list t = (sems_list s)(nat key := (sems_list s (nat key))\<lparr>sem_references := sem_references (sems_list s (nat key)) - 1\<rparr>) \<and> r = 0)"
proof -
  from assms obtain s1 where a: "acquire Sems_lock s = Inr s1" by (auto simp: semfree_def bindr_eq_Inr)
  note v1 = acquire_view [OF a, unfolded sem_view_def]
  have invalid: ?thesis if "sems_return EINVAL s2 = Inr (r, t)" and "sems_list s2 = sems_list s" and "procs s2 = procs s" for s2
    using that release_view [of Sems_lock s2 t] by (auto simp: sems_return_def bindr_eq_Inr sem_view_def)
  show ?thesis
  proof (cases "key < 0 \<or> key > SYSMAXSEM")
    case True
    then have "sems_return EINVAL s1 = Inr (r, t)" using assms a by (auto simp: semfree_def simp del: EINVAL_def)
    then show ?thesis using v1 by (intro invalid [of s1]) auto
  next
    case False
    then obtain f where f: "isfree key s1 = Inr f" using assms a by (cases "isfree key s1") (auto simp: semfree_def)
    show ?thesis
    proof (cases f)
      case True
      then have "sems_return EINVAL s1 = Inr (r, t)" using assms a False f by (auto simp: semfree_def simp del: EINVAL_def)
      then show ?thesis using v1 by (intro invalid [of s1]) auto
    next
      case nf: False
      then obtain d s2 where d: "semdetach key s1 = Inr (d, s2)"
        using assms a False f by (cases "semdetach key s1") (auto simp: semfree_def)
      note v2 = semdetach_view [OF d]
      show ?thesis
      proof (cases d)
        case True
        from f have key: "0 \<le> key" "key < 20" by (simp_all add: isfree_Inr)
        let ?l = "(sems_list s)(nat key := (sems_list s (nat key))\<lparr>sem_references := sem_references (sems_list s (nat key)) - 1\<rparr>)"
        from assms a False f nf d True key v1 v2 obtain u where "release Sems_lock u = Inr t" "sems_list u = ?l" "procs u = procs s2" "r = 0"
          by (auto simp: semfree_def sem_at_def sems_return_def bindr_eq_Inr Let_def)
        then show ?thesis using release_view [of Sems_lock u t] v1 v2 True key by (auto simp: sem_view_def)
      next
        case nd: False
        then have "sems_return EINVAL s2 = Inr (r, t)" using assms a False f nf d by (auto simp: semfree_def simp del: EINVAL_def)
        then show ?thesis using v1 v2 nd by (intro invalid [of s2]) auto
      qed
    qed
  qed
qed

text \<open>\<open>mine p key s\<close>: process \<open>p\<close> is the one running, and the semaphore is attached to it.\<close>

definition mine :: "nat \<Rightarrow> int \<Rightarrow> kernel \<Rightarrow> bool" where
  "mine p key s \<longleftrightarrow> me s = Some p \<and> 0 \<le> key \<and> key < 20 \<and> (\<exists>i < 5. p_semids (procs s p) i = key)"

lemma checked_section:
  assumes "bindr (acquire Sems_lock s) (\<lambda>s. bindr (key_invalid key s) (\<lambda>(invalid, s).
      if invalid then bindr (release Sems_lock s) (\<lambda>s. Inr (g s)) else f s)) = Inr r"
  obtains t where "r = g t" "sem_view t = sem_view s" | u p where "f u = Inr r" "sem_view u = sem_view s" "me u = me s" "mine p key s"
proof -
  from assms obtain s1 b s2 where a: "acquire Sems_lock s = Inr s1" and k: "key_invalid key s1 = Inr (b, s2)" and
    rest: "(if b then bindr (release Sems_lock s2) (\<lambda>s. Inr (g s)) else f s2) = Inr r"
    unfolding bindr_eq_Inr by auto
  note v = acquire_view [OF a] key_invalid_view [OF k]
  show thesis
  proof (cases b)
    case True
    then obtain t where t: "release Sems_lock s2 = Inr t" "r = g t" using rest by (auto simp: bindr_eq_Inr)
    then show thesis using that(1) [of t] release_view [OF t(1)] v by metis
  next
    case False
    then obtain p where "mine p key s" using v by (auto simp: mine_def sem_view_def)
    with False rest v that(2) [of s2] show thesis by auto
  qed
qed

text \<open>\<open>downed p key s w t\<close>: one pass of the loop of \<^verbatim>\<open>semdown\<close>.\<close>

definition downed :: "nat \<Rightarrow> int \<Rightarrow> kernel \<Rightarrow> wait \<Rightarrow> kernel \<Rightarrow> bool" where
  "downed p key s w t \<longleftrightarrow>
    (if sem_value (sems_list s (nat key)) > 0
     then sems_list t = (sems_list s)(nat key := (sems_list s (nat key))\<lparr>sem_value := sem_value (sems_list s (nat key)) - 1\<rparr>) \<and>
       procs t = procs s \<and> w = Returns 0
     else sems_list t = sems_list s \<and> procs t = put_to_sleep p key (procs s) \<and> (\<exists>b. w = Sleeps b))"

lemma semdown_view:
  assumes "semdown key s = Inr (w, t)"
  shows "sem_view t = sem_view s \<and> w = Returns EINVAL \<or> (\<exists>p. mine p key s \<and> downed p key s w t)"
  using assms unfolding semdown_def
proof (cases rule: checked_section)
  case (1 u)
  then show ?thesis by simp
next
  case (2 u p)
  have "me s = Some p" using 2(4) by (simp add: mine_def)
  then have "downed p key s w t" using semdown_pass_view [OF 2(1)] 2(2,3)
    unfolding sem_view_def downed_def by (auto split: if_splits)
  then show ?thesis using 2 by blast
qed

lemma semdown_again_view:
  assumes "semdown_again key p b s = Inr (w, t)" and "me s = Some p"
  shows "0 \<le> key \<and> key < 20 \<and> (\<exists>u. sems_list u = sems_list s \<and> procs u = (procs s)(p := (procs s p)\<lparr>p_chan := None\<rparr>) \<and> downed p key u w t)"
proof -
  from assms obtain s1 s2 u where s: "sched_exit b s = Inr s1"
    "release Ptable_lock (upd_proc p (\<lambda>q. q\<lparr>p_chan := None\<rparr>) s1) = Inr s2" "acquire Sems_lock s2 = Inr u"
    and pass: "semdown_pass key u = Inr (w, t)"
    by (auto simp: semdown_again_def sleep_exit_def bindr_eq_Inr)
  from sched_exit_view [OF s(1)] release_view [OF s(2)] acquire_view [OF s(3)]
  have u: "sems_list u = sems_list s" "procs u = (procs s)(p := (procs s p)\<lparr>p_chan := None\<rparr>)" "me u = Some p"
    using assms(2) by (auto simp: sem_view_def)
  have "downed p key u w t" using semdown_pass_view [OF pass] u(3) unfolding downed_def by (auto split: if_splits)
  with u show ?thesis using semdown_pass_view [OF pass] by blast
qed

lemma semup_inc_view:
  assumes "semup_inc key s = Inr (r, wake, t)"
  shows "sem_view t = sem_view s \<and> r = EINVAL \<and> \<not> wake \<or>
    (\<exists>p. mine p key s) \<and> r = 0 \<and> procs t = procs s \<and> wake = (sem_value (sems_list s (nat key)) = 0) \<and>
    sems_list t = (sems_list s)(nat key := (sems_list s (nat key))\<lparr>sem_value := sem_value (sems_list s (nat key)) + 1\<rparr>)"
  using assms unfolding semup_inc_def
proof (cases rule: checked_section)
  case (1 u)
  then show ?thesis by simp
next
  case (2 u p)
  from 2(2) have u: "sems_list u = sems_list s" "procs u = procs s" by (auto simp: sem_view_def)
  let ?u = "u\<lparr>sems_list := (sems_list s)(nat key := (sems_list s (nat key))\<lparr>sem_value := sem_value (sems_list s (nat key)) + 1\<rparr>)\<rparr>"
  from 2(1) u have "release Sems_lock ?u = Inr t" "r = 0" "wake = (sem_value (sems_list s (nat key)) = 0)"
    by (auto simp: bindr_eq_Inr sem_at_Inr Let_def c_add_def split: if_splits)
  then show ?thesis using release_view [of Sems_lock ?u t] u 2(4) by (auto simp: sem_view_def)
qed

lemma semcopy_slot_view:
  assumes "semcopy_slot p c i s = Inr t"
  shows "p_semids (procs s p) i = -1 \<and> t = s \<or>
    (\<exists>k < 20. p_semids (procs s p) i = int k \<and> given c i (int k) (procs s) (procs t) \<and> referenced k (sems_list s) (sems_list t))"
proof (cases "p_semids (procs s p) i = -1")
  case True
  then show ?thesis using assms by (simp add: semcopy_slot_def)
next
  case False
  let ?id = "p_semids (procs s p) i"
  let ?s1 = "upd_proc c (\<lambda>q. q\<lparr>p_semids := (p_semids q)(i := ?id)\<rparr>) s"
  let ?k = "nat ?id"
  from False assms obtain s2 where a: "acquire Sems_lock ?s1 = Inr s2" and k: "?k < 20" "?id = int ?k" and
    r: "release Sems_lock (upd_sem ?k (\<lambda>m. m\<lparr>sem_references := sem_references m + 1\<rparr>) s2) = Inr t"
    by (auto simp: semcopy_slot_def bindr_eq_Inr sem_at_Inr Let_def)
  from acquire_view [OF a] release_view [OF r] have "given c i ?id (procs s) (procs t)" "referenced ?k (sems_list s) (sems_list t)"
    by (auto simp: sem_view_def given_def referenced_def)
  with k show ?thesis by metis
qed

section \<open>No wakeup is lost\<close>

text \<open>
  The system of all processes that use semaphores. \<open>L\<close> are the processes with descriptors,
  \<open>D\<close> the calls of \<^verbatim>\<open>semdown\<close> that are waiting, \<open>W\<close> the semaphores whose \<^verbatim>\<open>semup\<close> has released
  \<^verbatim>\<open>sems.lock\<close> and not yet called \<^verbatim>\<open>wakeup\<close>.
\<close>

definition has_sem :: "nat set \<Rightarrow> (nat \<Rightarrow> proc) \<Rightarrow> nat \<Rightarrow> int \<Rightarrow> bool" where
  "has_sem L h q c \<longleftrightarrow> q \<in> L \<and> 0 \<le> c \<and> c < 20 \<and> (\<exists>i < 5. p_semids (h q) i = c)"

definition slots :: "nat set \<Rightarrow> (nat \<Rightarrow> proc) \<Rightarrow> int \<Rightarrow> (nat \<times> nat) set" where
  "slots L h c = {(q, i). q \<in> L \<and> i < 5 \<and> p_semids (h q) i = c}"

definition sem_ok :: "nat set \<Rightarrow> (nat \<times> int) set \<Rightarrow> int set \<Rightarrow> (nat \<Rightarrow> semaphore) \<Rightarrow> (nat \<Rightarrow> proc) \<Rightarrow> bool" where
  "sem_ok L D W l h \<longleftrightarrow> L \<subseteq> {..<64} \<and>
     (\<forall>k < 20. int (card (slots L h (int k))) \<le> sem_references (l k)) \<and>
     (\<forall>q < 64. \<forall>c. sleeps_on (Some (Chan_sem c)) (h q) \<longrightarrow>
        has_sem L h q c \<and> (sem_value (l (nat c)) \<le> 0 \<or> c \<in> W)) \<and>
     (\<forall>(q, c) \<in> D. has_sem L h q c)"

lemma finite_slots: "L \<subseteq> {..<64} \<Longrightarrow> finite (slots L h c)"
  by (rule finite_subset [of _ "{..<64} \<times> {..<5}"]) (auto simp: slots_def)

lemma has_sem_slots: "has_sem L h q c \<Longrightarrow> slots L h c \<noteq> {}"
  by (auto simp: has_sem_def slots_def)

lemma has_sem_cong: "(\<forall>q \<in> L. p_semids (h' q) = p_semids (h q)) \<Longrightarrow> has_sem L h' q c = has_sem L h q c"
  by (auto simp: has_sem_def)

lemma slots_cong: "(\<forall>q \<in> L. p_semids (h' q) = p_semids (h q)) \<Longrightarrow> slots L h' c = slots L h c"
  by (auto simp: slots_def)

lemma has_sem_referenced:
  assumes "sem_ok L D W l h" and "has_sem L h q c"
  shows "sem_references (l (nat c)) > 0"
proof -
  have c: "nat c < 20" "int (nat c) = c" using assms(2) by (auto simp: has_sem_def)
  have "0 < card (slots L h c)"
    using has_sem_slots [OF assms(2)] finite_slots [of L h c] assms(1) by (simp add: card_gt_0_iff sem_ok_def)
  moreover have "int (card (slots L h c)) \<le> sem_references (l (nat c))"
    using assms(1) c unfolding sem_ok_def by metis
  ultimately show ?thesis by simp
qed

text \<open>What may change without harm: fewer sleepers, more references, smaller values.\<close>

lemma sem_ok_mono:
  assumes "sem_ok L D W l h" and "\<forall>q \<in> L. p_semids (h' q) = p_semids (h q)"
    and "\<And>q c. q < 64 \<Longrightarrow> sleeps_on (Some (Chan_sem c)) (h' q) \<Longrightarrow> sleeps_on (Some (Chan_sem c)) (h q) \<and> (c \<in> W \<longrightarrow> c \<in> W')"
    and "\<And>k. k < 20 \<Longrightarrow> sem_references (l k) \<le> sem_references (l' k)"
    and "\<And>k. k < 20 \<Longrightarrow> sem_value (l' k) \<le> 0 \<or> 0 < sem_value (l k) \<or> int k \<in> W'"
    and "D' \<subseteq> D"
  shows "sem_ok L D' W' l' h'"
proof -
  have "int (card (slots L h' (int k))) \<le> sem_references (l' k)" if "k < 20" for k
    using assms(1) assms(4) [OF that] that slots_cong [OF assms(2)] unfolding sem_ok_def by fastforce
  moreover have "has_sem L h' q c \<and> (sem_value (l' (nat c)) \<le> 0 \<or> c \<in> W')"
    if "q < 64" "sleeps_on (Some (Chan_sem c)) (h' q)" for q c
  proof -
    from assms(3) [OF that] assms(1) that(1) have "has_sem L h q c" "sem_value (l (nat c)) \<le> 0 \<or> c \<in> W'"
      unfolding sem_ok_def by blast+
    moreover then have "nat c < 20" "int (nat c) = c" by (auto simp: has_sem_def)
    ultimately show ?thesis using assms(5) [of "nat c"] has_sem_cong [OF assms(2)] by auto
  qed
  ultimately show ?thesis using assms(1,6) has_sem_cong [OF assms(2)] unfolding sem_ok_def by blast
qed

lemma sem_ok_sleep:
  assumes "sem_ok L D W l h" and "has_sem L h p k" and "sem_value (l (nat k)) \<le> 0"
  shows "sem_ok L (insert (p, k) D) W l (put_to_sleep p k h)"
proof -
  let ?h = "put_to_sleep p k h"
  have ids: "\<forall>q \<in> L. p_semids (?h q) = p_semids (h q)" by (simp add: put_to_sleep_def)
  have "has_sem L ?h q c \<and> (sem_value (l (nat c)) \<le> 0 \<or> c \<in> W)" if "q < 64" "sleeps_on (Some (Chan_sem c)) (?h q)" for q c
  proof -
    from that(2) have "q = p \<and> c = k \<or> sleeps_on (Some (Chan_sem c)) (h q)"
      by (auto simp: sleeps_on_def put_to_sleep_def split: if_splits)
    then show ?thesis using that(1) assms has_sem_cong [OF ids] unfolding sem_ok_def by metis
  qed
  then show ?thesis using assms(1,2) has_sem_cong [OF ids] slots_cong [OF ids] unfolding sem_ok_def by auto
qed

lemma slots_given:
  assumes "given p i (int k) h h'" and "p_semids (h p) i = -1" and "p \<in> L" and "i < 5"
  shows "slots L h' (int j) = (if j = k then insert (p, i) (slots L h (int j)) else slots L h (int j))"
  using assms by (auto simp: slots_def given_def split: if_splits)

lemma has_sem_given:
  "given p i (int k) h h' \<Longrightarrow> p_semids (h p) i = -1 \<Longrightarrow> has_sem L h q c \<Longrightarrow> has_sem L h' q c"
  unfolding has_sem_def given_def by (cases "q = p") force+

lemma sem_ok_reference:
  assumes ok: "sem_ok L D W l h" and r: "referenced k l l'" and k: "k < 20"
    and h: "h' = h \<or> (\<exists>p i. p \<in> L \<and> i < 5 \<and> p_semids (h p) i = -1 \<and> given p i (int k) h h')"
  shows "sem_ok L D W l' h'"
proof -
  have fin: "finite (slots L h c)" for c using ok by (intro finite_slots) (simp add: sem_ok_def)
  have has: "has_sem L h' q c" if "has_sem L h q c" for q c using h that has_sem_given by blast
  have sl: "sleeps_on c (h' q) = sleeps_on c (h q)" for c q
    using h by (auto simp: sleeps_on_def given_def)
  have "int (card (slots L h' (int j))) \<le> sem_references (l' j)" if "j < 20" for j
  proof -
    have "card (slots L h' (int j)) \<le> card (slots L h (int j)) + (if j = k then 1 else 0)"
      using h
    proof
      assume "\<exists>p i. p \<in> L \<and> i < 5 \<and> p_semids (h p) i = -1 \<and> given p i (int k) h h'"
      then obtain p i where "p \<in> L" "i < 5" "p_semids (h p) i = -1" "given p i (int k) h h'" by blast
      then show ?thesis using slots_given card_insert_le_m1 fin by (simp add: card_insert_if)
    qed simp
    moreover have "int (card (slots L h (int j))) \<le> sem_references (l j)" using ok that unfolding sem_ok_def by blast
    ultimately show ?thesis using r by (auto simp: referenced_def split: if_splits)
  qed
  moreover have "sem_value (l' (nat c)) \<le> 0 \<or> c \<in> W" if "q < 64" "sleeps_on (Some (Chan_sem c)) (h q)" for q c
  proof -
    from ok that have *: "has_sem L h q c" "sem_value (l (nat c)) \<le> 0 \<or> c \<in> W" unfolding sem_ok_def by blast+
    have "sem_references (l (nat c)) > 0" using has_sem_referenced [OF ok *(1)] .
    then have "sem_value (l' (nat c)) = sem_value (l (nat c))" using r by (cases "nat c = k") (auto simp: referenced_def)
    with * show ?thesis by simp
  qed
  ultimately show ?thesis using ok has sl unfolding sem_ok_def by blast
qed

lemma sem_ok_release:
  assumes ok: "sem_ok L D W l h" and k: "0 \<le> k" "k < 20" and p: "p \<in> L" "p_state (h p) \<noteq> SLEEPING" "p \<notin> fst ` D"
    and g: "given p i (-1) h h'" "i < 5" "p_semids (h p) i = k"
    and l': "l' = l(nat k := (l (nat k))\<lparr>sem_references := sem_references (l (nat k)) - 1\<rparr>)"
  shows "sem_ok L D W l' h'"
proof -
  have fin: "finite (slots L h c)" for c using ok by (intro finite_slots) (simp add: sem_ok_def)
  have other: "has_sem L h' q c = has_sem L h q c" if "q \<noteq> p" for q c using g(1) that by (simp add: has_sem_def given_def)
  have sl: "sleeps_on c (h' q) = sleeps_on c (h q)" for c q using g(1) by (simp add: sleeps_on_def given_def)
  have "int (card (slots L h' (int j))) \<le> sem_references (l' j)" if "j < 20" for j
  proof -
    have "slots L h' (int j) = slots L h (int j) - (if int j = k then {(p, i)} else {})"
      using g p(1) by (auto simp: slots_def given_def split: if_splits)
    moreover have "(p, i) \<in> slots L h k" using g p(1) by (simp add: slots_def)
    moreover have "int (card (slots L h (int j))) \<le> sem_references (l j)" using ok that unfolding sem_ok_def by blast
    ultimately show ?thesis using l' fin k card_gt_0_iff [of "slots L h k"] by (auto simp: card_Diff_singleton_if of_nat_diff)
  qed
  moreover have "has_sem L h' q c \<and> (sem_value (l' (nat c)) \<le> 0 \<or> c \<in> W)" if "q < 64" "sleeps_on (Some (Chan_sem c)) (h q)" for q c
  proof -
    have "q \<noteq> p" using that(2) p(2) by (auto simp: sleeps_on_def)
    moreover have "sem_value (l' (nat c)) = sem_value (l (nat c))" using l' by simp
    ultimately show ?thesis using ok that other unfolding sem_ok_def by metis
  qed
  moreover have "has_sem L h' q c" if "(q, c) \<in> D" for q c
  proof -
    have "q \<noteq> p" using that p(3) by force
    then show ?thesis using ok that other unfolding sem_ok_def by blast
  qed
  ultimately show ?thesis using ok sl unfolding sem_ok_def by blast
qed

text \<open>
  One step of the system. A process runs one of the operations up to its return or to its
  going to sleep; \<^verbatim>\<open>semup\<close> is two steps, since \<^verbatim>\<open>wakeup\<close> follows the release of \<^verbatim>\<open>sems.lock\<close>.
  Everything else the kernel does (\<open>other\<close>) leaves the semaphore table and the descriptors
  alone and puts nobody to sleep on a semaphore.
\<close>

type_synonym sem_state = "nat set \<times> (nat \<times> int) set \<times> int set \<times> kernel"

inductive sem_step :: "sem_state \<Rightarrow> sem_state \<Rightarrow> bool" where
  down_returns: "me s = Some p \<Longrightarrow> p \<in> L \<Longrightarrow> semdown key s = Inr (Returns r, t) \<Longrightarrow> sem_step (L, D, W, s) (L, D, W, t)"
| down_sleeps: "me s = Some p \<Longrightarrow> p \<in> L \<Longrightarrow> semdown key s = Inr (Sleeps b, t) \<Longrightarrow>
    sem_step (L, D, W, s) (L, insert (p, key) D, W, t)"
| again_returns: "me s = Some p \<Longrightarrow> (p, key) \<in> D \<Longrightarrow> semdown_again key p b s = Inr (Returns r, t) \<Longrightarrow>
    sem_step (L, D, W, s) (L, D - {(p, key)}, W, t)"
| again_sleeps: "me s = Some p \<Longrightarrow> (p, key) \<in> D \<Longrightarrow> semdown_again key p b s = Inr (Sleeps c, t) \<Longrightarrow>
    sem_step (L, D, W, s) (L, D, W, t)"
| up: "semup_inc key s = Inr (r, wake, t) \<Longrightarrow> sem_step (L, D, W, s) (L, D, if wake then insert key W else W, t)"
| wake: "wakeup (Some (Chan_sem key)) s = Inr t \<Longrightarrow> sem_step (L, D, W, s) (L, D, W - {key}, t)"
| get: "me s = Some p \<Longrightarrow> p \<in> L \<Longrightarrow> semget key init s = Inr (r, t) \<Longrightarrow> sem_step (L, D, W, s) (L, D, W, t)"
| free: "me s = Some p \<Longrightarrow> p \<in> L \<Longrightarrow> p_state (procs s p) = RUNNING \<Longrightarrow> p \<notin> fst ` D \<Longrightarrow>
    semfree key s = Inr (r, t) \<Longrightarrow> sem_step (L, D, W, s) (L, D, W, t)"
| copy: "p \<noteq> c \<Longrightarrow> c \<in> L \<Longrightarrow> (\<forall>i < 5. p_semids (procs s c) i = -1) \<Longrightarrow> semcopy (Some p) (Some c) s = Inr t \<Longrightarrow>
    sem_step (L, D, W, s) (L, D, W, t)"
| born: "q < 64 \<Longrightarrow> q \<notin> L \<Longrightarrow> (\<forall>i < 5. p_semids (procs s q) i = -1) \<Longrightarrow> sem_step (L, D, W, s) (insert q L, D, W, s)"
| die: "p_state (procs s q) \<noteq> SLEEPING \<Longrightarrow> q \<notin> fst ` D \<Longrightarrow> sem_step (L, D, W, s) (L - {q}, D, W, s)"
| other: "sems_list t = sems_list s \<Longrightarrow> (\<forall>q \<in> L. p_semids (procs t q) = p_semids (procs s q)) \<Longrightarrow>
    (\<forall>q c. sleeps_on (Some (Chan_sem c)) (procs t q) \<longrightarrow> sleeps_on (Some (Chan_sem c)) (procs s q)) \<Longrightarrow>
    sem_step (L, D, W, s) (L, D, W, t)"

definition sem_start :: "sem_state \<Rightarrow> bool" where
  "sem_start = (\<lambda>(L, D, W, s). L = {} \<and> D = {} \<and> W = {} \<and> (\<forall>k < 20. sem_references (sems_list s k) = 0) \<and>
     (\<forall>q < 64. p_state (procs s q) = UNUSED))"

definition sem_inv :: "sem_state \<Rightarrow> bool" where
  "sem_inv = (\<lambda>(L, D, W, s). sem_ok L D W (sems_list s) (procs s))"

lemma downed_ok:
  assumes ok: "sem_ok L D W (sems_list s) (procs s)" and has: "has_sem L (procs s) p key" and d: "downed p key s w t"
  shows "sem_ok L (case w of Returns _ \<Rightarrow> D | Sleeps _ \<Rightarrow> insert (p, key) D) W (sems_list t) (procs t)"
proof (cases "sem_value (sems_list s (nat key)) > 0")
  case True
  then show ?thesis using d by (auto simp: downed_def split: if_splits intro!: sem_ok_mono [OF ok])
next
  case False
  then show ?thesis using d sem_ok_sleep [OF ok has] by (auto simp: downed_def)
qed

lemma semdown_ok:
  assumes ok: "sem_ok L D W (sems_list s) (procs s)" and p: "me s = Some p" "p \<in> L" and d: "semdown key s = Inr (w, t)"
  shows "sem_ok L (case w of Returns _ \<Rightarrow> D | Sleeps _ \<Rightarrow> insert (p, key) D) W (sems_list t) (procs t)"
  using semdown_view [OF d]
proof
  assume "sem_view t = sem_view s \<and> w = Returns EINVAL"
  then show ?thesis using ok by (simp add: sem_view_def)
next
  assume "\<exists>p. mine p key s \<and> downed p key s w t"
  then show ?thesis using p downed_ok [OF ok] by (auto simp: mine_def has_sem_def)
qed

lemma semdown_again_ok:
  assumes ok: "sem_ok L D W (sems_list s) (procs s)" and p: "me s = Some p" "(p, key) \<in> D" and d: "semdown_again key p b s = Inr (w, t)"
  shows "sem_ok L (case w of Returns _ \<Rightarrow> D - {(p, key)} | Sleeps _ \<Rightarrow> D) W (sems_list t) (procs t)"
proof -
  from semdown_again_view [OF d p(1)] obtain u where
    u: "sems_list u = sems_list s" "procs u = (procs s)(p := (procs s p)\<lparr>p_chan := None\<rparr>)" "downed p key u w t" by blast
  have ok': "sem_ok L D W (sems_list u) (procs u)"
    using u(1,2) by (intro sem_ok_mono [OF ok]) (auto simp: sleeps_on_def split: if_splits)
  then have "has_sem L (procs u) p key" using p(2) unfolding sem_ok_def by blast
  from downed_ok [OF ok' this u(3)] p(2) show ?thesis
    by (auto simp: insert_absorb split: wait.splits intro: sem_ok_mono)
qed

lemma semup_inc_ok:
  assumes ok: "sem_ok L D W (sems_list s) (procs s)" and u: "semup_inc key s = Inr (r, wake, t)"
  shows "sem_ok L D (if wake then insert key W else W) (sems_list t) (procs t)"
  using semup_inc_view [OF u]
proof
  assume "sem_view t = sem_view s \<and> r = EINVAL \<and> \<not> wake"
  then show ?thesis using ok by (simp add: sem_view_def)
next
  assume v: "(\<exists>p. mine p key s) \<and> r = 0 \<and> procs t = procs s \<and> wake = (sem_value (sems_list s (nat key)) = 0) \<and>
    sems_list t = (sems_list s)(nat key := (sems_list s (nat key))\<lparr>sem_value := sem_value (sems_list s (nat key)) + 1\<rparr>)"
  then have "0 \<le> key" by (auto simp: mine_def)
  then have "sem_value (sems_list t k) \<le> 0 \<or> 0 < sem_value (sems_list s k) \<or> int k \<in> (if wake then insert key W else W)" for k
    using v by (cases "k = nat key") auto
  then show ?thesis using v by (intro sem_ok_mono [OF ok]) auto
qed

lemma semcopy_ok:
  assumes "iter (semcopy_slot p c) is s = Inr t" and "sem_ok L D W (sems_list s) (procs s)" and "p \<noteq> c" "c \<in> L"
    and "distinct is" and "\<forall>i \<in> set is. i < 5 \<and> p_semids (procs s c) i = -1"
  shows "sem_ok L D W (sems_list t) (procs t)"
  using assms
proof (induction "is" arbitrary: s)
  case Nil
  then show ?case by simp
next
  case (Cons i js)
  from Cons.prems(1) obtain u where u: "semcopy_slot p c i s = Inr u" and rest: "iter (semcopy_slot p c) js u = Inr t"
    by (auto simp: bindr_eq_Inr)
  from semcopy_slot_view [OF u] have "sem_ok L D W (sems_list u) (procs u) \<and> (\<forall>j \<in> set js. p_semids (procs u c) j = p_semids (procs s c) j)"
  proof
    assume "\<exists>k < 20. p_semids (procs s p) i = int k \<and> given c i (int k) (procs s) (procs u) \<and> referenced k (sems_list s) (sems_list u)"
    then obtain k where k: "k < 20" "given c i (int k) (procs s) (procs u)" "referenced k (sems_list s) (sems_list u)" by blast
    have "sem_ok L D W (sems_list u) (procs u)"
      using Cons.prems(4,6) k(2) by (intro sem_ok_reference [OF Cons.prems(2) k(3,1)]) auto
    moreover have "\<forall>j \<in> set js. p_semids (procs u c) j = p_semids (procs s c) j"
      using k(2) Cons.prems(5) by (auto simp: given_def)
    ultimately show ?thesis by blast
  qed (use Cons.prems(2) in simp)
  then show ?case using Cons.IH [OF rest] Cons.prems by auto
qed

lemma sem_inv_step: "sem_inv x \<Longrightarrow> sem_step x y \<Longrightarrow> sem_inv y"
proof -
  assume inv: "sem_inv x" and step: "sem_step x y"
  from step inv show "sem_inv y"
  proof (cases rule: sem_step.cases)
    case (down_returns s p L key r t D W)
    then show ?thesis using inv semdown_ok [of L D W s p key "Returns r" t] by (simp add: sem_inv_def)
  next
    case (down_sleeps s p L key b t D W)
    then show ?thesis using inv semdown_ok [of L D W s p key "Sleeps b" t] by (simp add: sem_inv_def)
  next
    case (again_returns s p key D b r t L W)
    then show ?thesis using inv semdown_again_ok [of L D W s p key b "Returns r" t] by (simp add: sem_inv_def)
  next
    case (again_sleeps s p key D b c t L W)
    then show ?thesis using inv semdown_again_ok [of L D W s p key b "Sleeps c" t] by (simp add: sem_inv_def)
  next
    case (up key s r wake t L D W)
    then show ?thesis using inv semup_inc_ok [of L D W s key r wake t] by (simp add: sem_inv_def)
  next
    case (wake key s t L D W)
    note w = wakeup_roused [OF wake(3)]
    show ?thesis using wake(1,2) inv w(1,4) w(3) [unfolded roused_def] roused_sleeps [OF w(3)]
      by (auto simp: sem_inv_def intro!: sem_ok_mono [of L D W "sems_list s" "procs s"])
  next
    case (get s p L key init r t D W)
    then show ?thesis using inv semget_view [OF get(5)]
      by (auto simp: sem_inv_def granted_def intro: sem_ok_reference)
  next
    case (free s p L D key r t W)
    then show ?thesis using inv semfree_view [OF free(7)]
      by (auto simp: sem_inv_def intro: sem_ok_release)
  next
    case (copy p c L s t D W)
    then obtain u where u: "iter (semcopy_slot p c) [0..<5] s = Inr u"
      "t = upd_proc c (\<lambda>q. q\<lparr>p_semcount := p_semcount (procs u p)\<rparr>) u" by (auto simp: semcopy_def bindr_eq_Inr)
    from semcopy_ok [OF u(1), of L D W] inv copy have "sem_ok L D W (sems_list u) (procs u)" by (auto simp: sem_inv_def)
    then have "sem_ok L D W (sems_list t) (procs t)"
      by (rule sem_ok_mono) (auto simp: u(2) sleeps_on_def split: if_splits)
    then show ?thesis using copy(2) by (simp add: sem_inv_def)
  next
    case (born q L s D W)
    then have "slots (insert q L) (procs s) (int k) = slots L (procs s) (int k)" for k by (auto simp: slots_def)
    then show ?thesis using born inv by (auto simp: sem_inv_def sem_ok_def has_sem_def)
  next
    case (die s q D L W)
    have sub: "slots (L - {q}) (procs s) c \<subseteq> slots L (procs s) c" for c by (auto simp: slots_def)
    have ok: "sem_ok L D W (sems_list s) (procs s)" using inv die by (simp add: sem_inv_def)
    have "card (slots (L - {q}) (procs s) c) \<le> card (slots L (procs s) c)" for c
      using ok by (intro card_mono sub finite_slots) (simp add: sem_ok_def)
    then have "\<forall>k < 20. int (card (slots (L - {q}) (procs s) (int k))) \<le> sem_references (sems_list s k)"
      using ok unfolding sem_ok_def by (meson of_nat_le_iff order_trans)
    moreover have "has_sem (L - {q}) (procs s) r c = has_sem L (procs s) r c" if "r \<noteq> q" for r c using that by (simp add: has_sem_def)
    moreover have "r \<noteq> q" if "sleeps_on c (procs s r)" for r c using that die(3) by (auto simp: sleeps_on_def)
    moreover have "r \<noteq> q" if "(r, c) \<in> D" for r c using that die(4) by force
    ultimately show ?thesis using ok die(2) unfolding sem_inv_def sem_ok_def by auto
  next
    case (other t s L D W)
    then show ?thesis using inv by (auto simp: sem_inv_def intro!: sem_ok_mono [of L D W "sems_list s" "procs s"])
  qed
qed

interpretation sem_sys: invariant_system sem_start sem_step sem_inv
proof
  show "sem_start x \<Longrightarrow> sem_inv x" for x
    by (cases x) (auto simp: sem_start_def sem_inv_def sem_ok_def slots_def sleeps_on_def)
qed (rule sem_inv_step)

section \<open>What each call does\<close>

text \<open>A system call of process \<open>p\<close>: it holds no lock, and the two locks are free.\<close>

definition calling :: "nat \<Rightarrow> kernel \<Rightarrow> bool" where
  "calling p s \<longleftrightarrow> cpu_wf s \<and> c_ncli (cpus s (this_cpu s)) = 0 \<and> c_proc (cpus s (this_cpu s)) = Some p \<and>
     lock_free Sems_lock s \<and> lock_free Ptable_lock s"

definition usable :: "nat \<Rightarrow> int \<Rightarrow> kernel \<Rightarrow> bool" where
  "usable p key s \<longleftrightarrow> 0 \<le> key \<and> key < 20 \<and> sem_references (sems_list s (nat key)) \<noteq> 0 \<and> (\<exists>i < 5. p_semids (procs s p) i = key)"

text \<open>Inside the critical section: the facts the calls below use.\<close>

lemma calling_acq:
  assumes "calling p s"
  defines "u \<equiv> acq Sems_lock s"
  shows "acquire Sems_lock s = Inr u" "cpu_wf u" "lock_held Sems_lock u" "c_ncli (cpus u (this_cpu u)) = 1"
    "c_proc (cpus u (this_cpu u)) = Some p" "lock_free Ptable_lock u" "my u = Inr (p, u)"
proof -
  show a: "acquire Sems_lock s = Inr u" "cpu_wf u" "lock_held Sems_lock u" and n: "c_ncli (cpus u (this_cpu u)) = 1"
    and c: "c_proc (cpus u (this_cpu u)) = Some p" and "lock_free Ptable_lock u"
    using assms(1) unfolding u_def calling_def by simp_all
  have "pop1 (push1 (cpus u (this_cpu u))) = cpus u (this_cpu u)"
    using a(2) n by (intro pop1_push1) (auto simp: cpu_view_def)
  then show "my u = Inr (p, u)" using myproc_eq [OF a(2)] c by (simp add: my_def)
qed

lemma calling_me: "calling p s \<Longrightarrow> me s = Some p"
proof -
  assume c: "calling p s"
  note a = calling_acq [OF c]
  have "\<not> c_if (cpus (acq Sems_lock s) (this_cpu (acq Sems_lock s)))" using a(2,4) by (simp add: cpu_view_def)
  from mycpu_me [OF mycpu_this [OF a(2) this]] a(5) show ?thesis using acquire_view [OF a(1)] by simp
qed

lemma calling_upd_release:
  assumes "calling p s"
  shows "release Sems_lock ((acq Sems_lock s)\<lparr>sems_list := l\<rparr>) = Inr ((critical Sems_lock s)\<lparr>sems_list := l\<rparr>)"
    "release Sems_lock (acq Sems_lock s) = Inr (critical Sems_lock s)"
  using calling_acq [OF assms] by (simp_all add: critical_def rel_def)

lemma key_invalid_acq:
  assumes "calling p s"
  shows "key_invalid key (acq Sems_lock s) = (if key = 20 then Inl Out_Of_Bounds else Inr (\<not> usable p key s, acq Sems_lock s))"
proof -
  have "usable p key s \<longleftrightarrow> 0 \<le> key \<and> key < 20 \<and> sem_references (sems_list s (nat key)) \<noteq> 0 \<and> slot_of key (procs s p) \<noteq> None"
    unfolding slot_of_None usable_def by blast
  then show ?thesis using calling_acq(7) [OF assms]
    by (auto simp: key_invalid_def isfree_def sem_at_def isattached_def acq_def)
qed

lemma semdown_eq:
  assumes c: "calling p s"
  shows "semdown key s =
   (if key = 20 then Inl Out_Of_Bounds
    else if \<not> usable p key s then Inr (Returns EINVAL, critical Sems_lock s)
    else if sem_value (sems_list s (nat key)) > 0
      then Inr (Returns 0, (critical Sems_lock s)\<lparr>sems_list := (sems_list s)(nat key :=
             (sems_list s (nat key))\<lparr>sem_value := sem_value (sems_list s (nat key)) - 1\<rparr>)\<rparr>)
    else Inr (Sleeps (c_if (cpus s (this_cpu s))), (acq Sems_lock s)\<lparr>
      procs := put_to_sleep p key (procs s),
      locks := (locks s)(Ptable_lock := \<lparr>lk_locked = True, lk_cpu = Some (this_cpu s)\<rparr>,
                         Sems_lock := \<lparr>lk_locked = False, lk_cpu = None\<rparr>)\<rparr>))"
proof -
  note a = calling_acq [OF c]
  have sl: "sleep_enter (Some (Chan_sem key)) (Some Sems_lock) (acq Sems_lock s) = Inr (c_if (cpus s (this_cpu s)), (acq Sems_lock s)\<lparr>
      procs := put_to_sleep p key (procs s),
      locks := (locks s)(Ptable_lock := \<lparr>lk_locked = True, lk_cpu = Some (this_cpu s)\<rparr>,
                         Sems_lock := \<lparr>lk_locked = False, lk_cpu = None\<rparr>)\<rparr>)"
    using sleep_enter_eq [OF a(2,5) _ a(3,4,6)] c
    by (simp add: acq_def push1_def put_to_sleep_def calling_def fun_upd_twist)
  have at: "sem_at key = Inr (nat key)" if "usable p key s" using that by (simp add: usable_def sem_at_def)
  have v: "sems_list (acq Sems_lock s) = sems_list s" by (simp add: acq_def)
  show ?thesis
    unfolding semdown_def a(1) key_invalid_acq [OF c] bindr_simps
    by (auto simp: semdown_pass_def at sl v calling_upd_release [OF c])
qed

text \<open>
  C19. semdown on every branch. Called by process p, it answers EINVAL for a key that is out of
  range, free, or not attached to p; otherwise it takes one unit if the value is positive, and
  if not it leaves the table as it is and puts p to sleep on that semaphore, releasing the
  table's lock only once ptable.lock is held. The key 20 = SYSMAXSEM, which its range check
  lets through, reads past the end of the table.
\<close>

theorem semdown_outcomes:
  assumes "calling p s"
  shows "semdown key s =
   (if key = 20 then Inl Out_Of_Bounds
    else if \<not> usable p key s then Inr (Returns EINVAL, critical Sems_lock s)
    else if sem_value (sems_list s (nat key)) > 0
      then Inr (Returns 0, (critical Sems_lock s)\<lparr>sems_list := (sems_list s)(nat key :=
             (sems_list s (nat key))\<lparr>sem_value := sem_value (sems_list s (nat key)) - 1\<rparr>)\<rparr>)
    else Inr (Sleeps (c_if (cpus s (this_cpu s))), (acq Sems_lock s)\<lparr>
      procs := put_to_sleep p key (procs s),
      locks := (locks s)(Ptable_lock := \<lparr>lk_locked = True, lk_cpu = Some (this_cpu s)\<rparr>,
                         Sems_lock := \<lparr>lk_locked = False, lk_cpu = None\<rparr>)\<rparr>))"
  by (rule semdown_eq [OF assms])

text \<open>One process with one semaphore, on CPU 0.\<close>

definition one_sem :: "int \<Rightarrow> kernel" where
  "one_sem v = (booted 1)\<lparr>procs := (\<lambda>_. zero_proc)(3 := zero_proc\<lparr>p_state := RUNNING, p_semids := (\<lambda>_. -1)(0 := 0)\<rparr>),
     cpus := (\<lambda>_. zero_cpu\<lparr>c_proc := Some 3\<rparr>), sems_list := (\<lambda>_. \<lparr>sem_value = 0, sem_references = 0\<rparr>)(0 := \<lparr>sem_value = v, sem_references = 1\<rparr>)\<rparr>"

lemma one_sem_calling: "calling 3 (one_sem v)"
  by (simp add: calling_def one_sem_def cpu_view_def distinct_ids_def inj_on_def booted_def zero_cpu_def)

theorem semdown_outcomes_witness:
  "\<exists>s. calling 3 s \<and> (\<exists>t. semdown 0 s = Inr (Returns 0, t) \<and> sem_value (sems_list t 0) = 1) \<and> semdown 20 s = Inl Out_Of_Bounds"
proof -
  have u: "usable 3 0 (one_sem 2)" by (auto simp: usable_def one_sem_def)
  have "sem_value (sems_list (one_sem 2) 0) = 2" by (simp add: one_sem_def)
  then have "\<exists>t. semdown 0 (one_sem 2) = Inr (Returns 0, t) \<and> sem_value (sems_list t 0) = 1"
    using semdown_outcomes [OF one_sem_calling, of 0 2] u by simp
  moreover have "semdown 20 (one_sem 2) = Inl Out_Of_Bounds"
    using semdown_outcomes [OF one_sem_calling, of 20 2] by simp
  ultimately show ?thesis using one_sem_calling by blast
qed

lemma woken_upto_all:
  assumes "woken_upto chan s [0..<NPROC] t"
  shows "sems_list t = sems_list s" "same_but_links (procs t q) (if q < 64 \<and> sleeps_on chan (procs s q) then woken (procs s q) else procs s q)"
proof -
  have "rq_frame s t" using assms by (simp add: woken_upto_def)
  then show "sems_list t = sems_list s" by (cases s; cases t; simp add: rq_frame_def)
  have "set [0..<NPROC] = {..<64}" by (auto simp: NPROC_def)
  then show "same_but_links (procs t q) (if q < 64 \<and> sleeps_on chan (procs s q) then woken (procs s q) else procs s q)"
    using assms unfolding woken_upto_def by simp
qed

lemma semup_inc_eq:
  assumes c: "calling p s" and v: "- (2 ^ 31) \<le> sem_value (sems_list s (nat key))" "sem_value (sems_list s (nat key)) < 2 ^ 31"
  shows "semup_inc key s =
   (if key = 20 then Inl Out_Of_Bounds
    else if \<not> usable p key s then Inr (EINVAL, False, critical Sems_lock s)
    else if sem_value (sems_list s (nat key)) = 2 ^ 31 - 1 then Inl Overflow
    else Inr (0, sem_value (sems_list s (nat key)) = 0, (critical Sems_lock s)\<lparr>sems_list := (sems_list s)(nat key :=
             (sems_list s (nat key))\<lparr>sem_value := sem_value (sems_list s (nat key)) + 1\<rparr>)\<rparr>))"
proof -
  note a = calling_acq [OF c]
  have at: "sem_at key = Inr (nat key)" if "usable p key s" using that by (simp add: usable_def sem_at_def)
  show ?thesis
    unfolding semup_inc_def a(1) key_invalid_acq [OF c] bindr_simps
    using v by (auto simp: at c_add_def Let_def calling_upd_release [OF c])
qed


text \<open>\<open>after p s t\<close>: \<open>t\<close> is \<open>s\<close> up to the interrupt flags and lock words, and \<open>p\<close> may call again.\<close>

definition after :: "nat \<Rightarrow> kernel \<Rightarrow> kernel \<Rightarrow> bool" where
  "after p s t \<longleftrightarrow> calling p t \<and> sems_list t = sems_list s \<and> sems_used t = sems_used s \<and> procs t = procs s"

lemma calling_my: "calling p s \<Longrightarrow> \<exists>t. my s = Inr (p, t) \<and> after p s t"
  using myproc_eq [of s] cpu_view_pp [of "this_cpu s" "ncpu s" "cpus s"]
  by (auto simp: my_def calling_def after_def pop1_def push1_def)

lemma calling_critical: "calling p s \<Longrightarrow> after p s (critical Sems_lock s)"
  using cpu_wf_critical [of s Sems_lock] by (auto simp: calling_def after_def critical_def pop1_def push1_def)

lemma calling_upd:
  "calling p (s\<lparr>procs := h\<rparr>) = calling p s" "calling p (s\<lparr>sems_list := l\<rparr>) = calling p s" "calling p (s\<lparr>sems_used := n\<rparr>) = calling p s"
  by (simp_all add: calling_def)

lemma calling_release:
  assumes "calling p s"
  shows "release Sems_lock ((acq Sems_lock s)\<lparr>sems_list := l, sems_used := n\<rparr>) = Inr ((critical Sems_lock s)\<lparr>sems_list := l, sems_used := n\<rparr>)"
  using calling_acq [OF assms] by (simp add: critical_def rel_def)

lemma semget_create:
  assumes c: "calling p s" and "p_semcount (procs s p) \<le> 5" and "sems_used s \<le> 20"
    and k: "find (\<lambda>i. sem_references (sems_list s i) = 0) [0..<20] = Some k"
    and i: "slot_of (-1) (procs s p) = Some i"
  shows "\<exists>t. semget (-1) v s = Inr (int k, t) \<and> calling p t \<and> sems_used t = sems_used s + 2 \<and>
    sems_list t = (sems_list s)(k := \<lparr>sem_value = v, sem_references = 1\<rparr>) \<and>
    procs t = (procs s)(p := (procs s p)\<lparr>p_semids := (p_semids (procs s p))(i := int k), p_semcount := p_semcount (procs s p) + 1\<rparr>)"
proof -
  obtain s1 where my: "my s = Inr (p, s1)" and a1: "after p s s1" using calling_my [OF c] by blast
  then have c1: "calling p s1" and v1: "sems_list s1 = sems_list s" "sems_used s1 = sems_used s" "procs s1 = procs s"
    by (simp_all add: after_def)
  let ?l = "(sems_list s)(k := \<lparr>sem_value = v, sem_references = 1\<rparr>)"
  let ?s2 = "(critical Sems_lock s1)\<lparr>sems_list := ?l, sems_used := sems_used s + 2\<rparr>"
  have k20: "k < 20" using k by (auto simp: find_Some_iff)
  have c2: "calling p ?s2" and v2: "procs ?s2 = procs s"
    using calling_critical [OF c1] v1 by (simp_all add: after_def calling_upd)
  obtain s3 where my3: "my ?s2 = Inr (p, s3)" and a3: "after p ?s2 s3" using calling_my [OF c2] by blast
  then have v3: "calling p s3" "sems_list s3 = ?l" "sems_used s3 = sems_used s + 2" "procs s3 = procs s" by (simp_all add: after_def v2)
  have "semget (-1) v s = bindr (semattach (int k) ?s2) (\<lambda>(_, s). Inr (int k, s))"
    using assms(2,3) my v1 k k20 calling_acq(1) [OF c1] calling_release [OF c1]
    by (simp add: semget_def semcreate_def semset_def sem_at_def Let_def add.commute)
  also have "semattach (int k) ?s2 = Inr (True, upd_proc p (\<lambda>q. q\<lparr>p_semids := (p_semids q)(i := int k), p_semcount := p_semcount q + 1\<rparr>) s3)"
    using my3 i v3(4) by (simp add: semattach_def)
  finally show ?thesis using v3 by (simp add: calling_upd)
qed

lemma semfree_last:
  assumes c: "calling p s" and k: "k < 20" and r: "sem_references (sems_list s k) = 1"
    and i: "slot_of (int k) (procs s p) = Some i"
  shows "\<exists>t. semfree (int k) s = Inr (0, t) \<and> calling p t \<and> sems_used t = sems_used s - 1 \<and>
    sems_list t = (sems_list s)(k := (sems_list s k)\<lparr>sem_references := 0\<rparr>) \<and>
    procs t = (procs s)(p := (procs s p)\<lparr>p_semids := (p_semids (procs s p))(i := -1), p_semcount := p_semcount (procs s p) - 1\<rparr>)"
proof -
  note a = calling_acq [OF c]
  let ?h = "(procs s)(p := (procs s p)\<lparr>p_semids := (p_semids (procs s p))(i := -1), p_semcount := p_semcount (procs s p) - 1\<rparr>)"
  let ?l = "(sems_list s)(k := (sems_list s k)\<lparr>sem_references := 0\<rparr>)"
  have d: "semdetach (int k) (acq Sems_lock s) = Inr (True, (acq Sems_lock s)\<lparr>procs := ?h\<rparr>)"
    using a(7) i by (simp add: semdetach_def)
  have rel: "release Sems_lock ((acq Sems_lock s)\<lparr>procs := ?h, sems_list := ?l, sems_used := sems_used s - 1\<rparr>) =
    Inr ((critical Sems_lock s)\<lparr>procs := ?h, sems_list := ?l, sems_used := sems_used s - 1\<rparr>)"
    using a(2,3,4) by (simp add: critical_def rel_def)
  have "semfree (int k) s = Inr (0, (critical Sems_lock s)\<lparr>procs := ?h, sems_list := ?l, sems_used := sems_used s - 1\<rparr>)"
    using a(1) d rel k r by (simp add: semfree_def isfree_def sem_at_def sems_return_def Let_def)
  then show ?thesis using calling_critical [OF c] by (simp add: calling_upd after_def)
qed

text \<open>\<open>nothing_held p s\<close>: no semaphore is in use, and \<open>p\<close> has none.\<close>

definition nothing_held :: "nat \<Rightarrow> kernel \<Rightarrow> bool" where
  "nothing_held p s \<longleftrightarrow> (\<forall>k < 20. sem_references (sems_list s k) = 0) \<and> (\<forall>i < 5. p_semids (procs s p) i = -1) \<and>
     p_semcount (procs s p) = 0"

definition get_and_free :: "int \<Rightarrow> kernel \<Rightarrow> kernel result" where
  "get_and_free v s = bindr (semget (-1) v s) (\<lambda>(key, s). bindr (semfree key s) (\<lambda>(_, s). Inr s))"

lemma get_and_free_leaks:
  assumes c: "calling p s" and n: "nothing_held p s" and u: "sems_used s \<le> 20"
  shows "\<exists>t. get_and_free v s = Inr t \<and> calling p t \<and> nothing_held p t \<and> sems_used t = sems_used s + 1"
proof -
  have f: "find (\<lambda>i. sem_references (sems_list s i) = 0) [0..<20] = Some 0" "slot_of (-1) (procs s p) = Some 0"
    using n by (simp_all add: nothing_held_def slot_of_def upt_rec [of 0])
  from semget_create [OF c _ u f, of v] n obtain t where
    t: "semget (-1) v s = Inr (0, t)" "calling p t" "sems_used t = sems_used s + 2"
      "sems_list t = (sems_list s)(0 := \<lparr>sem_value = v, sem_references = 1\<rparr>)"
      "procs t = (procs s)(p := (procs s p)\<lparr>p_semids := (p_semids (procs s p))(0 := 0), p_semcount := 1\<rparr>)"
    by (auto simp: nothing_held_def)
  have "slot_of (int 0) (procs t p) = Some 0" using t(5) by (simp add: slot_of_def upt_rec [of 0])
  from semfree_last [OF t(2) _ _ this] t(4) obtain w where
    w: "semfree 0 t = Inr (0, w)" "calling p w" "sems_used w = sems_used t - 1"
      "sems_list w = (sems_list t)(0 := (sems_list t 0)\<lparr>sem_references := 0\<rparr>)"
      "procs w = (procs t)(p := (procs t p)\<lparr>p_semids := (p_semids (procs t p))(0 := -1), p_semcount := p_semcount (procs t p) - 1\<rparr>)"
    by auto
  have "nothing_held p w" using n t(4,5) w(4,5) by (simp add: nothing_held_def)
  then show ?thesis using t(1,3) w(1,2,3) by (simp add: get_and_free_def)
qed

text \<open>
  C22. Semaphores run out although none is in use. \<open>sems.used\<close> is incremented both in
  semcreate and in semget and decremented once in semfree, so a process that creates a
  semaphore and frees it again leaves the count one higher each time; after n rounds it is n
  higher, and once it has passed SYSMAXSEM every semget answers ENSEMSYS, with no semaphore
  held by anybody.
\<close>

theorem semget_exhaustion:
  assumes "calling p s" and "nothing_held p s" and "sems_used s = 0" and "n \<le> 21"
  shows "\<exists>t. iter (\<lambda>v. get_and_free v) (replicate n 1) s = Inr t \<and> nothing_held p t \<and> sems_used t = int n \<and>
    (n = 21 \<longrightarrow> (\<exists>u. semget (-1) 1 t = Inr (ENSEMSYS, u)))"
proof -
  have step: "\<exists>t. iter (\<lambda>v. get_and_free v) (replicate n 1) s = Inr t \<and> calling p t \<and> nothing_held p t \<and> sems_used t = m + int n"
    if "calling p s" "nothing_held p s" "sems_used s = m" "m + int n \<le> 21" for m s
    using that
  proof (induction n arbitrary: s m)
    case (Suc n)
    from get_and_free_leaks [OF Suc.prems(1,2), of 1] Suc.prems(3,4) obtain t where
      "get_and_free 1 s = Inr t" "calling p t" "nothing_held p t" "sems_used t = m + 1" by auto
    with Suc.IH [of t "m + 1"] Suc.prems(4) show ?case by (auto simp: algebra_simps)
  qed simp
  from step [OF assms(1-3)] assms(4) obtain t where
    t: "iter (\<lambda>v. get_and_free v) (replicate n 1) s = Inr t" "calling p t" "nothing_held p t" "sems_used t = int n" by auto
  obtain s1 where my: "my t = Inr (p, s1)" "calling p s1" "procs s1 = procs t" "sems_used s1 = int n"
    using calling_my [OF t(2)] t(4) by (auto simp: after_def)
  have "\<exists>u. semget (-1) 1 t = Inr (ENSEMSYS, u)" if "n = 21"
    using my t(3) that calling_acq(1) [OF my(2)] calling_upd_release(2) [OF my(2)]
    by (simp add: semget_def nothing_held_def sems_return_def)
  with t show ?thesis by blast
qed

text \<open>A process on CPU 0 with no semaphores, in a system where none is in use.\<close>

definition no_sems :: kernel where
  "no_sems = (booted 1)\<lparr>procs := (\<lambda>_. zero_proc)(3 := zero_proc\<lparr>p_state := RUNNING, p_semids := (\<lambda>_. -1)\<rparr>),
     cpus := (\<lambda>_. zero_cpu\<lparr>c_proc := Some 3\<rparr>)\<rparr>"

lemma no_sems_calling: "calling 3 no_sems" "nothing_held 3 no_sems" "sems_used no_sems = 0"
  by (simp_all add: calling_def nothing_held_def no_sems_def cpu_view_def distinct_ids_def inj_on_def booted_def zero_defs)

theorem semget_exhaustion_witness:
  "\<exists>s t u. nothing_held 3 s \<and> iter (\<lambda>v. get_and_free v) (replicate 21 1) s = Inr t \<and> nothing_held 3 t \<and>
     semget (-1) 1 t = Inr (ENSEMSYS, u)"
  using semget_exhaustion [OF no_sems_calling, of 21] no_sems_calling(2) by fastforce



lemma reach_no_sems: "reach sem_start sem_step ({3}, {}, {}, no_sems)"
proof -
  have "sem_start ({}, {}, {}, booted 1)" by (simp add: sem_start_def booted_def zero_proc_def)
  then have "reach sem_start sem_step ({}, {}, {}, booted 1)" by (rule reach_start)
  moreover have "sem_step ({}, {}, {}, booted 1) ({}, {}, {}, no_sems)"
    by (rule sem_step.other) (auto simp: no_sems_def booted_def sleeps_on_def zero_proc_def split: if_splits)
  ultimately have "reach sem_start sem_step ({}, {}, {}, no_sems)" by (rule reach_step)
  moreover have "sem_step ({}, {}, {}, no_sems) (insert 3 {}, {}, {}, no_sems)"
    by (rule sem_step.born) (auto simp: no_sems_def)
  ultimately show ?thesis by (rule reach_step)
qed

text \<open>The process has created semaphore 0 with value 0.\<close>

lemma reach_created:
  obtains s where "reach sem_start sem_step ({3}, {}, {}, s)" "calling 3 s" "semget (-1) 0 no_sems = Inr (0, s)"
    "sem_value (sems_list s 0) = 0" "sem_references (sems_list s 0) = 1" "p_semids (procs s 3) 0 = 0"
proof -
  have f: "find (\<lambda>i. sem_references (sems_list no_sems i) = 0) [0..<20] = Some 0" "slot_of (-1) (procs no_sems 3) = Some 0"
    using no_sems_calling(2) by (simp_all add: nothing_held_def slot_of_def upt_rec [of 0])
  obtain s where s: "semget (-1) 0 no_sems = Inr (int 0, s)" "calling 3 s"
    "sems_list s = (sems_list no_sems)(0 := \<lparr>sem_value = 0, sem_references = 1\<rparr>)" "p_semids (procs s 3) 0 = 0"
    using semget_create [OF no_sems_calling(1) _ _ f, of 0] no_sems_calling(2,3) by (auto simp: nothing_held_def)
  have "sem_step ({3}, {}, {}, no_sems) ({3}, {}, {}, s)"
    using calling_me [OF no_sems_calling(1)] s(1) by (intro sem_step.get) auto
  then have "reach sem_start sem_step ({3}, {}, {}, s)" by (rule reach_step [OF reach_no_sems])
  then show thesis using s by (intro that [of s]) simp_all
qed




end
