(* ===== verification/Proc.thy ===== *)
theory Proc
  imports File Semaphore
begin

text \<open>
  The life of a process (\<^verbatim>\<open>proc.c\<close>): allocation of a table entry and its kernel stack, the
  first process, \<^verbatim>\<open>fork\<close>, \<^verbatim>\<open>exit\<close>, \<^verbatim>\<open>wait\<close>, growing and the process listings. \<^verbatim>\<open>exit\<close> is
  modelled up to its switch to the scheduler, \<^verbatim>\<open>wait\<close> pass by pass.
\<close>

section \<open>Creation\<close>

definition pinit :: "kernel \<Rightarrow> kernel" where
  "pinit s = seminit (initlock Ptable_lock s)"

text \<open>Sizes of \<^verbatim>\<open>struct trapframe\<close> and \<^verbatim>\<open>struct context\<close>.\<close>

definition TF_SIZE :: uint where [simp]: "TF_SIZE = 76"
definition CTX_SIZE :: uint where [simp]: "CTX_SIZE = 20"

definition new_stack :: "nat \<Rightarrow> uint \<Rightarrow> kernel \<Rightarrow> kernel" where
  "new_stack p kstack s =
     (let tf = kstack + KSTACKSIZE - TF_SIZE;
          ret = tf - 4;
          ctx = ret - CTX_SIZE;
          s = upd_proc p (\<lambda>q. q\<lparr>p_tf := tf\<rparr>) s;
          s = setw ret (trapret_at s) s;
          s = upd_proc p (\<lambda>q. q\<lparr>p_context := ctx\<rparr>) s;
          s = s\<lparr>mem := memset ctx 0 CTX_SIZE (mem s)\<rparr>
      in setw (ctx + 16) (forkret_at s) s)"

definition allocproc :: "kernel \<Rightarrow> (nat option \<times> kernel) result" where
  "allocproc s =
     bindr (acquire Ptable_lock s) (\<lambda>s.
     case find (\<lambda>p. p_state (procs s p) = UNUSED) [0..<NPROC] of
       None \<Rightarrow> bindr (release Ptable_lock s) (\<lambda>s. Inr (None, s))
     | Some p \<Rightarrow>
         let s = upd_proc p (\<lambda>q. q\<lparr>p_state := EMBRYO, p_pid := nextpid s\<rparr>) s in
         bindr (c_add (nextpid s) 1) (\<lambda>n.
         let s = upd_proc p (\<lambda>q. q\<lparr>p_nice := DEFAULTPLEVEL\<rparr>) (s\<lparr>nextpid := n\<rparr>) in
         bindr (release Ptable_lock s) (\<lambda>s.
         bindr (kalloc s) (\<lambda>(k, s).
         let s = upd_proc p (\<lambda>q. q\<lparr>p_kstack := k\<rparr>) s in
         if k = 0 then Inr (None, set_state UNUSED p s)
         else
           let s = new_stack p k s;
               s = upd_proc p (\<lambda>q. q\<lparr>p_semcount := 0,
                     p_semids := (\<lambda>i. if i < nat PROCMAXSEM then -1 else p_semids q i)\<rparr>) s
           in Inr (Some p, s)))))"

definition user_ds :: ushort where "user_ds = push_bit 3 SEG_UDATA OR DPL_USER"

definition first_frame :: trapframe where
  "first_frame = zero_frame\<lparr>tf_cs := push_bit 3 SEG_UCODE OR DPL_USER, tf_ds := user_ds, tf_es := user_ds,
     tf_ss := user_ds, tf_eflags := FL_IF, tf_esp := PGSIZE, tf_eip := 0\<rparr>"

definition string_bytes :: "string \<Rightarrow> bytes" where
  "string_bytes cs i = (if i < length cs then word_of_int (of_char (cs ! i)) else 0)"

text \<open>\<open>code\<close> and \<open>sz\<close> are the linked-in bytes of \<^verbatim>\<open>initcode.S\<close>.\<close>

definition userinit :: "bytes \<Rightarrow> uint \<Rightarrow> kernel \<Rightarrow> kernel result" where
  "userinit code sz s =
     bindr (allocproc s) (\<lambda>(ptr, s).
     let s = s\<lparr>initproc := ptr\<rparr> in
     bindr (deref ptr) (\<lambda>p.
     bindr (setupkvm s) (\<lambda>(d, s).
     let s = upd_proc p (\<lambda>q. q\<lparr>p_pgdir := d\<rparr>) s in
     bindr (panic_if (d = 0) ''userinit: out of memory?'') (\<lambda>_.
     bindr (inituvm d code sz s) (\<lambda>s.
     let s = upd_proc p (\<lambda>q. q\<lparr>p_sz := PGSIZE\<rparr>) s;
         s = s\<lparr>frames := (frames s)(p_tf (procs s p) := first_frame)\<rparr>;
         s = upd_proc p (\<lambda>q. q\<lparr>p_name := safestrcpy (p_name q) (string_bytes ''initcode'') 16\<rparr>) s in
     bindr (namei [slash] s) (\<lambda>(cwd, s).
     let s = upd_proc p (\<lambda>q. q\<lparr>p_cwd := cwd\<rparr>) s in
     bindr (acquire Ptable_lock s) (\<lambda>s.
     bindr (enqueue (Some p) s) (release Ptable_lock))))))))"

definition growproc :: "int \<Rightarrow> kernel \<Rightarrow> (int \<times> kernel) result" where
  "growproc n s =
     bindr (my s) (\<lambda>(p, s).
     let sz = p_sz (procs s p); d = p_pgdir (procs s p) in
     bindr (if n > 0 then bindr (allocuvm d sz (sz + word_of_int n) s) (\<lambda>(r, s). Inr (r, r = 0, s))
            else if n < 0 then bindr (deallocuvm d sz (sz + word_of_int n) s) (\<lambda>(r, s). Inr (r, r = 0, s))
            else Inr (sz, False, s)) (\<lambda>(sz, failed, s).
     if failed then Inr (-1, s)
     else
       let s = upd_proc p (\<lambda>q. q\<lparr>p_sz := sz\<rparr>) s in
       bindr (switchuvm (Some p) s) (\<lambda>s. Inr (0, s))))"

definition dup_files :: "nat \<Rightarrow> nat \<Rightarrow> kernel \<Rightarrow> kernel result" where
  "dup_files parent child s =
     iter (\<lambda>i s. case p_ofile (procs s parent) i of
                   None \<Rightarrow> Inr s
                 | Some f \<Rightarrow> bindr (filedup f s) (\<lambda>(g, s).
                     Inr (upd_proc child (\<lambda>q. q\<lparr>p_ofile := (p_ofile q)(i := Some g)\<rparr>) s)))
       [0..<NOFILE] s"

definition fork :: "kernel \<Rightarrow> (int \<times> kernel) result" where
  "fork s =
     bindr (my s) (\<lambda>(cur, s).
     bindr (allocproc s) (\<lambda>(ptr, s).
     case ptr of
       None \<Rightarrow> Inr (-1, s)
     | Some np \<Rightarrow>
         bindr (cowuvm (p_pgdir (procs s cur)) (p_sz (procs s cur)) s) (\<lambda>(d, s).
         let s = upd_proc np (\<lambda>q. q\<lparr>p_pgdir := d\<rparr>) s in
         if d = 0 then
           bindr (kfree (p_kstack (procs s np)) s) (\<lambda>s.
           Inr (-1, set_state UNUSED np (upd_proc np (\<lambda>q. q\<lparr>p_kstack := 0\<rparr>) s)))
         else
           let s = upd_proc np (\<lambda>q. q\<lparr>p_sz := p_sz (procs s cur), p_parent := Some cur\<rparr>) s;
               fr = frames s (p_tf (procs s cur));
               s = s\<lparr>frames := (frames s)(p_tf (procs s np) := fr\<lparr>tf_eax := 0\<rparr>)\<rparr> in
           bindr (dup_files cur np s) (\<lambda>s.
           bindr (deref (p_cwd (procs s cur))) (\<lambda>cwd.
           bindr (idup cwd s) (\<lambda>(c, s).
           let s = upd_proc np (\<lambda>q. q\<lparr>p_cwd := Some c,
                     p_name := safestrcpy (p_name q) (p_name (procs s cur)) 16\<rparr>) s;
               pid = p_pid (procs s np) in
           bindr (semcopy (Some cur) (Some np) s) (\<lambda>s.
           bindr (acquire Ptable_lock s) (\<lambda>s.
           bindr (enqueue (Some np) s) (\<lambda>s.
           bindr (release Ptable_lock s) (\<lambda>s.
           Inr (pid, s)))))))))))"

definition forkret :: "kernel \<Rightarrow> kernel result" where
  "forkret s =
     bindr (release Ptable_lock s) (\<lambda>s.
     if first_forkret s then
       let s = s\<lparr>first_forkret := False\<rparr> in
       bindr (iinit (sint ROOTDEV) s) (initlog (sint ROOTDEV))
     else Inr s)"

section \<open>Termination\<close>

definition close_files :: "nat \<Rightarrow> kernel \<Rightarrow> kernel result" where
  "close_files p s =
     iter (\<lambda>fd s. case p_ofile (procs s p) fd of
                    None \<Rightarrow> Inr s
                  | Some f \<Rightarrow> bindr (fileclose f s) (\<lambda>s.
                      Inr (upd_proc p (\<lambda>q. q\<lparr>p_ofile := (p_ofile q)(fd := None)\<rparr>) s)))
       [0..<NOFILE] s"

definition proc_chan :: "nat option \<Rightarrow> chan option" where
  "proc_chan p = map_option Chan_proc p"

definition reparent :: "nat \<Rightarrow> kernel \<Rightarrow> kernel result" where
  "reparent cur s =
     iter (\<lambda>p s. if p_parent (procs s p) = Some cur then
                    let s = upd_proc p (\<lambda>q. q\<lparr>p_parent := initproc s\<rparr>) s in
                    if p_state (procs s p) = ZOMBIE then wakeup1 (proc_chan (initproc s)) s else Inr s
                  else Inr s)
       [0..<NPROC] s"

text \<open>\<^verbatim>\<open>exit\<close> ends in \<^verbatim>\<open>sched\<close>; it panics if it is ever resumed.\<close>

definition exit_enter :: "kernel \<Rightarrow> (bool \<times> kernel) result" where
  "exit_enter s =
     bindr (myproc s) (\<lambda>(ptr, s).
     bindr (panic_if (ptr = initproc s) ''init exiting'') (\<lambda>_.
     bindr (deref ptr) (\<lambda>cur.
     bindr (close_files cur s) (\<lambda>s.
     bindr (begin_op s) (\<lambda>s.
     bindr (deref (p_cwd (procs s cur))) (\<lambda>cwd.
     bindr (iput cwd s) (\<lambda>s.
     bindr (end_op s) (\<lambda>s.
     let s = upd_proc cur (\<lambda>q. q\<lparr>p_cwd := None\<rparr>) s in
     bindr (acquire Ptable_lock s) (\<lambda>s.
     bindr (wakeup1 (proc_chan (p_parent (procs s cur))) s) (\<lambda>s.
     bindr (reparent cur s) (\<lambda>s.
     sched_enter (set_state ZOMBIE cur s))))))))))))"

text \<open>One scan of \<^verbatim>\<open>wait\<close> with \<^verbatim>\<open>ptable.lock\<close> held.\<close>

definition reap :: "nat \<Rightarrow> kernel \<Rightarrow> (wait \<times> kernel) result" where
  "reap p s =
     (let pid = p_pid (procs s p) in
      bindr (kfree (p_kstack (procs s p)) s) (\<lambda>s.
      let s = upd_proc p (\<lambda>q. q\<lparr>p_kstack := 0\<rparr>) s in
      bindr (freevm (p_pgdir (procs s p)) s) (\<lambda>s.
      let s = upd_proc p (\<lambda>q. q\<lparr>p_pid := 0, p_parent := None, p_name := (p_name q)(0 := 0), p_killed := False\<rparr>) s;
          s = set_state UNUSED p s in
      bindr (release Ptable_lock s) (\<lambda>s. Inr (Returns pid, s)))))"

definition wait_pass :: "nat \<Rightarrow> kernel \<Rightarrow> (wait \<times> kernel) result" where
  "wait_pass cur s =
     (let kids = filter (\<lambda>p. p_parent (procs s p) = Some cur) [0..<NPROC] in
      case find (\<lambda>p. p_state (procs s p) = ZOMBIE) kids of
        Some p \<Rightarrow> reap p s
      | None \<Rightarrow>
          if kids = [] \<or> p_killed (procs s cur)
          then bindr (release Ptable_lock s) (\<lambda>s. Inr (Returns (-1), s))
          else bindr (sleep_enter (Some (Chan_proc cur)) (Some Ptable_lock) s) (\<lambda>(b, s). Inr (Sleeps b, s)))"

definition wait_enter :: "kernel \<Rightarrow> (wait \<times> kernel) result" where
  "wait_enter s = bindr (my s) (\<lambda>(cur, s). bindr (acquire Ptable_lock s) (wait_pass cur))"

definition wait_again :: "nat \<Rightarrow> bool \<Rightarrow> kernel \<Rightarrow> (wait \<times> kernel) result" where
  "wait_again cur intena s = bindr (sleep_exit cur Ptable_lock intena s) (wait_pass cur)"

section \<open>Listings\<close>

primrec dump_state :: "procstate \<Rightarrow> string" where
  "dump_state UNUSED = ''unused''"
| "dump_state EMBRYO = ''embryo''"
| "dump_state SLEEPING = ''sleep ''"
| "dump_state RUNNABLE = ''runble''"
| "dump_state RUNNING = ''run   ''"
| "dump_state ZOMBIE = ''zombie''"

primrec stat_state :: "procstate \<Rightarrow> string" where
  "stat_state UNUSED = ''unused  ''"
| "stat_state EMBRYO = ''embryo  ''"
| "stat_state SLEEPING = ''sleep   ''"
| "stat_state RUNNABLE = ''RUNNABLE''"
| "stat_state RUNNING = ''running ''"
| "stat_state ZOMBIE = ''zombie  ''"

definition pid_arg :: "proc \<Rightarrow> carg" where
  "pid_arg q = Cword (word_of_int (p_pid q))"

definition name_arg :: "proc \<Rightarrow> carg" where
  "name_arg q = Cstr (Some (name_chars q))"

definition procdump :: "kernel \<Rightarrow> kernel result" where
  "procdump s =
     iter (\<lambda>p s.
       let q = procs s p in
       if p_state q = UNUSED then Inr s
       else
         bindr (cprintf ''%d %s %s'' [pid_arg q, Cstr (Some (chars (dump_state (p_state q)))), name_arg q] s) (\<lambda>s.
         bindr (if p_state q = SLEEPING then
                  let pc = getcallerpcs (\<lambda>a. getw a s) (getw (p_context q + 12) s + 8) in
                  iter (\<lambda>w. cprintf '' %p'' [Cword w]) (takeWhile (\<lambda>w. w \<noteq> 0) pc) s
                else Inr s)
           (cprintf ''\<newline>'' [])))
       [0..<NPROC] s"

definition procstat :: "kernel \<Rightarrow> (int \<times> kernel) result" where
  "procstat s =
     bindr (iter (\<lambda>p s.
       let q = procs s p in
       if p_state q = UNUSED then Inr s
       else cprintf ''- %d   %s   %s   level: %d \<newline>''
              [pid_arg q, Cstr (Some (chars (stat_state (p_state q)))), name_arg q, Cword (word_of_int (p_nice q))] s)
       [0..<NPROC] s) (\<lambda>s.
     bindr (cprintf ''\<newline>'' [] s) (\<lambda>s. Inr (0, s)))"

fun print_procs :: "nat \<Rightarrow> nat option \<Rightarrow> kernel \<Rightarrow> kernel result" where
  "print_procs n None s = Inr s"
| "print_procs 0 (Some p) s = Inl Out_Of_Fuel"
| "print_procs (Suc n) (Some p) s =
     (let q = procs s p in
      bindr (cprintf ''            > %d   %s   %s \<newline>''
               [pid_arg q, Cstr (Some (chars (stat_state (p_state q)))), name_arg q] s) (\<lambda>s.
      print_procs n (p_next (procs s p)) s))"

definition printlevel :: "int \<Rightarrow> kernel \<Rightarrow> kernel result" where
  "printlevel l s =
     bindr (isempty l s) (\<lambda>e.
     if \<not> e then
       bindr (cprintf '' LEVEL %d: \<newline>'' [Cword (word_of_int l)] s) (\<lambda>s.
       print_procs NPROC (lv_head (levels s (nat l))) s)
     else cprintf '' LEVEL %d: EMPTY\<newline>'' [Cword (word_of_int l)] s)"

definition plevelstat :: "kernel \<Rightarrow> kernel result" where
  "plevelstat s =
     bindr (cprintf ''\<newline>----------- BEGIN: List processes ----------\<newline>\<newline>'' [] s) (\<lambda>s.
     bindr (acquire Ptable_lock s) (\<lambda>s.
     bindr (procstat s) (\<lambda>(_, s).
     bindr (cprintf ''\<newline> ===========  Priority table  ===========\<newline>'' [] s) (\<lambda>s.
     bindr (iter (\<lambda>i s. bindr (cprintf ''\<newline>'' [] s) (printlevel i)) [0..PLEVELS - 1] s) (\<lambda>s.
     bindr (release Ptable_lock s)
       (cprintf ''\<newline>----------- END: List processes ----------\<newline>'' []))))))"

end
