(* ===== verification/Exec.thy ===== *)
theory Exec
  imports Proc
begin

text \<open>
  Loading a program (\<^verbatim>\<open>exec.c\<close>, \<^verbatim>\<open>elf.h\<close>, and \<^verbatim>\<open>loaduvm\<close> of \<^verbatim>\<open>vm.c\<close>). The argument strings
  are given by their user addresses; they are read before the old address space goes.
\<close>

section \<open>Segments\<close>

fun loaduvm_loop :: "nat \<Rightarrow> uint \<Rightarrow> uint \<Rightarrow> nat \<Rightarrow> uint \<Rightarrow> uint \<Rightarrow> uint \<Rightarrow> kernel \<Rightarrow> (int \<times> kernel) result" where
  "loaduvm_loop k pgdir addr ip off i sz s =
     (if i < sz then
        (case k of 0 \<Rightarrow> Inl Out_Of_Fuel
         | Suc k \<Rightarrow>
             bindr (walkpgdir pgdir (addr + i) False s) (\<lambda>(pte, s).
             bindr (panic_if (pte = 0) ''loaduvm: address should exist'') (\<lambda>_.
             let pa = PTE_ADDR (getw pte s); n = (if sz - i < PGSIZE then sz - i else PGSIZE) in
             bindr (readi ip (Kva (P2V pa)) (off + i) n s) (\<lambda>((r, _), s).
             if word_of_int r \<noteq> n then Inr (-1, s)
             else loaduvm_loop k pgdir addr ip off (i + PGSIZE) sz s))))
      else Inr (0, s))"

declare loaduvm_loop.simps [simp del]

definition loaduvm :: "uint \<Rightarrow> uint \<Rightarrow> nat \<Rightarrow> uint \<Rightarrow> uint \<Rightarrow> kernel \<Rightarrow> (int \<times> kernel) result" where
  "loaduvm pgdir addr ip off sz s =
     bindr (panic_if (addr mod PGSIZE \<noteq> 0) ''loaduvm: addr must be page aligned'') (\<lambda>_.
     loaduvm_loop (2 ^ 20) pgdir addr ip off 0 sz s)"

text \<open>Fields of the ELF file header and of a program header, from their bytes.\<close>

definition word_at :: "uchar list \<Rightarrow> nat \<Rightarrow> uint" where
  "word_at bs i = word_of (bs ! i) (bs ! (i + 1)) (bs ! (i + 2)) (bs ! (i + 3))"

definition ELF_MAGIC :: uint where [simp]: "ELF_MAGIC = 0x464C457F"
definition ELF_PROG_LOAD :: uint where [simp]: "ELF_PROG_LOAD = 1"

record elfhdr =
  eh_magic :: uint
  eh_entry :: uint
  eh_phoff :: uint
  eh_phnum :: ushort

record proghdr =
  ph_type :: uint
  ph_off :: uint
  ph_vaddr :: uint
  ph_filesz :: uint
  ph_memsz :: uint

definition elf_of :: "uchar list \<Rightarrow> elfhdr" where
  "elf_of bs = \<lparr>eh_magic = word_at bs 0, eh_entry = word_at bs 24, eh_phoff = word_at bs 28,
                eh_phnum = ucast (bs ! 44) OR push_bit 8 (ucast (bs ! 45))\<rparr>"

definition ph_of :: "uchar list \<Rightarrow> proghdr" where
  "ph_of bs = \<lparr>ph_type = word_at bs 0, ph_off = word_at bs 4, ph_vaddr = word_at bs 8, ph_filesz = word_at bs 16,
               ph_memsz = word_at bs 20\<rparr>"

text \<open>The loop over the program headers; \<open>None\<close> is the jump to \<^verbatim>\<open>bad\<close>.\<close>

fun load_segments :: "nat \<Rightarrow> nat \<Rightarrow> uint \<Rightarrow> uint \<Rightarrow> uint \<Rightarrow> kernel \<Rightarrow> (uint option \<times> kernel) result" where
  "load_segments 0 ip pgdir off sz s = Inr (Some sz, s)"
| "load_segments (Suc k) ip pgdir off sz s =
     bindr (readi ip (Local (\<lambda>_. 0)) off 32 s) (\<lambda>((r, bs), s).
     if r \<noteq> 32 then Inr (None, s)
     else
       let ph = ph_of bs in
       if ph_type ph \<noteq> ELF_PROG_LOAD then load_segments k ip pgdir (off + 32) sz s
       else if ph_memsz ph < ph_filesz ph then Inr (None, s)
       else if ph_vaddr ph + ph_memsz ph < ph_vaddr ph then Inr (None, s)
       else
         bindr (allocuvm pgdir sz (ph_vaddr ph + ph_memsz ph) s) (\<lambda>(sz, s).
         if sz = 0 then Inr (None, s)
         else if ph_vaddr ph mod PGSIZE \<noteq> 0 then Inr (None, s)
         else
           bindr (loaduvm pgdir (ph_vaddr ph) ip (ph_off ph) (ph_filesz ph) s) (\<lambda>(r, s).
           if r < 0 then Inr (None, s)
           else load_segments k ip pgdir (off + 32) sz s)))"

section \<open>Arguments\<close>

text \<open>A NUL-terminated string of the calling process, without its end.\<close>

fun user_string :: "nat \<Rightarrow> uint \<Rightarrow> kernel \<Rightarrow> (uchar list \<times> kernel) result" where
  "user_string 0 a s = Inl Out_Of_Fuel"
| "user_string (Suc k) a s =
     bindr (load_user a s) (\<lambda>(c, s).
     if c = 0 then Inr ([], s)
     else bindr (user_string k (a + 1) s) (\<lambda>(cs, s). Inr (c # cs, s)))"

text \<open>
  The loop over \<^verbatim>\<open>argv\<close>: each string goes to the new stack, its address into \<^verbatim>\<open>ustack\<close>.
\<close>

fun push_args :: "uint \<Rightarrow> uint list \<Rightarrow> nat \<Rightarrow> uint \<Rightarrow> uint list \<Rightarrow> kernel \<Rightarrow> ((uint \<times> uint list) option \<times> kernel) result" where
  "push_args pgdir [] argc sp ustack s = Inr (Some (sp, ustack), s)"
| "push_args pgdir (a # argv) argc sp ustack s =
     (if argc \<ge> MAXARG then Inr (None, s)
      else
        bindr (user_string (2 ^ 31) a s) (\<lambda>(str, s).
        let sp = (sp - (of_nat (length str) + 1)) AND NOT 3 in
        bindr (copyout pgdir sp (name_bytes str) (of_nat (length str) + 1) s) (\<lambda>(r, s).
        if r < 0 then Inr (None, s)
        else push_args pgdir argv (argc + 1) sp (ustack @ [sp]) s)))"

definition words_bytes :: "uint list \<Rightarrow> bytes" where
  "words_bytes ws i = byte_of (i mod 4) (ws ! (i div 4))"

text \<open>The name after the last slash of a path.\<close>

definition base_name :: "uchar list \<Rightarrow> uchar list" where
  "base_name path = rev (takeWhile (\<lambda>c. c \<noteq> slash) (rev path))"

section \<open>\<^verbatim>\<open>exec\<close>\<close>

definition exec_bad :: "uint \<Rightarrow> nat option \<Rightarrow> kernel \<Rightarrow> (int \<times> kernel) result" where
  "exec_bad pgdir ip s =
     bindr (if pgdir \<noteq> 0 then freevm pgdir s else Inr s) (\<lambda>s.
     bindr (case ip of None \<Rightarrow> Inr s | Some i \<Rightarrow> bindr (iunlockput i s) end_op) (\<lambda>s.
     Inr (-1, s)))"

text \<open>The second half: the user stack, and the switch to the new image.\<close>

definition exec_stack :: "uchar list \<Rightarrow> uint list \<Rightarrow> uint \<Rightarrow> uint \<Rightarrow> uint \<Rightarrow> nat \<Rightarrow> kernel \<Rightarrow> (int \<times> kernel) result" where
  "exec_stack path argv pgdir sz eip cur s =
     (let sz = PGROUNDUP sz in
      bindr (allocuvm pgdir sz (sz + 2 * PGSIZE) s) (\<lambda>(sz, s).
      if sz = 0 then exec_bad pgdir None s
      else
        bindr (clearpteu pgdir (sz - 2 * PGSIZE) s) (\<lambda>s.
        bindr (push_args pgdir argv 0 sz [] s) (\<lambda>(r, s).
        case r of
          None \<Rightarrow> exec_bad pgdir None s
        | Some (sp, ustack) \<Rightarrow>
            let argc = of_nat (length ustack);
                ws = [0xffffffff, argc, sp - (argc + 1) * 4] @ ustack @ [0];
                sp = sp - (3 + argc + 1) * 4 in
            bindr (copyout pgdir sp (words_bytes ws) ((3 + argc + 1) * 4) s) (\<lambda>(r, s).
            if r < 0 then exec_bad pgdir None s
            else
              let s = upd_proc cur (\<lambda>q. q\<lparr>p_name := safestrcpy (p_name q) (name_bytes (base_name path)) 16\<rparr>) s;
                  oldpgdir = p_pgdir (procs s cur);
                  s = upd_proc cur (\<lambda>q. q\<lparr>p_pgdir := pgdir, p_sz := sz\<rparr>) s;
                  tf = p_tf (procs s cur);
                  s = s\<lparr>frames := (frames s)(tf := (frames s tf)\<lparr>tf_eip := eip, tf_esp := sp\<rparr>)\<rparr> in
              bindr (switchuvm (Some cur) s) (\<lambda>s.
              bindr (freevm oldpgdir s) (\<lambda>s.
              Inr (0, s))))))))"

definition exec :: "uchar list \<Rightarrow> uint list \<Rightarrow> kernel \<Rightarrow> (int \<times> kernel) result" where
  "exec path argv s =
     bindr (my s) (\<lambda>(cur, s).
     bindr (begin_op s) (\<lambda>s.
     bindr (namei path s) (\<lambda>(r, s).
     case r of
       None \<Rightarrow>
         bindr (end_op s) (\<lambda>s.
         bindr (cprintf ''exec: fail\<newline>'' [] s) (\<lambda>s.
         Inr (-1, s)))
     | Some ip \<Rightarrow>
         bindr (ilock (Some ip) s) (\<lambda>s.
         bindr (readi ip (Local (\<lambda>_. 0)) 0 52 s) (\<lambda>((n, bs), s).
         if n \<noteq> 52 then exec_bad 0 (Some ip) s
         else
           let elf = elf_of bs in
           if eh_magic elf \<noteq> ELF_MAGIC then exec_bad 0 (Some ip) s
           else
             bindr (setupkvm s) (\<lambda>(pgdir, s).
             if pgdir = 0 then exec_bad 0 (Some ip) s
             else
               bindr (load_segments (unat (eh_phnum elf)) ip pgdir (eh_phoff elf) 0 s) (\<lambda>(r, s).
               case r of
                 None \<Rightarrow> exec_bad pgdir (Some ip) s
               | Some sz \<Rightarrow>
                   bindr (iunlockput ip s) (\<lambda>s.
                   bindr (end_op s) (\<lambda>s.
                   exec_stack path argv pgdir sz (eh_entry elf) cur s)))))))))"

end
