(* ===== verification/Syscall.thy ===== *)
theory Syscall
  imports Exec
begin

text \<open>
  System calls: argument fetching and dispatch (\<^verbatim>\<open>syscall.c\<close>) and the calls on processes,
  scheduling and semaphores (\<^verbatim>\<open>sysproc.c\<close>). A call returns a value or leaves the CPU; a
  fetched argument is an option, \<open>None\<close> standing for the error return -1.
\<close>

section \<open>Arguments\<close>

definition fetchint :: "uint \<Rightarrow> kernel \<Rightarrow> (int option \<times> kernel) result" where
  "fetchint addr s =
     bindr (my s) (\<lambda>(cur, s).
     if addr \<ge> p_sz (procs s cur) \<or> addr + 4 > p_sz (procs s cur) then Inr (None, s)
     else bindr (load_user32 addr s) (\<lambda>(w, s). Inr (Some (sint w), s)))"

fun fetchstr_loop :: "nat \<Rightarrow> uint \<Rightarrow> uint \<Rightarrow> kernel \<Rightarrow> (uchar list option \<times> kernel) result" where
  "fetchstr_loop k a ep s =
     (if a < ep then
        (case k of 0 \<Rightarrow> Inl Out_Of_Fuel
         | Suc k \<Rightarrow>
             bindr (load_user a s) (\<lambda>(c, s).
             if c = 0 then Inr (Some [], s)
             else bindr (fetchstr_loop k (a + 1) ep s) (\<lambda>(r, s). Inr (map_option ((#) c) r, s))))
      else Inr (None, s))"

declare fetchstr_loop.simps [simp del]

text \<open>The string itself stands for the pointer to it.\<close>

definition fetchstr :: "uint \<Rightarrow> kernel \<Rightarrow> (uchar list option \<times> kernel) result" where
  "fetchstr addr s =
     bindr (my s) (\<lambda>(cur, s).
     if addr \<ge> p_sz (procs s cur) then Inr (None, s)
     else fetchstr_loop (2 ^ 32) addr (p_sz (procs s cur)) s)"

definition argint :: "nat \<Rightarrow> kernel \<Rightarrow> (int option \<times> kernel) result" where
  "argint n s =
     bindr (my s) (\<lambda>(cur, s).
     fetchint (tf_esp (frames s (p_tf (procs s cur))) + 4 + 4 * of_nat n) s)"

definition argptr :: "nat \<Rightarrow> int \<Rightarrow> kernel \<Rightarrow> (uint option \<times> kernel) result" where
  "argptr n size' s =
     bindr (my s) (\<lambda>(cur, s).
     bindr (argint n s) (\<lambda>(r, s).
     case r of
       None \<Rightarrow> Inr (None, s)
     | Some i \<Rightarrow>
         let i = word_of_int i; sz = p_sz (procs s cur) in
         Inr (if size' < 0 \<or> i \<ge> sz \<or> i + word_of_int size' > sz then None else Some i, s)))"

definition argstr :: "nat \<Rightarrow> kernel \<Rightarrow> (uchar list option \<times> kernel) result" where
  "argstr n s =
     bindr (argint n s) (\<lambda>(r, s).
     case r of None \<Rightarrow> Inr (None, s) | Some addr \<Rightarrow> fetchstr (word_of_int addr) s)"

text \<open>An argument whose error return the caller ignores.\<close>

definition argint_unchecked :: "nat \<Rightarrow> kernel \<Rightarrow> (int \<times> kernel) result" where
  "argint_unchecked n s =
     bindr (argint n s) (\<lambda>(r, s). case r of None \<Rightarrow> Inl Uninit | Some i \<Rightarrow> Inr (i, s))"

section \<open>Processes\<close>

definition returns :: "(int \<times> kernel) result \<Rightarrow> (wait \<times> kernel) result" where
  "returns m = bindr m (\<lambda>(r, s). Inr (Returns r, s))"

definition sys_fork :: "kernel \<Rightarrow> (wait \<times> kernel) result" where
  "sys_fork s = returns (fork s)"

definition sys_exit :: "kernel \<Rightarrow> (wait \<times> kernel) result" where
  "sys_exit s = bindr (exit_enter s) (\<lambda>(b, s). Inr (Sleeps b, s))"

definition sys_wait :: "kernel \<Rightarrow> (wait \<times> kernel) result" where
  "sys_wait s = wait_enter s"

definition sys_kill :: "kernel \<Rightarrow> (wait \<times> kernel) result" where
  "sys_kill s =
     bindr (argint 0 s) (\<lambda>(r, s).
     case r of None \<Rightarrow> Inr (Returns (-1), s) | Some pid \<Rightarrow> returns (kill pid s))"

definition sys_getpid :: "kernel \<Rightarrow> (wait \<times> kernel) result" where
  "sys_getpid s = bindr (my s) (\<lambda>(p, s). Inr (Returns (p_pid (procs s p)), s))"

definition sys_sbrk :: "kernel \<Rightarrow> (wait \<times> kernel) result" where
  "sys_sbrk s =
     bindr (argint 0 s) (\<lambda>(r, s).
     case r of
       None \<Rightarrow> Inr (Returns (-1), s)
     | Some n \<Rightarrow>
         bindr (my s) (\<lambda>(p, s).
         let addr = sint (p_sz (procs s p)) in
         bindr (growproc n s) (\<lambda>(g, s).
         Inr (Returns (if g < 0 then -1 else addr), s))))"

definition sys_sleep_pass :: "int \<Rightarrow> uint \<Rightarrow> kernel \<Rightarrow> (wait \<times> kernel) result" where
  "sys_sleep_pass n ticks0 s =
     (if ticks s - ticks0 < word_of_int n then
        bindr (my s) (\<lambda>(p, s).
        if p_killed (procs s p) then bindr (release Tickslock s) (\<lambda>s. Inr (Returns (-1), s))
        else bindr (sleep_enter (Some Chan_ticks) (Some Tickslock) s) (\<lambda>(b, s). Inr (Sleeps b, s)))
      else bindr (release Tickslock s) (\<lambda>s. Inr (Returns 0, s)))"

definition sys_sleep :: "kernel \<Rightarrow> (wait \<times> kernel) result" where
  "sys_sleep s =
     bindr (argint 0 s) (\<lambda>(r, s).
     case r of
       None \<Rightarrow> Inr (Returns (-1), s)
     | Some n \<Rightarrow> bindr (acquire Tickslock s) (\<lambda>s. sys_sleep_pass n (ticks s) s))"

definition sys_sleep_again :: "int \<Rightarrow> uint \<Rightarrow> nat \<Rightarrow> bool \<Rightarrow> kernel \<Rightarrow> (wait \<times> kernel) result" where
  "sys_sleep_again n ticks0 p intena s =
     bindr (sleep_exit p Tickslock intena s) (sys_sleep_pass n ticks0)"

definition sys_uptime :: "kernel \<Rightarrow> (wait \<times> kernel) result" where
  "sys_uptime s =
     bindr (acquire Tickslock s) (\<lambda>s.
     let xticks = ticks s in
     bindr (release Tickslock s) (\<lambda>s. Inr (Returns (sint xticks), s)))"

definition sys_procstat :: "kernel \<Rightarrow> (wait \<times> kernel) result" where
  "sys_procstat s = returns (procstat s)"

definition sys_plevelstat :: "kernel \<Rightarrow> (wait \<times> kernel) result" where
  "sys_plevelstat s = bindr (plevelstat s) (\<lambda>s. Inr (Returns 0, s))"

definition sys_nice :: "kernel \<Rightarrow> (wait \<times> kernel) result" where
  "sys_nice s = bindr (argint_unchecked 0 s) (\<lambda>(inc, s). returns (nice inc s))"

definition sys_semget :: "kernel \<Rightarrow> (wait \<times> kernel) result" where
  "sys_semget s =
     bindr (argint_unchecked 0 s) (\<lambda>(key, s).
     bindr (argint_unchecked 1 s) (\<lambda>(initvalue, s).
     returns (semget key initvalue s)))"

definition sys_semfree :: "kernel \<Rightarrow> (wait \<times> kernel) result" where
  "sys_semfree s = bindr (argint_unchecked 0 s) (\<lambda>(key, s). returns (semfree key s))"

definition sys_semdown :: "kernel \<Rightarrow> (wait \<times> kernel) result" where
  "sys_semdown s = bindr (argint_unchecked 0 s) (\<lambda>(key, s). semdown key s)"

definition sys_semup :: "kernel \<Rightarrow> (wait \<times> kernel) result" where
  "sys_semup s = bindr (argint_unchecked 0 s) (\<lambda>(key, s). returns (semup key s))"

end
