(* ===== verification/Sysfile.thy ===== *)
theory Sysfile
  imports Syscall
begin

text \<open>
  The system calls on files (\<^verbatim>\<open>sysfile.c\<close>). Every path ends its transaction: the helper
  \<open>op_end\<close> is \<^verbatim>\<open>end_op(); return r;\<close>.
\<close>

section \<open>Descriptors\<close>

definition argfd :: "nat \<Rightarrow> kernel \<Rightarrow> ((nat \<times> nat) option \<times> kernel) result" where
  "argfd n s =
     bindr (argint n s) (\<lambda>(r, s).
     case r of
       None \<Rightarrow> Inr (None, s)
     | Some fd \<Rightarrow>
         if fd < 0 \<or> fd \<ge> int NOFILE then Inr (None, s)
         else
           bindr (my s) (\<lambda>(p, s).
           Inr (map_option (\<lambda>f. (nat fd, f)) (p_ofile (procs s p) (nat fd)), s)))"

definition fdalloc :: "nat \<Rightarrow> kernel \<Rightarrow> (int \<times> kernel) result" where
  "fdalloc f s =
     bindr (my s) (\<lambda>(p, s).
     case find (\<lambda>fd. p_ofile (procs s p) fd = None) [0..<NOFILE] of
       Some fd \<Rightarrow> Inr (int fd, upd_proc p (\<lambda>q. q\<lparr>p_ofile := (p_ofile q)(fd := Some f)\<rparr>) s)
     | None \<Rightarrow> Inr (-1, s))"

definition fail :: "kernel \<Rightarrow> (int \<times> kernel) result" where
  "fail s = Inr (-1, s)"

definition op_end :: "int \<Rightarrow> kernel \<Rightarrow> (int \<times> kernel) result" where
  "op_end r s = bindr (end_op s) (\<lambda>s. Inr (r, s))"

definition sys_dup :: "kernel \<Rightarrow> (int \<times> kernel) result" where
  "sys_dup s =
     bindr (argfd 0 s) (\<lambda>(r, s).
     case r of
       None \<Rightarrow> fail s
     | Some (_, f) \<Rightarrow>
         bindr (fdalloc f s) (\<lambda>(fd, s).
         if fd < 0 then fail s else bindr (filedup f s) (\<lambda>(_, s). Inr (fd, s))))"

text \<open>The arguments of \<^verbatim>\<open>read\<close> and \<^verbatim>\<open>write\<close>: file, address and length, in that order of checks.\<close>

definition arg_rw :: "kernel \<Rightarrow> ((nat \<times> uint \<times> int) option \<times> kernel) result" where
  "arg_rw s =
     bindr (argfd 0 s) (\<lambda>(r, s).
     case r of
       None \<Rightarrow> Inr (None, s)
     | Some (_, f) \<Rightarrow>
         bindr (argint 2 s) (\<lambda>(r, s).
         case r of
           None \<Rightarrow> Inr (None, s)
         | Some n \<Rightarrow>
             bindr (argptr 1 n s) (\<lambda>(r, s).
             Inr (map_option (\<lambda>p. (f, p, n)) r, s))))"

definition sys_read :: "kernel \<Rightarrow> (int \<times> kernel) result" where
  "sys_read s =
     bindr (arg_rw s) (\<lambda>(r, s). case r of None \<Rightarrow> fail s | Some (f, p, n) \<Rightarrow> fileread f (Uva p) n s)"

definition sys_write :: "kernel \<Rightarrow> (int \<times> kernel) result" where
  "sys_write s =
     bindr (arg_rw s) (\<lambda>(r, s). case r of None \<Rightarrow> fail s | Some (f, p, n) \<Rightarrow> filewrite f (Uva p) n s)"

definition sys_close :: "kernel \<Rightarrow> (int \<times> kernel) result" where
  "sys_close s =
     bindr (argfd 0 s) (\<lambda>(r, s).
     case r of
       None \<Rightarrow> fail s
     | Some (fd, f) \<Rightarrow>
         bindr (my s) (\<lambda>(p, s).
         let s = upd_proc p (\<lambda>q. q\<lparr>p_ofile := (p_ofile q)(fd := None)\<rparr>) s in
         bindr (fileclose f s) (\<lambda>s. Inr (0, s))))"

definition sys_fstat :: "kernel \<Rightarrow> (int \<times> kernel) result" where
  "sys_fstat s =
     bindr (argfd 0 s) (\<lambda>(r, s).
     case r of
       None \<Rightarrow> fail s
     | Some (_, f) \<Rightarrow>
         bindr (argptr 1 20 s) (\<lambda>(r, s).
         case r of None \<Rightarrow> fail s | Some st \<Rightarrow> filestat f st s))"

section \<open>Links\<close>

definition add_link :: "nat \<Rightarrow> ushort \<Rightarrow> kernel \<Rightarrow> kernel" where
  "add_link i d s = upd_inode i (\<lambda>ip. ip\<lparr>ip_nlink := ip_nlink ip + d\<rparr>) s"

definition link_bad :: "nat \<Rightarrow> kernel \<Rightarrow> (int \<times> kernel) result" where
  "link_bad ip s =
     bindr (ilock (Some ip) s) (\<lambda>s.
     bindr (iupdate ip (add_link ip (-1) s)) (\<lambda>s.
     bindr (iunlockput ip s) (op_end (-1))))"

definition sys_link :: "kernel \<Rightarrow> (int \<times> kernel) result" where
  "sys_link s =
     bindr (argstr 0 s) (\<lambda>(old, s).
     case old of None \<Rightarrow> fail s | Some old \<Rightarrow>
     bindr (argstr 1 s) (\<lambda>(new, s).
     case new of None \<Rightarrow> fail s | Some new \<Rightarrow>
     bindr (begin_op s) (\<lambda>s.
     bindr (namei old s) (\<lambda>(r, s).
     case r of None \<Rightarrow> op_end (-1) s | Some ip \<Rightarrow>
     bindr (ilock (Some ip) s) (\<lambda>s.
     if ip_type (icache s ip) = T_DIR then bindr (iunlockput ip s) (op_end (-1))
     else
       bindr (iupdate ip (add_link ip 1 s)) (\<lambda>s.
       bindr (iunlock (Some ip) s) (\<lambda>s.
       bindr (nameiparent new s) (\<lambda>(r, s).
       case r of None \<Rightarrow> link_bad ip s | Some (dp, name) \<Rightarrow>
       bindr (ilock (Some dp) s) (\<lambda>s.
       bindr (if ip_dev (icache s dp) \<noteq> ip_dev (icache s ip) then Inr (-1, s)
              else dirlink dp (name_bytes name) (ip_inum (icache s ip)) s) (\<lambda>(r, s).
       bindr (iunlockput dp s) (\<lambda>s.
       if r < 0 then link_bad ip s
       else bindr (iput ip s) (op_end 0))))))))))))"

fun isdirempty_loop :: "nat \<Rightarrow> nat \<Rightarrow> uint \<Rightarrow> kernel \<Rightarrow> (bool \<times> kernel) result" where
  "isdirempty_loop k dp off s =
     (if off < ip_size (icache s dp) then
        (case k of 0 \<Rightarrow> Inl Out_Of_Fuel
         | Suc k \<Rightarrow>
             bindr (read_dirent dp off ''isdirempty: readi'' s) (\<lambda>(de, s).
             if de_inum de \<noteq> 0 then Inr (False, s) else isdirempty_loop k dp (off + de_size) s))
      else Inr (True, s))"

declare isdirempty_loop.simps [simp del]

definition isdirempty :: "nat \<Rightarrow> kernel \<Rightarrow> (bool \<times> kernel) result" where
  "isdirempty dp s = isdirempty_loop (2 ^ 28) dp (2 * de_size) s"

definition unlink_bad :: "nat \<Rightarrow> kernel \<Rightarrow> (int \<times> kernel) result" where
  "unlink_bad dp s = bindr (iunlockput dp s) (op_end (-1))"

definition sys_unlink :: "kernel \<Rightarrow> (int \<times> kernel) result" where
  "sys_unlink s =
     bindr (argstr 0 s) (\<lambda>(path, s).
     case path of None \<Rightarrow> fail s | Some path \<Rightarrow>
     bindr (begin_op s) (\<lambda>s.
     bindr (nameiparent path s) (\<lambda>(r, s).
     case r of None \<Rightarrow> op_end (-1) s | Some (dp, name) \<Rightarrow>
     bindr (ilock (Some dp) s) (\<lambda>s.
     if namecmp (name_bytes name) (string_bytes ''.'') = 0 \<or> namecmp (name_bytes name) (string_bytes ''..'') = 0
     then unlink_bad dp s
     else
       bindr (dirlookup dp (name_bytes name) s) (\<lambda>(r, s).
       case r of None \<Rightarrow> unlink_bad dp s | Some (ip, off) \<Rightarrow>
       bindr (ilock (Some ip) s) (\<lambda>s.
       bindr (panic_if (sint (ip_nlink (icache s ip)) < 1) ''unlink: nlink < 1'') (\<lambda>_.
       bindr (if ip_type (icache s ip) = T_DIR then isdirempty ip s else Inr (True, s)) (\<lambda>(empty, s).
       if \<not> empty then bindr (iunlockput ip s) (unlink_bad dp)
       else
         bindr (writei dp (Local (\<lambda>_. 0)) off de_size s) (\<lambda>(r, s).
         bindr (panic_if (r \<noteq> 16) ''unlink: writei'') (\<lambda>_.
         bindr (if ip_type (icache s ip) = T_DIR then iupdate dp (add_link dp (-1) s) else Inr s) (\<lambda>s.
         bindr (iunlockput dp s) (\<lambda>s.
         bindr (iupdate ip (add_link ip (-1) s)) (\<lambda>s.
         bindr (iunlockput ip s) (op_end 0))))))))))))))"

section \<open>Creation and opening\<close>

definition create :: "uchar list \<Rightarrow> ushort \<Rightarrow> ushort \<Rightarrow> ushort \<Rightarrow> kernel \<Rightarrow> (nat option \<times> kernel) result" where
  "create path type major minor s =
     bindr (nameiparent path s) (\<lambda>(r, s).
     case r of None \<Rightarrow> Inr (None, s) | Some (dp, name) \<Rightarrow>
     bindr (ilock (Some dp) s) (\<lambda>s.
     bindr (dirlookup dp (name_bytes name) s) (\<lambda>(r, s).
     case r of
       Some (ip, _) \<Rightarrow>
         bindr (iunlockput dp s) (\<lambda>s.
         bindr (ilock (Some ip) s) (\<lambda>s.
         if type = T_FILE \<and> ip_type (icache s ip) = T_FILE then Inr (Some ip, s)
         else bindr (iunlockput ip s) (\<lambda>s. Inr (None, s))))
     | None \<Rightarrow>
         bindr (ialloc (ip_dev (icache s dp)) type s) (\<lambda>(ip, s).
         bindr (ilock (Some ip) s) (\<lambda>s.
         let s = upd_inode ip (\<lambda>i. i\<lparr>ip_major := major, ip_minor := minor, ip_nlink := 1\<rparr>) s in
         bindr (iupdate ip s) (\<lambda>s.
         bindr (if type = T_DIR then
                  bindr (iupdate dp (add_link dp 1 s)) (\<lambda>s.
                  bindr (dirlink ip (string_bytes ''.'') (ip_inum (icache s ip)) s) (\<lambda>(r, s).
                  bindr (panic_if (r < 0) ''create dots'') (\<lambda>_.
                  bindr (dirlink ip (string_bytes ''..'') (ip_inum (icache s dp)) s) (\<lambda>(r, s).
                  bindr (panic_if (r < 0) ''create dots'') (\<lambda>_.
                  Inr s)))))
                else Inr s) (\<lambda>s.
         bindr (dirlink dp (name_bytes name) (ip_inum (icache s ip)) s) (\<lambda>(r, s).
         bindr (panic_if (r < 0) ''create: dirlink'') (\<lambda>_.
         bindr (iunlockput dp s) (\<lambda>s.
         Inr (Some ip, s)))))))))))"

definition O_WRONLY :: uint where [simp]: "O_WRONLY = 1"
definition O_RDWR :: uint where [simp]: "O_RDWR = 2"
definition O_CREATE :: uint where [simp]: "O_CREATE = 0x200"

definition open_inode :: "uchar list \<Rightarrow> uint \<Rightarrow> kernel \<Rightarrow> (nat option \<times> kernel) result" where
  "open_inode path omode s =
     (if omode AND O_CREATE \<noteq> 0 then create path T_FILE 0 0 s
      else
        bindr (namei path s) (\<lambda>(r, s).
        case r of None \<Rightarrow> Inr (None, s) | Some ip \<Rightarrow>
        bindr (ilock (Some ip) s) (\<lambda>s.
        if ip_type (icache s ip) = T_DIR \<and> omode \<noteq> 0
        then bindr (iunlockput ip s) (\<lambda>s. Inr (None, s))
        else Inr (Some ip, s))))"

definition sys_open :: "kernel \<Rightarrow> (int \<times> kernel) result" where
  "sys_open s =
     bindr (argstr 0 s) (\<lambda>(path, s).
     case path of None \<Rightarrow> fail s | Some path \<Rightarrow>
     bindr (argint 1 s) (\<lambda>(om, s).
     case om of None \<Rightarrow> fail s | Some om \<Rightarrow>
     let omode = word_of_int om in
     bindr (begin_op s) (\<lambda>s.
     bindr (open_inode path omode s) (\<lambda>(r, s).
     case r of None \<Rightarrow> op_end (-1) s | Some ip \<Rightarrow>
     bindr (filealloc s) (\<lambda>(fo, s).
     bindr (case fo of None \<Rightarrow> Inr (-1, s) | Some f \<Rightarrow> fdalloc f s) (\<lambda>(fd, s).
     case fo of
       None \<Rightarrow> bindr (iunlockput ip s) (op_end (-1))
     | Some f \<Rightarrow>
         if fd < 0 then bindr (fileclose f s) (\<lambda>s. bindr (iunlockput ip s) (op_end (-1)))
         else
           bindr (iunlock (Some ip) s) (\<lambda>s.
           bindr (end_op s) (\<lambda>s.
           Inr (fd, upd_file f (\<lambda>fl. fl\<lparr>f_type := FD_INODE, f_ip := Some ip, f_off := 0,
                      f_readable := (omode AND O_WRONLY = 0),
                      f_writable := (omode AND O_WRONLY \<noteq> 0 \<or> omode AND O_RDWR \<noteq> 0)\<rparr>) s)))))))))"

definition finish_create :: "nat option \<Rightarrow> kernel \<Rightarrow> (int \<times> kernel) result" where
  "finish_create r s =
     (case r of None \<Rightarrow> op_end (-1) s | Some ip \<Rightarrow> bindr (iunlockput ip s) (op_end 0))"

definition sys_mkdir :: "kernel \<Rightarrow> (int \<times> kernel) result" where
  "sys_mkdir s =
     bindr (begin_op s) (\<lambda>s.
     bindr (argstr 0 s) (\<lambda>(path, s).
     bindr (case path of None \<Rightarrow> Inr (None, s) | Some path \<Rightarrow> create path T_DIR 0 0 s) (\<lambda>(r, s).
     finish_create r s)))"

definition sys_mknod :: "kernel \<Rightarrow> (int \<times> kernel) result" where
  "sys_mknod s =
     bindr (begin_op s) (\<lambda>s.
     bindr (argstr 0 s) (\<lambda>(path, s).
     case path of None \<Rightarrow> finish_create None s | Some path \<Rightarrow>
     bindr (argint 1 s) (\<lambda>(major, s).
     case major of None \<Rightarrow> finish_create None s | Some major \<Rightarrow>
     bindr (argint 2 s) (\<lambda>(minor, s).
     case minor of None \<Rightarrow> finish_create None s | Some minor \<Rightarrow>
     bindr (create path T_DEV (word_of_int major) (word_of_int minor) s) (\<lambda>(r, s).
     finish_create r s)))))"

definition sys_chdir :: "kernel \<Rightarrow> (int \<times> kernel) result" where
  "sys_chdir s =
     bindr (my s) (\<lambda>(cur, s).
     bindr (begin_op s) (\<lambda>s.
     bindr (argstr 0 s) (\<lambda>(path, s).
     bindr (case path of None \<Rightarrow> Inr (None, s) | Some path \<Rightarrow> namei path s) (\<lambda>(r, s).
     case r of None \<Rightarrow> op_end (-1) s | Some ip \<Rightarrow>
     bindr (ilock (Some ip) s) (\<lambda>s.
     if ip_type (icache s ip) \<noteq> T_DIR then bindr (iunlockput ip s) (op_end (-1))
     else
       bindr (iunlock (Some ip) s) (\<lambda>s.
       bindr (deref (p_cwd (procs s cur))) (\<lambda>cwd.
       bindr (iput cwd s) (\<lambda>s.
       bindr (end_op s) (\<lambda>s.
       Inr (0, upd_proc cur (\<lambda>q. q\<lparr>p_cwd := Some ip\<rparr>) s))))))))))"

text \<open>The loop of \<^verbatim>\<open>sys_exec\<close> over the user's argument vector; \<open>None\<close> is the return of -1.\<close>

fun fetch_argv :: "nat \<Rightarrow> nat \<Rightarrow> uint \<Rightarrow> kernel \<Rightarrow> (uint list option \<times> kernel) result" where
  "fetch_argv 0 i uargv s = Inr (None, s)"
| "fetch_argv (Suc k) i uargv s =
     bindr (fetchint (uargv + 4 * of_nat i) s) (\<lambda>(r, s).
     case r of None \<Rightarrow> Inr (None, s) | Some uarg \<Rightarrow>
     if uarg = 0 then Inr (Some [], s)
     else
       bindr (fetchstr (word_of_int uarg) s) (\<lambda>(r, s).
       case r of None \<Rightarrow> Inr (None, s) | Some _ \<Rightarrow>
       bindr (fetch_argv k (Suc i) uargv s) (\<lambda>(rest, s).
       Inr (map_option ((#) (word_of_int uarg)) rest, s))))"

definition sys_exec :: "kernel \<Rightarrow> (int \<times> kernel) result" where
  "sys_exec s =
     bindr (argstr 0 s) (\<lambda>(path, s).
     case path of None \<Rightarrow> fail s | Some path \<Rightarrow>
     bindr (argint 1 s) (\<lambda>(uargv, s).
     case uargv of None \<Rightarrow> fail s | Some uargv \<Rightarrow>
     bindr (fetch_argv MAXARG 0 (word_of_int uargv) s) (\<lambda>(argv, s).
     case argv of None \<Rightarrow> fail s | Some argv \<Rightarrow> exec path argv s)))"

definition clear_fd :: "nat \<Rightarrow> int \<Rightarrow> kernel \<Rightarrow> kernel" where
  "clear_fd p fd s = upd_proc p (\<lambda>q. q\<lparr>p_ofile := (p_ofile q)(nat fd := None)\<rparr>) s"

definition sys_pipe :: "kernel \<Rightarrow> (int \<times> kernel) result" where
  "sys_pipe s =
     bindr (argptr 0 8 s) (\<lambda>(r, s).
     case r of None \<Rightarrow> fail s | Some fd \<Rightarrow>
     bindr (pipealloc s) (\<lambda>(r, s).
     case r of None \<Rightarrow> fail s | Some (rfile, wfile) \<Rightarrow>
     bindr (fdalloc rfile s) (\<lambda>(fd0, s).
     bindr (if fd0 < 0 then Inr (-1, s) else fdalloc wfile s) (\<lambda>(fd1, s).
     if fd0 < 0 \<or> fd1 < 0 then
       bindr (if fd0 \<ge> 0 then bindr (my s) (\<lambda>(p, s). Inr (clear_fd p fd0 s)) else Inr s) (\<lambda>s.
       bindr (fileclose rfile s) (\<lambda>s.
       bindr (fileclose wfile s) fail))
     else
       bindr (store_user32 fd (word_of_int fd0) s) (\<lambda>s.
       bindr (store_user32 (fd + 4) (word_of_int fd1) s) (\<lambda>s.
       Inr (0, s)))))))"

end
