(* ===== verification/Trap.thy ===== *)
theory Trap
  imports Sysfile
begin

text \<open>
  Dispatch of system calls (\<^verbatim>\<open>syscall.c\<close>) and of traps (\<^verbatim>\<open>trap.c\<close>). The return value of a
  call goes into the frame that \<^verbatim>\<open>curproc->tf\<close> names once the call has returned.
\<close>

section \<open>System calls\<close>

definition syscalls :: "int \<Rightarrow> (kernel \<Rightarrow> (wait \<times> kernel) result) option" where
  "syscalls num =
     (if num = 1 then Some sys_fork
      else if num = 2 then Some sys_exit
      else if num = 3 then Some sys_wait
      else if num = 4 then Some (\<lambda>s. returns (sys_pipe s))
      else if num = 5 then Some (\<lambda>s. returns (sys_read s))
      else if num = 6 then Some sys_kill
      else if num = 7 then Some (\<lambda>s. returns (sys_exec s))
      else if num = 8 then Some (\<lambda>s. returns (sys_fstat s))
      else if num = 9 then Some (\<lambda>s. returns (sys_chdir s))
      else if num = 10 then Some (\<lambda>s. returns (sys_dup s))
      else if num = 11 then Some sys_getpid
      else if num = 12 then Some sys_sbrk
      else if num = 13 then Some sys_sleep
      else if num = 14 then Some sys_uptime
      else if num = 15 then Some (\<lambda>s. returns (sys_open s))
      else if num = 16 then Some (\<lambda>s. returns (sys_write s))
      else if num = 17 then Some (\<lambda>s. returns (sys_mknod s))
      else if num = 18 then Some (\<lambda>s. returns (sys_unlink s))
      else if num = 19 then Some (\<lambda>s. returns (sys_link s))
      else if num = 20 then Some (\<lambda>s. returns (sys_mkdir s))
      else if num = 21 then Some (\<lambda>s. returns (sys_close s))
      else if num = 22 then Some sys_procstat
      else if num = 23 then Some sys_plevelstat
      else if num = 24 then Some sys_nice
      else if num = 25 then Some sys_semget
      else if num = 26 then Some sys_semfree
      else if num = 27 then Some sys_semdown
      else if num = 28 then Some sys_semup
      else None)"

definition set_eax :: "nat \<Rightarrow> int \<Rightarrow> kernel \<Rightarrow> kernel" where
  "set_eax p r s =
     (let tf = p_tf (procs s p) in
      s\<lparr>frames := (frames s)(tf := (frames s tf)\<lparr>tf_eax := word_of_int r\<rparr>)\<rparr>)"

definition syscall :: "kernel \<Rightarrow> (wait \<times> kernel) result" where
  "syscall s =
     bindr (my s) (\<lambda>(cur, s).
     let num = sint (tf_eax (frames s (p_tf (procs s cur)))) in
     case syscalls num of
       Some f \<Rightarrow>
         bindr (f s) (\<lambda>(w, s).
         case w of Returns r \<Rightarrow> Inr (Returns 0, set_eax cur r s) | Sleeps b \<Rightarrow> Inr (Sleeps b, s))
     | None \<Rightarrow>
         bindr (cprintf ''%d %s: unknown sys call %d\<newline>''
                  [pid_arg (procs s cur), name_arg (procs s cur), Cword (word_of_int num)] s) (\<lambda>s.
         Inr (Returns 0, set_eax cur (-1) s)))"

section \<open>Traps\<close>

definition T_SYSCALL :: uint where [simp]: "T_SYSCALL = 64"
definition T_PGFLT :: uint where [simp]: "T_PGFLT = 14"
definition T_IRQ0 :: uint where [simp]: "T_IRQ0 = 32"
definition IRQ_TIMER :: uint where [simp]: "IRQ_TIMER = 0"
definition IRQ_KBD :: uint where [simp]: "IRQ_KBD = 1"
definition IRQ_COM1 :: uint where [simp]: "IRQ_COM1 = 4"
definition IRQ_IDE :: uint where [simp]: "IRQ_IDE = 14"
definition IRQ_SPURIOUS :: uint where [simp]: "IRQ_SPURIOUS = 31"

text \<open>\<^verbatim>\<open>if(myproc() && myproc()->killed && user mode) exit();\<close>, where \<open>k\<close> is what follows.\<close>

definition killed_exit :: "bool \<Rightarrow> (kernel \<Rightarrow> (wait \<times> kernel) result) \<Rightarrow> kernel \<Rightarrow> (wait \<times> kernel) result" where
  "killed_exit user k s =
     bindr (myproc s) (\<lambda>(ptr, s).
     case ptr of
       None \<Rightarrow> k s
     | Some p \<Rightarrow>
         if p_killed (procs s p) \<and> user then bindr (exit_enter s) (\<lambda>(b, s). Inr (Sleeps b, s)) else k s)"

definition user_mode :: "trapframe \<Rightarrow> bool" where
  "user_mode tf \<longleftrightarrow> tf_cs tf AND 3 = DPL_USER"

definition timer_tick :: "kernel \<Rightarrow> kernel result" where
  "timer_tick s =
     bindr (acquire Tickslock s) (\<lambda>s.
     let s = s\<lparr>ticks := ticks s + 1, aging_ticks := aging_ticks s + 1\<rparr> in
     bindr (if aging_ticks s \<ge> AGINGSTEP
            then bindr (aging s) (\<lambda>s. Inr (s\<lparr>aging_ticks := 0\<rparr>)) else Inr s) (\<lambda>s.
     bindr (wakeup (Some Chan_ticks) s) (release Tickslock)))"

definition trap_syscall :: "uint \<Rightarrow> kernel \<Rightarrow> (wait \<times> kernel) result" where
  "trap_syscall tf s =
     bindr (my s) (\<lambda>(p, s).
     if p_killed (procs s p) then bindr (exit_enter s) (\<lambda>(b, s). Inr (Sleeps b, s))
     else
       bindr (syscall (upd_proc p (\<lambda>q. q\<lparr>p_tf := tf\<rparr>) s)) (\<lambda>(w, s).
       case w of
         Sleeps b \<Rightarrow> Inr (Sleeps b, s)
       | Returns _ \<Rightarrow>
           bindr (my s) (\<lambda>(p, s).
           if p_killed (procs s p) then bindr (exit_enter s) (\<lambda>(b, s). Inr (Sleeps b, s))
           else Inr (Returns 0, s))))"

text \<open>The default case: a panic in the kernel, the end of the process in user mode.\<close>

definition trap_unexpected :: "uint \<Rightarrow> kernel \<Rightarrow> kernel result" where
  "trap_unexpected tfa s =
     (let tf = frames s tfa in
      bindr (myproc s) (\<lambda>(ptr, s).
      bindr (cpuid s) (\<lambda>c.
      let cr2 = c_cr2 (cpus s (this_cpu s)) in
      case (ptr, tf_cs tf AND 3 = 0) of
        (Some p, False) \<Rightarrow>
          bindr (cprintf ''pid %d %s: trap %d err %d on cpu %d eip 0x%x addr 0x%x--kill proc\<newline>''
                   [pid_arg (procs s p), name_arg (procs s p), Cword (tf_trapno tf), Cword (tf_err tf),
                    Cword (of_nat c), Cword (tf_eip tf), Cword cr2] s) (\<lambda>s.
          bindr (my s) (\<lambda>(p, s).
          Inr (upd_proc p (\<lambda>q. q\<lparr>p_killed := True\<rparr>) s)))
      | _ \<Rightarrow>
          bindr (cprintf ''unexpected trap %d from cpu %d eip %x (cr2=0x%x)\<newline>''
                   [Cword (tf_trapno tf), Cword (of_nat c), Cword (tf_eip tf), Cword cr2] s) (\<lambda>_.
          Inl (Panic ''trap'')))))"

text \<open>The switch over interrupts; \<open>keys\<close> are the characters the keyboard or the port delivers.\<close>

definition trap_switch :: "int list \<Rightarrow> uint \<Rightarrow> kernel \<Rightarrow> kernel result" where
  "trap_switch keys tfa s =
     (let n = tf_trapno (frames s tfa) in
      if n = T_IRQ0 + IRQ_TIMER then bindr (cpuid s) (\<lambda>c. if c = 0 then timer_tick s else Inr s)
      else if n = T_IRQ0 + IRQ_IDE \<or> n = T_IRQ0 + IRQ_IDE + 1 then Inr s
      else if n = T_IRQ0 + IRQ_KBD \<or> n = T_IRQ0 + IRQ_COM1 then consoleintr keys procdump s
      else if n = T_IRQ0 + 7 \<or> n = T_IRQ0 + IRQ_SPURIOUS then
        bindr (cpuid s) (\<lambda>c.
        cprintf ''cpu%d: spurious interrupt at %x:%x\<newline>''
          [Cword (of_nat c), Cword (ucast (tf_cs (frames s tfa))), Cword (tf_eip (frames s tfa))] s)
      else trap_unexpected tfa s)"

definition trap :: "int list \<Rightarrow> uint \<Rightarrow> kernel \<Rightarrow> (wait \<times> kernel) result" where
  "trap keys tfa s =
     (let tf = frames s tfa in
      if tf_trapno tf = T_SYSCALL then trap_syscall tfa s
      else if tf_trapno tf = T_PGFLT then bindr (trap_pgflt tfa s) (\<lambda>s. Inr (Returns 0, s))
      else
        bindr (trap_switch keys tfa s)
          (killed_exit (user_mode tf) (\<lambda>s.
             bindr (myproc s) (\<lambda>(ptr, s).
             case ptr of
               None \<Rightarrow> Inr (Returns 0, s)
             | Some p \<Rightarrow>
                 if p_state (procs s p) = RUNNING \<and> tf_trapno tf = T_IRQ0 + IRQ_TIMER then
                   let s = upd_proc p (\<lambda>q. q\<lparr>p_ticks_count := p_ticks_count q + 1\<rparr>) s in
                   if p_ticks_count (procs s p) \<ge> QUANTUM
                   then bindr (yield_enter s) (\<lambda>(b, s). Inr (Sleeps b, s))
                   else killed_exit (user_mode tf) (\<lambda>s. Inr (Returns 0, s)) s
                 else killed_exit (user_mode tf) (\<lambda>s. Inr (Returns 0, s)) s))))"

text \<open>The rest of \<^verbatim>\<open>trap\<close> after \<^verbatim>\<open>yield\<close> has returned.\<close>

definition trap_after_yield :: "uint \<Rightarrow> bool \<Rightarrow> kernel \<Rightarrow> (wait \<times> kernel) result" where
  "trap_after_yield tfa intena s =
     bindr (yield_exit intena s) (killed_exit (user_mode (frames s tfa)) (\<lambda>s. Inr (Returns 0, s)))"

end
