(* ===== verification/Pagetable.thy ===== *)
theory Pagetable
  imports Vm
begin

text \<open>
  Correctness of the page tables of \<^verbatim>\<open>vm.c\<close>: a two-level table in the flat memory is read as
  a partial map from addresses to entries; \<^verbatim>\<open>walkpgdir\<close> and \<^verbatim>\<open>mappages\<close> change this map and nothing
  else, and the copy-on-write fault handler gives a process a private page. The free list
  of \<^verbatim>\<open>kalloc.c\<close> and the tables stay apart throughout.
\<close>

section \<open>Address spaces as maps\<close>

text \<open>Two-level tables read as a partial map from addresses to page-table entries.\<close>

definition pt_of :: "uint \<Rightarrow> uint \<Rightarrow> memory \<Rightarrow> uint" where
  "pt_of d i m = P2V (PTE_ADDR (load32 m (entry d i)))"

definition has_pt :: "uint \<Rightarrow> uint \<Rightarrow> memory \<Rightarrow> bool" where
  "has_pt d i m \<longleftrightarrow> load32 m (entry d i) AND PTE_P \<noteq> 0"

definition pte_at :: "uint \<Rightarrow> uint \<Rightarrow> memory \<Rightarrow> uint" where
  "pte_at d va m = entry (pt_of d (PDX va) m) (PTX va)"

definition vmap :: "uint \<Rightarrow> memory \<Rightarrow> uint \<Rightarrow> uint option" where
  "vmap d m va =
     (if has_pt d (PDX va) m \<and> load32 m (pte_at d va m) AND PTE_P \<noteq> 0
      then Some (load32 m (pte_at d va m)) else None)"

text \<open>
  A well-formed tree over the managed memory: the directory and the page tables are
  different pages, none of them free.
\<close>

definition space_ok :: "uint \<Rightarrow> memory \<Rightarrow> uint \<Rightarrow> uint set \<Rightarrow> bool" where
  "space_ok d m e F \<longleftrightarrow> heap_page e d \<and> d \<notin> F \<and>
     (\<forall>i < 1024. has_pt d i m \<longrightarrow> heap_page e (pt_of d i m) \<and> pt_of d i m \<notin> F \<and> pt_of d i m \<noteq> d) \<and>
     (\<forall>i < 1024. \<forall>j < 1024. has_pt d i m \<and> has_pt d j m \<and> pt_of d i m = pt_of d j m \<longrightarrow> i = j)"

lemma PDX_less: "PDX va < 1024"
proof -
  have "unat (PDX va) < 1024" using unat_PDX [of va] unat32_bound [of va] by (simp add: less_mult_imp_div_less)
  then show ?thesis by (simp add: word_less_nat_alt)
qed

lemma PTX_less: "PTX va < 1024"
  by (simp add: word_less_nat_alt unat_PTX)

text \<open>An entry lies in the page of its table, and two entries of a table do not overlap.\<close>

lemma unat_entry:
  assumes "t mod 4096 = 0" and "i < 1024"
  shows "unat (entry t i) = unat t + 4 * unat i"
proof -
  from assms(1) have "\<exists>k. unat t = 4096 * k" by (rule page_unat)
  then obtain k where k: "unat t = 4096 * k" ..
  have "k < 2 ^ 20" using unat32_bound [of t] k by simp
  moreover have i: "unat i < 1024" using assms(2) by (simp add: word_less_nat_alt)
  ultimately have b: "unat t + 4 * unat i < 2 ^ 32" using k by simp
  have "unat (4 * i) = 4 * unat i" using i by (simp add: unat_word_ariths)
  then show ?thesis using b by (simp add: entry_def unat_add32)
qed

lemma entry_page:
  assumes "t mod 4096 = 0" and "i < 1024" and "k < 4"
  shows "same_page t (entry t i + of_nat k)"
proof -
  have i: "unat i < 1024" using assms(2) by (simp add: word_less_nat_alt)
  have "entry t i + of_nat k - t = 4 * i + of_nat k" by (simp add: entry_def)
  moreover have "unat (4 * i + of_nat k :: uint) = 4 * unat i + k"
    using i assms(3) by (simp add: unat_word_ariths unat_of_nat)
  ultimately have "unat (entry t i + of_nat k - t) < 4096" using i assms(3) by (simp only:)
  then show ?thesis by (simp only: same_page_def word_less_nat_alt) simp
qed

lemma aligned4_entry:
  assumes "t mod 4096 = 0" and "i < 1024"
  shows "aligned4 (entry t i)"
proof -
  from assms(1) have "\<exists>k. unat t = 4096 * k" by (rule page_unat)
  then obtain k where k: "unat t = 4096 * k" ..
  then have "unat (entry t i) = 4 * (1024 * k + unat i)" using unat_entry [OF assms] by simp
  then show ?thesis by (simp add: aligned4_def)
qed

lemma entry_inj:
  assumes "t mod 4096 = 0" and "i < 1024" and "j < 1024" and "entry t i = entry t j"
  shows "i = j"
  using unat_entry [OF assms(1,2)] unat_entry [OF assms(1,3)] assms(4) by (simp add: word_unat_eq_iff)

lemma load32_page_cong:
  assumes "t mod 4096 = 0" and "i < 1024" and "\<And>x. same_page t x \<Longrightarrow> m' x = m x"
  shows "load32 m' (entry t i) = load32 m (entry t i)"
proof -
  have "m' (entry t i + of_nat k) = m (entry t i + of_nat k)" if "k < 4" for k
    using entry_page [OF assms(1,2) that] by (rule assms(3))
  from this [of 0] this [of 1] this [of 2] this [of 3] show ?thesis by (simp add: load32_def)
qed

lemma store_entry_other_page:
  assumes "t mod 4096 = 0" and "i < 1024" and "u mod 4096 = 0" and "u \<noteq> t" and "same_page u x"
  shows "store32 (entry t i) w m x = m x"
proof -
  have "entry t i + of_nat k \<noteq> x" if "k < 4" for k
    using pages_apart [OF assms(1,3) entry_page [OF assms(1,2) that]] assms(4,5) by auto
  from this [of 0] this [of 1] this [of 2] this [of 3] show ?thesis by (auto simp: store32_def)
qed

lemma load_store_entry:
  assumes t: "t mod 4096 = 0" and i: "i < 1024" and u: "u mod 4096 = 0" and j: "j < 1024"
  shows "load32 (store32 (entry t i) w m) (entry u j) = (if u = t \<and> j = i then w else load32 m (entry u j))"
proof (cases "u = t")
  case True
  show ?thesis
  proof (cases "j = i")
    case False
    then have "entry t i \<noteq> entry t j" using entry_inj [OF t i j] by blast
    then have "load32 (store32 (entry t i) w m) (entry t j) = load32 m (entry t j)"
      by (rule load32_store32_other [OF aligned4_entry [OF t i] aligned4_entry [OF t j]])
    with True False show ?thesis by simp
  qed (simp add: True)
next
  case False
  have "load32 (store32 (entry t i) w m) (entry u j) = load32 m (entry u j)"
    by (rule load32_page_cong [OF u j]) (rule store_entry_other_page [OF t i u False])
  with False show ?thesis by simp
qed

text \<open>Entries that point to pages: address and permissions.\<close>

lemma PTE_ADDR_or:
  assumes "a mod 4096 = 0" and "f AND NOT 0xFFF = 0"
  shows "PTE_ADDR (a OR f) = a"
proof -
  have "PTE_ADDR a = a"
    using assms(1) div_mult_mod_eq [of a 4096] by (simp add: PTE_ADDR_mult)
  then show ?thesis using assms(2) by (simp add: PTE_ADDR_def bit.conj_disj_distrib2)
qed

lemma present_bit: "w AND PTE_P \<noteq> 0 \<longleftrightarrow> bit w 0"
  by (simp add: and_one_eq mod2_eq_if bit_0)

lemma V2P_page:
  assumes "v mod 4096 = 0"
  shows "V2P v mod 4096 = 0"
proof -
  from assms have "\<exists>k. unat v = 4096 * k" by (rule page_unat)
  then obtain k where k: "unat v = 4096 * k" ..
  have "V2P v = v + 0x80000000" by (simp add: V2P_def)
  then have "unat (V2P v) = (4096 * k + 0x80000000) mod 2 ^ 32" by (simp add: unat_word_ariths k)
  then have "unat (V2P v) mod 4096 = (4096 * (k + 524288)) mod 4096" by (simp add: mod_mod_cancel)
  then have "unat (V2P v mod 4096) = 0" using unat_mod_distrib [of "V2P v" "4096 :: uint"] by simp
  then show ?thesis by (simp only: unat_eq_0)
qed

lemma space_okD:
  assumes "space_ok d m e F"
  shows "heap_page e d" "d mod 4096 = 0" "d \<notin> F"
    "i < 1024 \<Longrightarrow> has_pt d i m \<Longrightarrow> heap_page e (pt_of d i m)"
    "i < 1024 \<Longrightarrow> has_pt d i m \<Longrightarrow> pt_of d i m mod 4096 = 0"
    "i < 1024 \<Longrightarrow> has_pt d i m \<Longrightarrow> pt_of d i m \<notin> F"
    "i < 1024 \<Longrightarrow> has_pt d i m \<Longrightarrow> pt_of d i m \<noteq> d"
    "i < 1024 \<Longrightarrow> j < 1024 \<Longrightarrow> has_pt d i m \<Longrightarrow> has_pt d j m \<Longrightarrow> pt_of d i m = pt_of d j m \<Longrightarrow> i = j"
  using assms unfolding space_ok_def heap_page_def by blast+

text \<open>The map depends on the directory and on its page tables only.\<close>

lemma space_cong:
  assumes ok: "space_ok d m e F"
    and dir: "\<And>i. i < 1024 \<Longrightarrow> load32 m' (entry d i) = load32 m (entry d i)"
    and tab: "\<And>i k. i < 1024 \<Longrightarrow> k < 1024 \<Longrightarrow> has_pt d i m \<Longrightarrow>
      load32 m' (entry (pt_of d i m) k) = load32 m (entry (pt_of d i m) k)"
  shows "vmap d m' = vmap d m" "space_ok d m' e F"
proof -
  have h: "has_pt d i m' = has_pt d i m" "pt_of d i m' = pt_of d i m" if "i < 1024" for i
    using dir [OF that] by (simp_all add: has_pt_def pt_of_def)
  show "vmap d m' = vmap d m"
  proof (rule ext)
    fix va
    have "load32 m' (pte_at d va m') = load32 m (pte_at d va m)" if "has_pt d (PDX va) m"
      using tab [OF PDX_less PTX_less that] by (simp add: pte_at_def h(2) [OF PDX_less])
    then show "vmap d m' va = vmap d m va" by (auto simp: vmap_def h(1) [OF PDX_less])
  qed
  show "space_ok d m' e F" using ok by (auto simp: space_ok_def h)
qed

text \<open>Hanging a zeroed page table into the directory leaves the map alone.\<close>

lemma hang_table:
  assumes ok: "space_ok d m e F" and g: "heap_page e g" "g \<in> F" and i: "i < 1024" "\<not> has_pt d i m"
    and w: "w AND PTE_P \<noteq> 0" "P2V (PTE_ADDR w) = g"
  defines "m' \<equiv> store32 (entry d i) w (memset g 0 4096 m)"
  shows "has_pt d i m'" "pt_of d i m' = g" "vmap d m' = vmap d m" "space_ok d m' e (F - {g})"
proof -
  note d = space_okD [OF ok]
  have gp: "g mod 4096 = 0" "g \<noteq> d" using g d(3) by (auto simp: heap_page_def)
  have zero: "load32 (memset g 0 4096 m) (entry g k) = 0" if "k < 1024" for k
  proof -
    have "memset g 0 4096 m (entry g k + of_nat l) = 0" if "l < 4" for l
      using entry_page [OF gp(1) \<open>k < 1024\<close> that] by (simp add: memset_eq same_page_def)
    from this [of 0] this [of 1] this [of 2] this [of 3] show ?thesis by (simp add: load32_def word_of_def)
  qed
  have keep: "load32 (memset g 0 4096 m) (entry t k) = load32 m (entry t k)"
    if "t mod 4096 = 0" "t \<noteq> g" "k < 1024" for t k
    by (rule load32_page_cong [OF that(1,3)]) (rule memset_other_page [OF gp(1) that(1,2)])
  have dir: "load32 m' (entry d j) = (if j = i then w else load32 m (entry d j))" if "j < 1024" for j
    unfolding m'_def load_store_entry [OF d(2) i(1) d(2) that] using keep [OF d(2) _ that] gp(2) by simp
  have h: "has_pt d j m' \<longleftrightarrow> j = i \<or> has_pt d j m" "pt_of d j m' = (if j = i then g else pt_of d j m)" if "j < 1024" for j
    using dir [OF that] w by (auto simp: has_pt_def pt_of_def)
  show hi: "has_pt d i m'" "pt_of d i m' = g" using h [OF i(1)] by auto
  have tg: "load32 m' (entry g k) = 0" if "k < 1024" for k
    unfolding m'_def load_store_entry [OF d(2) i(1) gp(1) that] using gp(2) zero [OF that] by simp
  have tab: "load32 m' (entry (pt_of d j m) k) = load32 m (entry (pt_of d j m) k)"
    if "j < 1024" "k < 1024" "has_pt d j m" for j k
  proof -
    have t: "pt_of d j m mod 4096 = 0" "pt_of d j m \<noteq> g" "pt_of d j m \<noteq> d"
      using d(5,6,7) [OF that(1,3)] g(2) by auto
    show ?thesis
      unfolding m'_def load_store_entry [OF d(2) i(1) t(1) that(2)] using t keep [OF t(1,2) that(2)] by simp
  qed
  show "vmap d m' = vmap d m"
  proof (rule ext)
    fix va
    show "vmap d m' va = vmap d m va"
    proof (cases "PDX va = i")
      case True
      then show ?thesis using i(2) hi tg [OF PTX_less] by (simp add: vmap_def pte_at_def)
    next
      case False
      then have "has_pt d (PDX va) m' = has_pt d (PDX va) m" "pt_of d (PDX va) m' = pt_of d (PDX va) m"
        using h [OF PDX_less] by auto
      then show ?thesis using tab [OF PDX_less PTX_less, of va va] by (auto simp: vmap_def pte_at_def)
    qed
  qed
  show "space_ok d m' e (F - {g})"
    unfolding space_ok_def
  proof (intro conjI allI impI)
    show "heap_page e d" "d \<notin> F - {g}" using d by auto
  next
    fix j
    assume j: "j < 1024" "has_pt d j m'"
    have "heap_page e (pt_of d j m') \<and> pt_of d j m' \<notin> F - {g} \<and> pt_of d j m' \<noteq> d"
    proof (cases "j = i")
      case True
      then show ?thesis using hi(2) g(1) gp(2) by simp
    next
      case False
      with j h [OF j(1)] have "has_pt d j m" "pt_of d j m' = pt_of d j m" by simp_all
      with d(4,6,7) [OF j(1)] show ?thesis by simp
    qed
    then show "heap_page e (pt_of d j m')" "pt_of d j m' \<notin> F - {g}" "pt_of d j m' \<noteq> d" by blast+
  next
    fix j k
    assume j: "j < 1024" and k: "k < 1024" and jk: "has_pt d j m' \<and> has_pt d k m' \<and> pt_of d j m' = pt_of d k m'"
    have old: "l = i \<or> has_pt d l m \<and> pt_of d l m' = pt_of d l m \<and> pt_of d l m' \<noteq> g"
      if "l < 1024" "has_pt d l m'" for l
      using h [OF that(1)] that(2) d(6) [OF that(1)] g(2) by (cases "l = i") auto
    show "j = k"
      using old [OF j] old [OF k] jk hi(2) d(8) [OF j k] by metis
  qed
qed

lemma page_number_unat: "unat va div 4096 = unat (PDX va) * 1024 + unat (PTX va)"
proof -
  have "unat va div 4096 = unat va div 4096 div 1024 * 1024 + unat va div 4096 mod 1024" by simp
  also have "unat va div 4096 div 1024 = unat va div 2 ^ 22" by (simp add: div_mult2_eq [symmetric])
  finally show ?thesis by (simp add: unat_PDX unat_PTX)
qed

lemma digits_eq: "b < 1024 \<Longrightarrow> d < 1024 \<Longrightarrow> (a * 1024 + b = c * 1024 + d) = (a = c \<and> b = (d :: nat))"
proof -
  have "(k * 1024 + l) div 1024 = k" "(k * 1024 + l) mod 1024 = l" if "l < 1024" for k l :: nat
    using that by simp_all
  then show "b < 1024 \<Longrightarrow> d < 1024 \<Longrightarrow> (a * 1024 + b = c * 1024 + d) = (a = c \<and> b = d)" by metis
qed

lemma PGROUNDDOWN_iff: "PGROUNDDOWN x = PGROUNDDOWN y \<longleftrightarrow> PDX x = PDX y \<and> PTX x = PTX y"
proof -
  have "PGROUNDDOWN x = PGROUNDDOWN y \<longleftrightarrow> unat x div 4096 = unat y div 4096"
    by (simp add: word_unat_eq_iff unat_PGROUNDDOWN)
  also have "\<dots> \<longleftrightarrow> unat (PDX x) = unat (PDX y) \<and> unat (PTX x) = unat (PTX y)"
  proof -
    have "unat (PTX x) < 1024" "unat (PTX y) < 1024" by (simp_all add: unat_PTX)
    then show ?thesis unfolding page_number_unat by (rule digits_eq)
  qed
  finally show ?thesis by (simp add: word_unat_eq_iff)
qed

lemma PGROUNDDOWN_page: "va mod 4096 = 0 \<Longrightarrow> PGROUNDDOWN va = va"
  using div_mult_mod_eq [of va 4096] by (simp add: PGROUNDDOWN_eq PTE_ADDR_mult)

text \<open>Writing one entry of a page table changes the map at one page.\<close>

lemma set_entry:
  fixes w :: uint
  assumes ok: "space_ok d m e F" and pt: "has_pt d (PDX va) m"
  defines "m' \<equiv> store32 (pte_at d va m) w m"
  shows "vmap d m' x = (if PGROUNDDOWN x = PGROUNDDOWN va then (if w AND PTE_P \<noteq> 0 then Some w else None) else vmap d m x)"
    and "space_ok d m' e F"
proof -
  note d = space_okD [OF ok]
  let ?t = "pt_of d (PDX va) m"
  have t: "?t mod 4096 = 0" "?t \<noteq> d" using d(5,7) [OF PDX_less pt] .
  have dir: "load32 m' (entry d i) = load32 m (entry d i)" if "i < 1024" for i
    unfolding m'_def pte_at_def load_store_entry [OF t(1) PTX_less d(2) that] using t(2) by simp
  have h: "has_pt d i m' = has_pt d i m" "pt_of d i m' = pt_of d i m" if "i < 1024" for i
    using dir [OF that] by (simp_all add: has_pt_def pt_of_def)
  show "space_ok d m' e F" using ok by (auto simp: space_ok_def h)
  show "vmap d m' x = (if PGROUNDDOWN x = PGROUNDDOWN va then (if w AND PTE_P \<noteq> 0 then Some w else None) else vmap d m x)"
  proof (cases "has_pt d (PDX x) m")
    case True
    let ?u = "pt_of d (PDX x) m"
    have u: "?u mod 4096 = 0" by (rule d(5) [OF PDX_less True])
    have same: "?u = ?t \<and> PTX x = PTX va \<longleftrightarrow> PGROUNDDOWN x = PGROUNDDOWN va"
      using d(8) [OF PDX_less PDX_less True pt] by (auto simp: PGROUNDDOWN_iff)
    have "load32 m' (pte_at d x m') = (if PGROUNDDOWN x = PGROUNDDOWN va then w else load32 m (pte_at d x m))"
      unfolding pte_at_def h(2) [OF PDX_less] unfolding m'_def pte_at_def load_store_entry [OF t(1) PTX_less u PTX_less] same ..
    then show ?thesis using True by (simp add: vmap_def h(1) [OF PDX_less])
  next
    case False
    then have "PGROUNDDOWN x \<noteq> PGROUNDDOWN va" using pt by (auto simp: PGROUNDDOWN_iff)
    with False show ?thesis by (simp add: vmap_def h(1) [OF PDX_less])
  qed
qed

text \<open>The pool does not notice writes outside the free pages.\<close>

lemma pool_mem:
  assumes "pool s ps" and "\<And>p x. p \<in> set ps \<Longrightarrow> same_page p x \<Longrightarrow> m x = mem s x"
  shows "pool (s\<lparr>mem := m\<rparr>) ps"
  using assms(1) chain_cong [OF poolD(1) [OF assms(1)] assms(2)] by (auto simp: pool_def)

text \<open>
  \<open>at_entry d va s ps r t qs\<close>: a walk has returned the address \<open>r\<close> of the entry for \<open>va\<close>, possibly
  after taking a page for a page table, and the map is as it was.
\<close>

definition at_entry :: "uint \<Rightarrow> uint \<Rightarrow> kernel \<Rightarrow> uint \<Rightarrow> kernel \<Rightarrow> uint list \<Rightarrow> bool" where
  "at_entry d va s r t qs \<longleftrightarrow> r = pte_at d va (mem t) \<and> r \<noteq> 0 \<and> has_pt d (PDX va) (mem t) \<and> pool t qs \<and>
     space_ok d (mem t) (kend t) (set qs) \<and> vmap d (mem t) = vmap d (mem s) \<and> kend t = kend s"

lemma entry_nonzero:
  assumes "heap_page e t" and "i < 1024"
  shows "entry t i \<noteq> 0"
proof -
  have "t \<noteq> 0" "t mod 4096 = 0" using assms(1) by (auto simp: heap_page_def)
  then have "0 < unat (entry t i)" using unat_entry [OF _ assms(2)] by (simp add: unat_gt_0)
  then show ?thesis by auto
qed

lemma walkpgdir_alloc:
  assumes pool: "pool s ps" and ok: "space_ok d (mem s) (kend s) (set ps)"
  shows "\<exists>r t. walkpgdir d va True s = Inr (r, t) \<and>
    (if has_pt d (PDX va) (mem s) \<or> ps \<noteq> []
     then at_entry d va s r t (if has_pt d (PDX va) (mem s) then ps else tl ps)
     else r = 0 \<and> pool t [] \<and> mem t = mem s \<and> kend t = kend s)"
proof (cases "has_pt d (PDX va) (mem s)")
  case True
  have "heap_page (kend s) (pt_of d (PDX va) (mem s))" using space_okD(4) [OF ok PDX_less True] .
  with True pool ok show ?thesis
    using entry_nonzero [OF _ PTX_less] by (simp add: walkpgdir_def has_pt_def getw_def at_entry_def pte_at_def pt_of_def)
next
  case False
  then have np: "getw (entry d (PDX va)) s AND PTE_P = 0" by (simp add: has_pt_def getw_def)
  show ?thesis
  proof (cases ps)
    case Nil
    with pool kalloc_none [of s] np False show ?thesis by (simp add: walkpgdir_def)
  next
    case (Cons g qs)
    let ?s = "kmem_upd (mem s) (load32 (mem s) g) ((cow_count s)(PAGEINDEX g := 1)) s"
    have ka: "kalloc s = Inr (g, ?s)" "pool ?s qs" using kalloc_some pool Cons by blast+
    let ?w = "V2P g OR PTE_P OR PTE_W OR PTE_U"
    let ?m = "store32 (entry d (PDX va)) ?w (memset g 0 4096 (mem s))"
    have g: "heap_page (kend s) g" "g \<in> set ps" using poolD(3) [OF pool] Cons by auto
    then have gp: "g mod 4096 = 0" "g \<noteq> 0" by (auto simp: heap_page_def)
    have seven: "PTE_P OR PTE_W OR PTE_U = (7 :: uint)" by simp
    have "PTE_ADDR ?w = V2P g"
      unfolding seven by (rule PTE_ADDR_or [OF V2P_page [OF gp(1)]]) simp
    then have w: "P2V (PTE_ADDR ?w) = g" by simp
    have "bit ?w 0" by (simp add: bit_or_iff)
    then have w1: "?w AND PTE_P \<noteq> 0" by (simp only: present_bit)
    note hang = hang_table [OF ok g PDX_less False w1 w]
    have dist: "set ps - {g} = set qs" using poolD(2) [OF pool] Cons by auto
    let ?t = "?s\<lparr>mem := ?m\<rparr>"
    have pool': "pool ?t qs"
    proof (rule pool_mem [OF ka(2)])
      fix p x
      assume p: "p \<in> set qs" "same_page p x"
      have "p mod 4096 = 0" "p \<noteq> g" "p \<noteq> d"
        using p(1) poolD(2,3) [OF pool] Cons space_okD(3) [OF ok] by (auto simp: heap_page_def)
      then show "?m x = mem ?s x"
        using store_entry_other_page [OF space_okD(2) [OF ok] PDX_less _ _ p(2)] memset_other_page [OF gp(1) _ _ p(2)] by simp
    qed
    have "walkpgdir d va True s = Inr (entry g (PTX va), ?t)"
      using np ka(1) gp(2) by (simp add: walkpgdir_def setw_def Let_def)
    moreover have "at_entry d va s (entry g (PTX va)) ?t qs"
      using hang pool' entry_nonzero [OF g(1) PTX_less] by (simp add: at_entry_def pte_at_def dist)
    ultimately show ?thesis using False Cons by simp
  qed
qed

section \<open>Mapping a range\<close>

lemma unat_mult_iff: "(v :: uint) mod 4096 = 0 \<longleftrightarrow> (\<exists>k. unat v = 4096 * k)"
proof
  show "v mod 4096 = 0 \<Longrightarrow> \<exists>k. unat v = 4096 * k" by (rule page_unat)
  assume "\<exists>k. unat v = 4096 * k"
  then have "unat (v mod 4096) = 0" using unat_mod_distrib [of v "4096 :: uint"] by auto
  then show "v mod 4096 = 0" by (simp only: unat_eq_0)
qed

lemma page_diff:
  assumes "y mod 4096 = (0 :: uint)" and "a mod 4096 = 0"
  shows "(y - a) mod 4096 = 0"
proof -
  obtain j k where j: "unat y = 4096 * j" and k: "unat a = 4096 * k" using assms unfolding unat_mult_iff by blast
  have b: "4096 * j < 4096 * 2 ^ 20" "4096 * k < 4096 * 2 ^ 20" using unat32_bound [of y] unat32_bound [of a] j k by simp_all
  show ?thesis
  proof (cases "unat a \<le> unat y")
    case True
    then have "unat (y - a) = 4096 * (j - k)" by (simp add: unat_sub32 j k diff_mult_distrib2)
    then show ?thesis unfolding unat_mult_iff ..
  next
    case False
    then have "y \<noteq> a" by auto
    then have "unat (y - a) = 2 ^ 32 - unat (a - y)" by (rule unat_sub_swap)
    also have "unat (a - y) = 4096 * (k - j)" using False by (simp add: unat_sub32 j k diff_mult_distrib2)
    also have "2 ^ 32 - 4096 * (k - j) = 4096 * (2 ^ 20 - (k - j))" by (simp add: diff_mult_distrib2)
    finally show ?thesis unfolding unat_mult_iff ..
  qed
qed

lemma page_add: "p mod 4096 = (0 :: uint) \<Longrightarrow> (p + 4096) mod 4096 = 0"
  using page_diff [of p "- 4096"] by (simp add: unat_mult_iff) 

lemma PGROUNDDOWN_mod [simp]: "PGROUNDDOWN x mod 4096 = 0"
  unfolding unat_mult_iff unat_PGROUNDDOWN by (rule exI [of _ "unat x div 4096"]) simp

lemma range_step:
  assumes "y mod 4096 = (0 :: uint)" and "a mod 4096 = 0" and "l mod 4096 = 0" and "a \<noteq> l"
  shows "y - (a + 4096) \<le> l - (a + 4096) \<longleftrightarrow> y - a \<le> l - a \<and> y \<noteq> a"
proof -
  obtain A L where A: "unat (y - a) = 4096 * A" and L: "unat (l - a) = 4096 * L"
    using page_diff [OF assms(1,2)] page_diff [OF assms(3,2)] unfolding unat_mult_iff by blast
  have "L \<noteq> 0"
  proof
    assume "L = 0"
    with L have "l - a = 0" by (simp add: unat_eq_0 [symmetric] del: unat_eq_0)
    with assms(4) show False by simp
  qed
  have shift: "unat (z - (a + 4096)) = 4096 * (Z - 1)" if "unat (z - a) = 4096 * Z" "Z \<noteq> 0" for z Z
  proof -
    have "z - (a + 4096) = (z - a) - 4096" by simp
    also have "unat \<dots> = unat (z - a) - 4096" using that by (subst unat_sub32) simp_all
    finally show ?thesis using that by (simp add: diff_mult_distrib2)
  qed
  show ?thesis
  proof (cases "A = 0")
    case True
    then have "y - a = 0" using A by (simp add: unat_eq_0 [symmetric] del: unat_eq_0)
    then have "y = a" by simp
    have "unat (y - (a + 4096)) = 2 ^ 32 - 4096" by (simp add: \<open>y = a\<close> unat_word_ariths)
    moreover have "4096 * L < 2 ^ 32" using unat32_bound [of "l - a"] L by simp
    ultimately show ?thesis
      using shift [OF L \<open>L \<noteq> 0\<close>] \<open>L \<noteq> 0\<close> by (simp add: word_le_nat_alt \<open>y = a\<close>)
  next
    case False
    then have "y \<noteq> a" using A by auto
    then show ?thesis
      using shift [OF A False] shift [OF L \<open>L \<noteq> 0\<close>] A L False \<open>L \<noteq> 0\<close> by (auto simp: word_le_nat_alt)
  qed
qed

text \<open>The map with the range from \<open>a\<close> to \<open>l\<close> bound to physical memory from \<open>pa\<close> on.\<close>

definition map_range :: "uint \<Rightarrow> uint \<Rightarrow> uint \<Rightarrow> uint \<Rightarrow> (uint \<Rightarrow> uint option) \<Rightarrow> uint \<Rightarrow> uint option" where
  "map_range a l pa perm f x =
     (if PGROUNDDOWN x - a \<le> l - a then Some ((pa + (PGROUNDDOWN x - a)) OR perm OR PTE_P) else f x)"

lemma present_or: "(w OR PTE_P) AND PTE_P \<noteq> 0"
  unfolding present_bit by (simp add: bit_or_iff)

lemma set_entry_state:
  fixes w :: uint
  assumes e: "at_entry d va s r t qs"
  defines "u \<equiv> setw r w t"
  shows "pool u qs" "space_ok d (mem u) (kend u) (set qs)" "kend u = kend s"
    "vmap d (mem u) x = (if PGROUNDDOWN x = PGROUNDDOWN va then (if w AND PTE_P \<noteq> 0 then Some w else None)
       else vmap d (mem s) x)"
proof -
  have r: "r = pte_at d va (mem t)" and pt: "has_pt d (PDX va) (mem t)" and pool: "pool t qs"
    and ok: "space_ok d (mem t) (kend t) (set qs)" and old: "vmap d (mem t) = vmap d (mem s)" "kend t = kend s"
    using e unfolding at_entry_def by blast+
  note se = set_entry [OF ok pt, of w, folded r]
  show "space_ok d (mem u) (kend u) (set qs)" using se(2) by (simp add: u_def setw_def)
  show "kend u = kend s" using old by (simp add: u_def setw_def)
  show "vmap d (mem u) x = (if PGROUNDDOWN x = PGROUNDDOWN va then (if w AND PTE_P \<noteq> 0 then Some w else None)
       else vmap d (mem s) x)" using se(1) [of x] by (simp add: u_def setw_def old)
  show "pool u qs"
    unfolding u_def setw_def
  proof (rule pool_mem [OF pool])
    fix p x
    assume p: "p \<in> set qs" "same_page p x"
    have "p mod 4096 = 0" "p \<noteq> pt_of d (PDX va) (mem t)"
      using p(1) poolD(3) [OF pool] space_okD(6) [OF ok PDX_less pt] by (auto simp: heap_page_def)
    then show "store32 r w (mem t) x = mem t x"
      unfolding r pte_at_def
      using store_entry_other_page [OF space_okD(5) [OF ok PDX_less pt] PTX_less _ _ p(2)] by simp
  qed
qed

lemma map_one:
  assumes pool: "pool s ps" and ok: "space_ok d (mem s) (kend s) (set ps)" and a: "a mod 4096 = 0" and none: "vmap d (mem s) a = None"
  obtains (full) t where "walkpgdir d a True s = Inr (0, t)" "pool t []" "space_ok d (mem t) (kend t) {}" "kend t = kend s"
  | (some) r t qs where "walkpgdir d a True s = Inr (r, t)" "r \<noteq> 0" "getw r t AND PTE_P = 0"
      "\<And>w. pool (setw r w t) qs" "\<And>w. space_ok d (mem (setw r w t)) (kend (setw r w t)) (set qs)"
      "\<And>w. kend (setw r w t) = kend s"
      "\<And>w x. vmap d (mem (setw r (w OR PTE_P) t)) x = (if PGROUNDDOWN x = a then Some (w OR PTE_P) else vmap d (mem s) x)"
proof -
  obtain r t where w: "walkpgdir d a True s = Inr (r, t)" and
    e: "if has_pt d (PDX a) (mem s) \<or> ps \<noteq> [] then at_entry d a s r t (if has_pt d (PDX a) (mem s) then ps else tl ps)
       else r = 0 \<and> pool t [] \<and> mem t = mem s \<and> kend t = kend s"
    using walkpgdir_alloc [OF pool ok] by blast
  show thesis
  proof (cases "has_pt d (PDX a) (mem s) \<or> ps \<noteq> []")
    case False
    then have "r = 0" "pool t []" "mem t = mem s" "kend t = kend s" "ps = []" using e by auto
    with w ok show thesis by (intro full [of t]) simp_all
  next
    case True
    define qs where "qs = (if has_pt d (PDX a) (mem s) then ps else tl ps)"
    have ae: "at_entry d a s r t qs" using e True by (simp add: qs_def)
    then have r: "r \<noteq> 0" "r = pte_at d a (mem t)" "vmap d (mem t) a = None" "has_pt d (PDX a) (mem t)"
      using none by (auto simp: at_entry_def)
    then have "getw r t AND PTE_P = 0" by (simp add: vmap_def getw_def split: if_splits)
    note se = set_entry_state [OF ae]
    show thesis
    proof (rule some [OF w r(1) \<open>getw r t AND PTE_P = 0\<close> se(1,2,3)])
      fix w x
      show "vmap d (mem (setw r (w OR PTE_P) t)) x = (if PGROUNDDOWN x = a then Some (w OR PTE_P) else vmap d (mem s) x)"
        using se(4) [of "w OR PTE_P" x] present_or [of w] unfolding PGROUNDDOWN_page [OF a] by (simp only: if_True not_False_eq_True)
    qed
  qed
qed

lemma mappages_loop_maps:
  assumes "pool s ps" and "space_ok d (mem s) (kend s) (set ps)" and "a mod 4096 = 0" and l: "l mod 4096 = 0"
    and "unat (l - a) \<le> 4096 * n" and "\<And>x. PGROUNDDOWN x - a \<le> l - a \<Longrightarrow> vmap d (mem s) x = None"
  shows "\<exists>r t qs. mappages_loop n d a l pa perm s = Inr (r, t) \<and> pool t qs \<and> space_ok d (mem t) (kend t) (set qs) \<and>
    kend t = kend s \<and> (r = 0 \<and> vmap d (mem t) = map_range a l pa perm (vmap d (mem s)) \<or> r = -1 \<and> qs = [])"
  using assms(1-3,5,6)
proof (induction n arbitrary: s ps a pa)
  case (0 s ps a pa)
  then have "unat (l - a) = 0" by simp
  then have al: "l = a" by (simp add: unat_eq_0)
  have none: "vmap d (mem s) a = None" using 0(5) [of a] PGROUNDDOWN_page [OF 0(3)] by simp
  show ?case
  proof (cases rule: map_one [OF 0(1,2,3) none, case_names full some])
    case (full t)
    then show ?thesis by (subst mappages_loop.simps) force
  next
    case (some r t qs)
    let ?u = "setw r (pa OR perm OR PTE_P) t"
    have "vmap d (mem ?u) = map_range a l pa perm (vmap d (mem s))"
      using some(7) [of "pa OR perm"] by (auto simp: map_range_def al or.assoc fun_eq_iff)
    then show ?thesis
      using some(1-6) by (subst mappages_loop.simps) (auto simp: al)
  qed
next
  case (Suc n s ps a pa)
  have none: "vmap d (mem s) a = None" using Suc.prems(5) [of a] PGROUNDDOWN_page [OF Suc.prems(3)] by simp
  show ?case
  proof (cases rule: map_one [OF Suc.prems(1,2,3) none, case_names full some])
    case (full t)
    then show ?thesis by (subst mappages_loop.simps) force
  next
    case (some r t qs)
    let ?w = "pa OR perm OR PTE_P"
    let ?u = "setw r ?w t"
    have vm: "vmap d (mem ?u) x = (if PGROUNDDOWN x = a then Some ?w else vmap d (mem s) x)" for x
      using some(7) [of "pa OR perm" x] by (simp only: or.assoc)
    show ?thesis
    proof (cases "a = l")
      case True
      then have "vmap d (mem ?u) = map_range a l pa perm (vmap d (mem s))"
        using vm by (auto simp: map_range_def fun_eq_iff)
      then show ?thesis using True some(1-6) by (subst mappages_loop.simps) auto
    next
      case False
      note step = range_step [OF PGROUNDDOWN_mod Suc.prems(3) l False]
      have le: "unat (l - (a + 4096)) \<le> 4096 * n"
      proof -
        obtain L where L: "unat (l - a) = 4096 * L" using page_diff [OF l Suc.prems(3)] unfolding unat_mult_iff ..
        have "l - a \<noteq> 0" using False by simp
        then have "L \<noteq> 0" using L unat_eq_0 [of "l - a"] by (intro notI) simp
        have "l - (a + 4096) = (l - a) - 4096" by simp
        also have "unat \<dots> = unat (l - a) - 4096" using L \<open>L \<noteq> 0\<close> by (subst unat_sub32) simp_all
        finally show ?thesis using Suc.prems(4) by simp
      qed
      have un: "vmap d (mem ?u) x = None" if "PGROUNDDOWN x - (a + 4096) \<le> l - (a + 4096)" for x
        using that Suc.prems(5) [of x] vm [of x] unfolding step by simp
      obtain r' t' qs' where IH: "mappages_loop n d (a + 4096) l (pa + 4096) perm ?u = Inr (r', t')" "pool t' qs'"
        "space_ok d (mem t') (kend t') (set qs')" "kend t' = kend ?u"
        "r' = 0 \<and> vmap d (mem t') = map_range (a + 4096) l (pa + 4096) perm (vmap d (mem ?u)) \<or> r' = -1 \<and> qs' = []"
        using Suc.IH [where pa = "pa + 4096", OF some(4) [of ?w] some(5) [of ?w] page_add [OF Suc.prems(3)] le un] by blast
      have "map_range (a + 4096) l (pa + 4096) perm (vmap d (mem ?u)) = map_range a l pa perm (vmap d (mem s))"
      proof (rule ext)
        fix x
        have "pa + 4096 + (PGROUNDDOWN x - (a + 4096)) = pa + (PGROUNDDOWN x - a)" by simp
        then show "map_range (a + 4096) l (pa + 4096) perm (vmap d (mem ?u)) x = map_range a l pa perm (vmap d (mem s)) x"
          unfolding map_range_def step vm by auto
      qed
      with IH some(1-3,6) False show ?thesis
        by (subst mappages_loop.simps) auto
    qed
  qed
qed

text \<open>
  C9. mappages updates the address space as a map. On a well-formed two-level table in which
  no page of the range is mapped, it returns 0 and every address of the range maps to the
  corresponding physical page with the permissions given, while every other address maps
  as before; or, only when no free page is left for a page table, it returns -1. The table
  stays well formed, and its pages stay apart from the free list.
\<close>

theorem mappages_binds_range:
  assumes "pool s ps" and "space_ok d (mem s) (kend s) (set ps)"
    and "\<forall>x. PGROUNDDOWN x - PGROUNDDOWN va \<le> PGROUNDDOWN (va + sz - 1) - PGROUNDDOWN va \<longrightarrow> vmap d (mem s) x = None"
  shows "\<exists>r t qs. mappages d va sz pa perm s = Inr (r, t) \<and> pool t qs \<and> space_ok d (mem t) (kend t) (set qs) \<and>
    (r = 0 \<and> vmap d (mem t) = map_range (PGROUNDDOWN va) (PGROUNDDOWN (va + sz - 1)) pa perm (vmap d (mem s)) \<or>
     r = -1 \<and> qs = [])"
proof -
  have "unat (PGROUNDDOWN (va + sz - 1) - PGROUNDDOWN va) \<le> 4096 * 2 ^ 20"
    using unat32_bound [of "PGROUNDDOWN (va + sz - 1) - PGROUNDDOWN va"] by simp
  from mappages_loop_maps [OF assms(1,2) PGROUNDDOWN_mod PGROUNDDOWN_mod this, of pa perm] assms(3)
  show ?thesis unfolding mappages_def Let_def by blast
qed

section \<open>Page faults\<close>

lemma decref_eq:
  assumes "pool s ps" and "heap_page (kend s) v"
  shows "decref v s = Inr (kmem_upd (mem s) (freelist s) ((cow_count s)(PAGEINDEX v := cow_count s (PAGEINDEX v) - 1)) s)"
proof -
  note d = poolD [OF assms(1)]
  have upd: "(kmem_enter s)\<lparr>cow_count := c\<rparr> = (kmem_enter s)\<lparr>mem := mem s, freelist := freelist s, cow_count := c\<rparr>" for c
    by (cases s) (auto simp: kmem_enter_def acq_def)
  show ?thesis
    using kmem_acquire_eq [OF d(4,5)] kmem_release_eq [OF d(4,5)] heap_page_index [OF assms(2)]
    by (simp add: decref_def set_count_def upd)
qed

lemma flushtlb_eq:
  assumes "cpu_wf s" and "c_proc (cpus s (this_cpu s)) = Some p"
  shows "flushtlb s = Inr (lcr3 (V2P (p_pgdir (procs s p))) (upd_cpu (pop1 \<circ> push1) s))"
  using my_eq [OF assms] by (simp add: flushtlb_def)

lemma pte_at_rounddown: "pte_at d (PGROUNDDOWN va) m = pte_at d va m" "PDX (PGROUNDDOWN va) = PDX va"
proof -
  have "PGROUNDDOWN (PGROUNDDOWN va) = PGROUNDDOWN va" by (rule PGROUNDDOWN_page) simp
  then have "PDX (PGROUNDDOWN va) = PDX va \<and> PTX (PGROUNDDOWN va) = PTX va" by (simp only: PGROUNDDOWN_iff)
  then show "pte_at d (PGROUNDDOWN va) m = pte_at d va m" "PDX (PGROUNDDOWN va) = PDX va" by (simp_all add: pte_at_def)
qed

lemma walkpgdir_present:
  assumes "vmap d (mem s) va = Some e" and "space_ok d (mem s) k F"
  shows "walkpgdir d (PGROUNDDOWN va) False s = Inr (pte_at d va (mem s), s)" "pte_at d va (mem s) \<noteq> 0"
    "getw (pte_at d va (mem s)) s = e" "has_pt d (PDX va) (mem s)"
proof -
  have h: "has_pt d (PDX va) (mem s)" "load32 (mem s) (pte_at d va (mem s)) = e"
    using assms(1) by (auto simp: vmap_def split: if_splits)
  show "has_pt d (PDX va) (mem s)" by (rule h(1))
  show "getw (pte_at d va (mem s)) s = e" using h(2) by (simp add: getw_def)
  show "walkpgdir d (PGROUNDDOWN va) False s = Inr (pte_at d va (mem s), s)"
    using h(1) pte_at_rounddown(1) [of d va "mem s"] pte_at_rounddown(2) [of va] by (simp add: walkpgdir_def has_pt_def getw_def pte_at_def pt_of_def)
  show "pte_at d va (mem s) \<noteq> 0"
    unfolding pte_at_def using entry_nonzero [OF space_okD(4) [OF assms(2) PDX_less h(1)] PTX_less] .
qed

text \<open>\<open>user_page d m v\<close>: the page at \<open>v\<close> is neither the directory nor one of its page tables.\<close>

definition user_page :: "uint \<Rightarrow> memory \<Rightarrow> uint \<Rightarrow> bool" where
  "user_page d m v \<longleftrightarrow> v \<noteq> d \<and> (\<forall>i < 1024. has_pt d i m \<longrightarrow> pt_of d i m \<noteq> v)"

lemma space_user_page_write:
  assumes ok: "space_ok d m k F" and u: "user_page d m v" "v mod 4096 = 0"
    and same: "\<And>x. \<not> same_page v x \<Longrightarrow> m' x = m x"
  shows "vmap d m' = vmap d m" "space_ok d m' k F" "pte_at d va m' = pte_at d va m"
    "has_pt d (PDX va) m' = has_pt d (PDX va) m" "pt_of d (PDX va) m' = pt_of d (PDX va) m"
proof -
  note d = space_okD [OF ok]
  have other: "load32 m' (entry t i) = load32 m (entry t i)" if "t mod 4096 = 0" "t \<noteq> v" "i < 1024" for t i
  proof (rule load32_page_cong [OF that(1,3)])
    fix x
    assume "same_page t x"
    then have "\<not> same_page v x" using pages_apart [OF that(1) u(2)] that(2) by auto
    then show "m' x = m x" by (rule same)
  qed
  have dir: "load32 m' (entry d i) = load32 m (entry d i)" if "i < 1024" for i
    using u(1) by (intro other d(2) that) (auto simp: user_page_def)
  have tab: "load32 m' (entry (pt_of d i m) k) = load32 m (entry (pt_of d i m) k)"
    if "i < 1024" "k < 1024" "has_pt d i m" for i k
    using u(1) that by (intro other d(5)) (auto simp: user_page_def)
  show "vmap d m' = vmap d m" "space_ok d m' k F" using space_cong [OF ok dir tab] by auto
  show "pte_at d va m' = pte_at d va m" "has_pt d (PDX va) m' = has_pt d (PDX va) m"
    "pt_of d (PDX va) m' = pt_of d (PDX va) m"
    using dir [OF PDX_less] by (simp_all add: pte_at_def pt_of_def has_pt_def)
qed

lemma heap_page_top:
  assumes "heap_page e v" and "KERNBASE \<le> e"
  shows "unat v + 4096 < 2 ^ 32"
proof -
  have k: "0x80000000 \<le> unat v" using assms by (auto simp: heap_page_def word_le_nat_alt)
  have "unat (V2P v) = unat v - 0x80000000" using k unat_sub32 [of "0x80000000" v] by (simp add: V2P_def)
  moreover have "unat (V2P v) < 0xE000000" using assms(1) by (simp add: heap_page_def word_less_nat_alt)
  ultimately show ?thesis by simp
qed

text \<open>The copy: the new page gets the bytes of the old one, and nothing else changes.\<close>

lemma copy_page:
  assumes "heap_page e v" and "heap_page e m" and "KERNBASE \<le> e"
  shows "k < 4096 \<Longrightarrow> memmove m v 4096 mm (m + k) = mm (v + k)"
    and "\<not> same_page m x \<Longrightarrow> memmove m v 4096 mm x = mm x"
proof -
  have eq: "memmove m v 4096 mm x = (if x - m < 4096 then mm (v + (x - m)) else mm x)" for x
    using heap_page_top [OF assms(1,3)] heap_page_top [OF assms(2,3)] by (intro memmove_eq) simp_all
  show "k < 4096 \<Longrightarrow> memmove m v 4096 mm (m + k) = mm (v + k)" by (simp add: eq)
  show "\<not> same_page m x \<Longrightarrow> memmove m v 4096 mm x = mm x" by (simp add: eq same_page_def)
qed

lemma PAGEINDEX_inj:
  assumes "heap_page e v" and "heap_page e w" and "KERNBASE \<le> e" and "PAGEINDEX v = PAGEINDEX w"
  shows "v = w"
proof -
  have "unat x = 4096 * PAGEINDEX x + 0x80000000" if "heap_page e x" for x
  proof -
    have k: "0x80000000 \<le> unat x" using that assms(3) by (auto simp: heap_page_def word_le_nat_alt)
    have "unat (V2P x) = unat x - 0x80000000" using k unat_sub32 [of "0x80000000" x] by (simp add: V2P_def)
    moreover have "V2P x mod 4096 = 0" using that unfolding heap_page_def by (intro V2P_page) blast
    then obtain l where l: "unat (V2P x) = 4096 * l" unfolding unat_mult_iff ..
    then have "PAGEINDEX x = l" by (simp add: PAGEINDEX_def unat_div_distrib)
    ultimately show ?thesis using k l by simp
  qed
  then have "unat v = unat w" using assms by metis
  then show ?thesis by (simp add: word_unat_eq_iff)
qed

text \<open>
  A write fault at a user address of the running process whose entry is \<open>e\<close>, in an address
  space in good order.
\<close>

definition faulting :: "kernel \<Rightarrow> uint list \<Rightarrow> nat \<Rightarrow> uint \<Rightarrow> uint \<Rightarrow> bool" where
  "faulting s ps p va e \<longleftrightarrow> pool s ps \<and> c_proc (cpus s (this_cpu s)) = Some p \<and>
     space_ok (p_pgdir (procs s p)) (mem s) (kend s) (set ps) \<and> c_cr2 (cpus s (this_cpu s)) = va \<and> va < KERNBASE \<and>
     vmap (p_pgdir (procs s p)) (mem s) va = Some e \<and> heap_page (kend s) (P2V (PTE_ADDR e)) \<and>
     P2V (PTE_ADDR e) \<notin> set ps \<and> user_page (p_pgdir (procs s p)) (mem s) (P2V (PTE_ADDR e))"

lemma handlepgflt_walk:
  assumes "faulting s ps p va e"
  defines "s1 \<equiv> upd_cpu (pop1 \<circ> push1) s" and "v \<equiv> P2V (PTE_ADDR e)" and "pte \<equiv> pte_at (p_pgdir (procs s p)) va (mem s)"
  shows "handlepgflt s =
    (if cow_count s (PAGEINDEX v) > 1 then
       bindr (kalloc s1) (\<lambda>(m, s).
         if m = 0 then pgflt_kill ''pid %d %s: No memory available.\<newline>'' s
         else bindr (decref v (setw pte (V2P m OR PTE_FLAGS e OR PTE_P OR PTE_W) (s\<lparr>mem := memmove m v PGSIZE (mem s)\<rparr>))) flushtlb)
     else flushtlb (setw pte (e OR PTE_W) s1))"
    and "pool s1 ps"
proof -
  let ?d = "p_pgdir (procs s p)"
  have f: "pool s ps" "c_proc (cpus s (this_cpu s)) = Some p" "space_ok ?d (mem s) (kend s) (set ps)"
    "c_cr2 (cpus s (this_cpu s)) = va" "va < KERNBASE" "vmap ?d (mem s) va = Some e" "heap_page (kend s) v"
    using assms(1) by (simp_all add: faulting_def v_def)
  have my: "my s = Inr (p, s1)" unfolding s1_def by (rule my_eq [OF poolD(4) [OF f(1)] f(2)])
  have s1: "mem s1 = mem s" "procs s1 = procs s" "cow_count s1 = cow_count s" by (simp_all add: s1_def)
  have vm: "vmap ?d (mem s1) va = Some e" "space_ok ?d (mem s1) (kend s) (set ps)" using f(3,6) by (simp_all add: s1)
  note w = walkpgdir_present [OF vm, unfolded s1, folded pte_def]
  have rc: "refcount v s1 = Inr (uint (cow_count s (PAGEINDEX v)))"
    using heap_page_index [OF f(7)] by (simp add: refcount_def s1)
  have one: "(1 < uint (cow_count s (PAGEINDEX v))) = (1 < cow_count s (PAGEINDEX v))"
    by (simp add: word_less_def)
  have nk: "(KERNBASE \<le> va) = False" using f(5) by (simp only: not_le [symmetric])
  have np: "(pte = 0) = False" using w(2) by simp
  show "handlepgflt s =
    (if cow_count s (PAGEINDEX v) > 1 then
       bindr (kalloc s1) (\<lambda>(m, s).
         if m = 0 then pgflt_kill ''pid %d %s: No memory available.\<newline>'' s
         else bindr (decref v (setw pte (V2P m OR PTE_FLAGS e OR PTE_P OR PTE_W) (s\<lparr>mem := memmove m v PGSIZE (mem s)\<rparr>))) flushtlb)
     else flushtlb (setw pte (e OR PTE_W) s1))"
    by (simp only: handlepgflt_def Let_def f(4) nk if_False my bindr_simps prod.case s1 w(1,3) np v_def [symmetric] rc one)
  show "pool s1 ps" using f(1) cpu_view_pp by (simp add: pool_def s1_def)
qed

lemma user_page_free:
  assumes "space_ok d m k F" and "v \<in> F"
  shows "user_page d m v"
  using assms space_okD(3,6) [OF assms(1)] by (auto simp: user_page_def)

lemma same_page_offset: "k < 4096 \<Longrightarrow> same_page v (v + k)"
  by (simp add: same_page_def)

text \<open>
  C7. A write fault on a shared page gives the process its own copy. If the page behind a
  mapped user address has more than one reference and a page is free, handlepgflt returns
  with that address (and no other) mapped, writable and with its other permissions kept, to
  the freshly allocated page, which holds the same 4096 bytes; the shared page keeps its
  bytes and loses one reference, the new page has one, and cr3 is reloaded.
\<close>

theorem cow_fault_copies:
  assumes "faulting s (m # ps) p va e" and "1 < cow_count s (PAGEINDEX (P2V (PTE_ADDR e)))"
  defines "d \<equiv> p_pgdir (procs s p)" and "v \<equiv> P2V (PTE_ADDR e)"
  shows "\<exists>t. handlepgflt s = Inr t \<and>
    (\<forall>x. vmap d (mem t) x = (if PGROUNDDOWN x = PGROUNDDOWN va then Some (V2P m OR PTE_FLAGS e OR PTE_P OR PTE_W)
                            else vmap d (mem s) x)) \<and>
    (\<forall>k < 4096. mem t (m + k) = mem s (v + k) \<and> mem t (v + k) = mem s (v + k)) \<and>
    cow_count t = (cow_count s)(PAGEINDEX m := 1, PAGEINDEX v := cow_count s (PAGEINDEX v) - 1) \<and>
    c_cr3 (cpus t (this_cpu s)) = V2P d \<and> pool t ps \<and> space_ok d (mem t) (kend s) (set ps) \<and> procs t = procs s"
proof -
  let ?s1 = "upd_cpu (pop1 \<circ> push1) s"
  note walk = handlepgflt_walk [OF assms(1), folded d_def v_def]
  have f: "pool s (m # ps)" "c_proc (cpus s (this_cpu s)) = Some p" "space_ok d (mem s) (kend s) (set (m # ps))"
    "vmap d (mem s) va = Some e" "heap_page (kend s) v" "v \<notin> set (m # ps)" "user_page d (mem s) v"
    using assms(1) by (simp_all add: faulting_def d_def v_def)
  have m: "heap_page (kend s) m" "m \<noteq> 0" using poolD(3) [OF f(1), of m] by (auto simp: heap_page_def)
  have vp: "v mod 4096 = 0" "m mod 4096 = 0" "m \<noteq> v" using f(5,6) m by (auto simp: heap_page_def)
  have kb: "KERNBASE \<le> kend s" by (rule poolD(6) [OF f(1)])
  let ?s2 = "kmem_upd (mem s) (load32 (mem s) m) ((cow_count s)(PAGEINDEX m := 1)) ?s1"
  have ka: "kalloc ?s1 = Inr (m, ?s2)" "pool ?s2 ps" using kalloc_some [OF walk(2)] by simp_all
  define m1 where "m1 = memmove m v PGSIZE (mem s)"
  have cp: "\<And>k. k < 4096 \<Longrightarrow> m1 (m + k) = mem s (v + k)" "\<And>x. \<not> same_page m x \<Longrightarrow> m1 x = mem s x"
    unfolding m1_def PGSIZE_def using copy_page [OF f(5) m(1) kb] by auto
  note up = space_user_page_write [OF f(3) user_page_free [OF f(3), of m] vp(2) cp(2)]
  have up': "vmap d m1 = vmap d (mem s)" "space_ok d m1 (kend s) (set (m # ps))" "pte_at d va m1 = pte_at d va (mem s)"
    "has_pt d (PDX va) m1" using up f(4) by (auto simp: vmap_def split: if_splits)
  let ?w = "V2P m OR PTE_FLAGS e OR PTE_P OR PTE_W" and ?pte = "pte_at d va (mem s)"
  note se = set_entry [OF up'(2,4), of ?w, unfolded up'(3)]
  let ?m2 = "store32 ?pte ?w m1"
  let ?pt = "pt_of d (PDX va) (mem s)"
  have pt1: "pt_of d (PDX va) m1 = ?pt" and h: "has_pt d (PDX va) (mem s)" using up(4,5) up'(4) by auto
  have tab: "?pt mod 4096 = 0" "?pt \<notin> set (m # ps)" "?pt \<noteq> v"
    using space_okD(5,6) [OF f(3) PDX_less h] f(7) PDX_less [of va] h by (auto simp only: user_page_def)
  have off: "?m2 x = m1 x" if "same_page q x" "q mod 4096 = 0" "q \<noteq> ?pt" for q x
    unfolding pte_at_def using store_entry_other_page [OF tab(1) PTX_less that(2,3,1)] .
  let ?s3 = "setw ?pte ?w (?s2\<lparr>mem := m1\<rparr>)"
  have s3: "?s3 = ?s2\<lparr>mem := ?m2\<rparr>" by (simp add: setw_def)
  have pool3: "pool ?s3 ps"
    unfolding s3
  proof (rule pool_mem [OF ka(2)])
    fix q x
    assume q: "q \<in> set ps" "same_page q x"
    have qp: "q mod 4096 = 0" "q \<noteq> m" "q \<noteq> ?pt"
      using q(1) poolD(2,3) [OF f(1)] tab(2) by (auto simp: heap_page_def)
    then have "\<not> same_page m x" using pages_apart [OF qp(1) vp(2) q(2)] by auto
    then show "?m2 x = mem ?s2 x" using off [OF q(2) qp(1,3)] cp(2) by simp
  qed
  have "heap_page (kend ?s3) v" using f(5) unfolding s3 by simp
  note dr = decref_eq [OF pool3 this]
  let ?c = "(cow_count s)(PAGEINDEX m := 1, PAGEINDEX v := cow_count s (PAGEINDEX v) - 1)"
  have idx: "PAGEINDEX v \<noteq> PAGEINDEX m" using PAGEINDEX_inj [OF f(5) m(1) kb] vp(3) by auto
  define s4 where "s4 = kmem_upd ?m2 (freelist ?s3) ?c ?s3"
  have dr': "decref v ?s3 = Inr s4" using dr idx unfolding s4_def s3 by simp
  have pool4: "pool s4 ps" unfolding s4_def using poolI [OF pool3, of ?m2] poolD [OF pool3] unfolding s3 by simp
  have p4: "c_proc (cpus s4 (this_cpu s4)) = Some p" "procs s4 = procs s" "this_cpu s4 = this_cpu s" "mem s4 = ?m2"
    "cow_count s4 = ?c" "kend s4 = kend s"
    using f(2) unfolding s4_def s3 by simp_all
  define t where "t = lcr3 (V2P d) (upd_cpu (pop1 \<circ> push1) s4)"
  have "handlepgflt s = Inr t"
    unfolding walk(1) if_P [OF assms(2) [folded v_def]] ka(1) bindr_simps prod.case
    using m(2) dr' flushtlb_eq [OF poolD(4) [OF pool4] p4(1)] by (simp add: m1_def t_def p4 d_def)
  moreover have "mem t = ?m2" "procs t = procs s" "cow_count t = ?c" "c_cr3 (cpus t (this_cpu s)) = V2P d"
    using p4 by (simp_all add: t_def lcr3_def)
  moreover have "pool t ps"
    using pool4 cpu_view_pp [of "this_cpu s4" "ncpu s4" "cpus s4"] by (simp add: t_def lcr3_def pool_def cpu_view_def)
  moreover have "?w AND PTE_P \<noteq> 0" unfolding present_bit by (simp add: bit_or_iff)
  then have "vmap d ?m2 x = (if PGROUNDDOWN x = PGROUNDDOWN va then Some ?w else vmap d (mem s) x)" for x
    using se(1) [of x] up'(1) by (simp only: if_True not_False_eq_True)
  moreover have "space_ok d ?m2 (kend s) (set ps)" using se(2) by (auto simp: space_ok_def)
  moreover have "?m2 (m + k) = mem s (v + k)" "?m2 (v + k) = mem s (v + k)" if "k < 4096" for k
  proof -
    show "?m2 (m + k) = mem s (v + k)"
      using off [OF same_page_offset [OF that] vp(2)] tab(2) cp(1) [OF that] by auto
    have "\<not> same_page m (v + k)" using pages_apart [OF vp(1,2) same_page_offset [OF that]] vp(3) by auto
    then show "?m2 (v + k) = mem s (v + k)"
      using off [OF same_page_offset [OF that] vp(1)] tab(3) cp(2) by auto
  qed
  ultimately show ?thesis by (intro exI [of _ t] conjI allI impI) (simp_all only:)
qed

text \<open>
  C8. The last owner of a page gets it back writable: if the page behind a mapped user address
  has a single reference, handlepgflt returns with that address mapped to the same page,
  now writable, every other address as before, and no byte of any page but the page table's
  changed.
\<close>

theorem cow_fault_last_reference:
  assumes "faulting s ps p va e" and "\<not> 1 < cow_count s (PAGEINDEX (P2V (PTE_ADDR e)))"
  defines "d \<equiv> p_pgdir (procs s p)"
  shows "\<exists>t. handlepgflt s = Inr t \<and>
    (\<forall>x. vmap d (mem t) x = (if PGROUNDDOWN x = PGROUNDDOWN va then Some (e OR PTE_W) else vmap d (mem s) x)) \<and>
    (\<forall>x. \<not> same_page (pt_of d (PDX va) (mem s)) x \<longrightarrow> mem t x = mem s x) \<and>
    cow_count t = cow_count s \<and> c_cr3 (cpus t (this_cpu s)) = V2P d \<and> procs t = procs s"
proof -
  let ?s1 = "upd_cpu (pop1 \<circ> push1) s"
  note walk = handlepgflt_walk [OF assms(1), folded d_def]
  have f: "pool s ps" "c_proc (cpus s (this_cpu s)) = Some p" "space_ok d (mem s) (kend s) (set ps)"
    "vmap d (mem s) va = Some e"
    using assms(1) by (simp_all add: faulting_def d_def)
  have h: "has_pt d (PDX va) (mem s)" "e AND PTE_P \<noteq> 0" using f(4) by (auto simp: vmap_def split: if_splits)
  let ?m = "store32 (pte_at d va (mem s)) (e OR PTE_W) (mem s)"
  have "bit e 0" using h(2) unfolding present_bit .
  then have "(e OR PTE_W) AND PTE_P \<noteq> 0" unfolding present_bit by (simp add: bit_or_iff)
  then have vm: "vmap d ?m x = (if PGROUNDDOWN x = PGROUNDDOWN va then Some (e OR PTE_W) else vmap d (mem s) x)" for x
    using set_entry(1) [OF f(3) h(1), of "e OR PTE_W" x] by (simp only: if_True not_False_eq_True)
  have same: "?m x = mem s x" if "\<not> same_page (pt_of d (PDX va) (mem s)) x" for x
  proof -
    have "pte_at d va (mem s) + of_nat k \<noteq> x" if "k < 4" for k
      using entry_page [OF space_okD(5) [OF f(3) PDX_less h(1)] PTX_less that] \<open>\<not> same_page _ x\<close>
      unfolding pte_at_def by auto
    from this [of 0] this [of 1] this [of 2] this [of 3] show ?thesis by (auto simp: store32_def)
  qed
  define s2 where "s2 = setw (pte_at d va (mem s)) (e OR PTE_W) ?s1"
  have s2: "s2 = ?s1\<lparr>mem := ?m\<rparr>" by (simp add: s2_def setw_def)
  have c2: "cpu_wf s2" "c_proc (cpus s2 (this_cpu s2)) = Some p"
    using poolD(4) [OF walk(2)] f(2) unfolding s2 by simp_all
  define t where "t = lcr3 (V2P d) (upd_cpu (pop1 \<circ> push1) s2)"
  have "handlepgflt s = flushtlb s2" unfolding walk(1) if_not_P [OF assms(2)] s2_def ..
  also have "\<dots> = Inr t"
  proof -
    have "procs s2 = procs s" unfolding s2 by simp
    then show ?thesis by (simp only: flushtlb_eq [OF c2] t_def d_def)
  qed
  finally have "handlepgflt s = Inr t" .
  moreover have "mem t = ?m" "procs t = procs s" "cow_count t = cow_count s" "c_cr3 (cpus t (this_cpu s)) = V2P d"
    unfolding t_def lcr3_def s2 by simp_all
  ultimately show ?thesis using vm same by (intro exI [of _ t] conjI allI impI) (simp_all only:)
qed

section \<open>A small address space\<close>

text \<open>
  For the examples: one process with one page, at user address 0x1000, readable and shared
  with count \<open>c\<close>; one page is free.
\<close>

definition small_mem :: memory where
  "small_mem = store32 (entry 0x80200000 0) 0x201007 (store32 (entry 0x80201000 1) 0x202005 (\<lambda>_. 0))"

definition small_space :: "uchar \<Rightarrow> kernel" where
  "small_space c = (booted 1)\<lparr>mem := small_mem, freelist := 0x80203000, cow_count := (\<lambda>_. c),
     procs := (\<lambda>_. zero_proc\<lparr>p_pgdir := 0x80200000\<rparr>),
     cpus := (\<lambda>i. zero_cpu\<lparr>c_apicid := of_nat i, c_proc := Some 7, c_cr2 := 0x1004\<rparr>)\<rparr>"

lemma load32_zero: "load32 (\<lambda>_. 0) a = 0"
  by (simp add: load32_def word_of_def)

lemma small_mem_load:
  assumes "i < 1024"
  shows "load32 small_mem (entry 0x80200000 i) = (if i = 0 then 0x201007 else 0)"
    and "load32 small_mem (entry 0x80201000 i) = (if i = 1 then 0x202005 else 0)"
    and "load32 small_mem (entry 0x80203000 i) = 0"
  using assms by (simp_all add: small_mem_def load_store_entry load32_zero)

lemma small_mem_pt:
  "i < 1024 \<Longrightarrow> has_pt 0x80200000 i small_mem \<longleftrightarrow> i = 0" "pt_of 0x80200000 0 small_mem = 0x80201000"
  by (simp_all add: has_pt_def pt_of_def small_mem_load P2V_def PTE_ADDR_def)

lemma small_vmap: "vmap 0x80200000 small_mem x = (if PGROUNDDOWN x = 0x1000 then Some 0x202005 else None)"
proof -
  have "PGROUNDDOWN x = PGROUNDDOWN 0x1000 \<longleftrightarrow> PDX x = 0 \<and> PTX x = 1"
    unfolding PGROUNDDOWN_iff by (simp add: PDX_def PTX_def)
  then have iff: "PGROUNDDOWN x = 0x1000 \<longleftrightarrow> PDX x = 0 \<and> PTX x = 1" by (simp add: PGROUNDDOWN_def)
  show ?thesis
  proof (cases "PDX x = 0")
    case True
    then have "pte_at 0x80200000 x small_mem = entry 0x80201000 (PTX x)" by (simp add: pte_at_def small_mem_pt)
    then show ?thesis using True small_mem_load(2) [OF PTX_less, of x] small_mem_load(2) [of 1] small_mem_pt(1) [of 0]
      by (simp add: vmap_def iff)
  next
    case False
    then show ?thesis using small_mem_pt(1) [OF PDX_less] by (simp add: vmap_def iff)
  qed
qed

lemma small_space_simps [simp]:
  "mem (small_space c) = small_mem" "kend (small_space c) = 0x80120000" "cow_count (small_space c) = (\<lambda>_. c)"
  "procs (small_space c) = (\<lambda>_. zero_proc\<lparr>p_pgdir := 0x80200000\<rparr>)"
  by (simp_all add: small_space_def)

lemma small_pool: "pool (small_space c) [0x80203000]"
proof -
  have "cpu_wf (booted 1)" by simp
  moreover have "load32 small_mem 0x80203000 = 0" using small_mem_load(3) [of 0] by (simp add: entry_def)
  ultimately show ?thesis
    by (simp add: pool_def small_space_def heap_page_def V2P_def cpu_view_def distinct_ids_def)
qed

lemma small_space_ok: "space_ok 0x80200000 small_mem 0x80120000 (set [0x80203000])"
  using small_mem_pt by (auto simp: space_ok_def heap_page_def V2P_def)

lemma small_faulting: "faulting (small_space c) [0x80203000] 7 0x1004 0x202005"
proof -
  have "user_page 0x80200000 small_mem 0x80202000" using small_mem_pt by (auto simp: user_page_def)
  moreover have "vmap 0x80200000 small_mem 0x1004 = Some 0x202005" by (simp add: small_vmap PGROUNDDOWN_def)
  moreover have "P2V (PTE_ADDR 0x202005) = 0x80202000" by (simp add: P2V_def PTE_ADDR_def)
  moreover have "heap_page 0x80120000 0x80202000" by (simp add: heap_page_def V2P_def)
  ultimately show ?thesis
    using small_pool [of c] small_space_ok by (simp add: faulting_def) (simp add: small_space_def)
qed

theorem mappages_binds_range_witness:
  "\<exists>r t. mappages 0x80200000 0x5000 4096 0x203000 6 (small_space 1) = Inr (r, t) \<and>
     (r = 0 \<longrightarrow> vmap 0x80200000 (mem t) 0x5008 = Some 0x203007 \<and> vmap 0x80200000 (mem t) 0x1000 = Some 0x202005)"
proof -
  have "vmap 0x80200000 (mem (small_space 1)) x = None"
    if "PGROUNDDOWN x - PGROUNDDOWN 0x5000 \<le> PGROUNDDOWN (0x5000 + 4096 - 1) - PGROUNDDOWN 0x5000" for x
    using that by (auto simp: small_vmap PGROUNDDOWN_def)
  then obtain r t qs where rt: "mappages 0x80200000 0x5000 4096 0x203000 6 (small_space 1) = Inr (r, t)" and
    res: "r = 0 \<and> vmap 0x80200000 (mem t) = map_range (PGROUNDDOWN 0x5000) (PGROUNDDOWN (0x5000 + 4096 - 1)) 0x203000 6
        (vmap 0x80200000 small_mem) \<or> r = -1 \<and> qs = []"
    using mappages_binds_range [OF small_pool [of 1], of "0x80200000" "0x5000" 4096 "0x203000" 6] small_space_ok by auto
  have "r = 0 \<longrightarrow> vmap 0x80200000 (mem t) 0x5008 = Some 0x203007 \<and> vmap 0x80200000 (mem t) 0x1000 = Some 0x202005"
    using res by (auto simp: map_range_def small_vmap PGROUNDDOWN_def)
  with rt show ?thesis by blast
qed

theorem cow_fault_copies_witness:
  "\<exists>t. handlepgflt (small_space 2) = Inr t \<and> vmap 0x80200000 (mem t) 0x1004 = Some 0x203007 \<and>
     mem t 0x80203010 = small_mem 0x80202010"
proof -
  have "P2V (PTE_ADDR 0x202005) = 0x80202000" by (simp add: P2V_def PTE_ADDR_def)
  with cow_fault_copies [OF small_faulting, of 2] obtain t where t: "handlepgflt (small_space 2) = Inr t"
    "\<forall>x. vmap 0x80200000 (mem t) x = (if PGROUNDDOWN x = PGROUNDDOWN 0x1004
        then Some (V2P 0x80203000 OR PTE_FLAGS 0x202005 OR PTE_P OR PTE_W) else vmap 0x80200000 small_mem x)"
    "\<forall>k < 4096. mem t (0x80203000 + k) = small_mem (0x80202000 + k)" by auto
  from t(2) have "vmap 0x80200000 (mem t) 0x1004 = Some 0x203007" by (simp add: V2P_def PTE_FLAGS_def)
  moreover from t(3) [rule_format, of "0x10"] have "mem t 0x80203010 = small_mem 0x80202010" by simp
  ultimately show ?thesis using t(1) by blast
qed

theorem cow_fault_last_reference_witness:
  "\<exists>t. handlepgflt (small_space 1) = Inr t \<and> vmap 0x80200000 (mem t) 0x1004 = Some 0x202007"
proof -
  from cow_fault_last_reference [OF small_faulting, of 1] obtain t where t: "handlepgflt (small_space 1) = Inr t"
    "\<forall>x. vmap 0x80200000 (mem t) x = (if PGROUNDDOWN x = PGROUNDDOWN 0x1004 then Some (0x202005 OR PTE_W)
       else vmap 0x80200000 small_mem x)" by auto
  then show ?thesis by simp
qed

end
