(* ===== verification/Wal.thy ===== *)
theory Wal
  imports Log
begin

text \<open>
  The write-ahead log against crashes. The operations are those of \<open>Log\<close> (\<^verbatim>\<open>log.c\<close>): this theory
  follows every block they write through the buffer cache to the disk, says what a disk with a
  log on it stands for, and proves that a commit is atomic and recovery idempotent.
\<close>

section \<open>Copying blocks through the cache\<close>

text \<open>\<open>pin s b n\<close>: buffer \<open>b\<close> holds block \<open>n\<close>, modified and not yet written.\<close>

definition pin :: "kernel \<Rightarrow> nat \<Rightarrow> uint \<Rightarrow> bool" where
  "pin s b n \<longleftrightarrow> b < 30 \<and> holds (bcache s b) n \<and> b_valid (bcache s b) \<and> b_dirty (bcache s b)"

definition tidy :: "kernel \<Rightarrow> bool" where
  "tidy s \<longleftrightarrow> (\<forall>b < 30. b_dirty (bcache s b) \<longrightarrow> b_dev (bcache s b) = 1 \<and> b_valid (bcache s b))"

definition pinned_bufs :: "kernel \<Rightarrow> nat set" where
  "pinned_bufs s = {b. \<exists>n. pin s b n}"

lemma tidy_dirty: "tidy s \<Longrightarrow> b < 30 \<Longrightarrow> b_dirty (bcache s b) \<longleftrightarrow> b \<in> pinned_bufs s"
  by (auto simp: tidy_def pinned_bufs_def pin_def holds_def)

lemma spare_few:
  assumes "tidy s" and "finite H" and "card (pinned_bufs s) + card H < 30"
  shows "spare (bcache s) H"
proof -
  have fin: "finite (pinned_bufs s)" by (rule finite_subset [of _ "{..<30}"]) (auto simp: pinned_bufs_def pin_def)
  have "card (pinned_bufs s \<union> H) < card {..<30 :: nat}"
    using card_Un_le [of "pinned_bufs s" H] assms(3) by simp
  then have "\<not> {..<30} \<subseteq> pinned_bufs s \<union> H" using card_mono [of "pinned_bufs s \<union> H" "{..<30}"] fin assms(2) by auto
  then obtain b where "b < 30" "b \<notin> pinned_bufs s" "b \<notin> H" by auto
  then show ?thesis using tidy_dirty [OF assms(1)] by (auto simp: spare_def)
qed

lemma got_pins:
  assumes "got p s H n b t" and "tidy s"
  shows "pin t a m \<longleftrightarrow> pin s a m"
proof (cases "a = b")
  case True
  have t: "b < 30" "holds (bcache t b) n" "b_dirty (bcache t b) \<longleftrightarrow> holds (bcache s b) n \<and> b_dirty (bcache s b)"
    "b_dirty (bcache s b) \<longrightarrow> holds (bcache s b) n" "bufs p (insert b H) t"
    using assms(1) by (simp_all add: got_def)
  have "b_valid (bcache t b)" using t(5) cache_okD(3) [of _ _ _ "insert b H" b] by (auto simp: bufs_def held_buf_def)
  then show ?thesis using t assms(2) True by (auto simp: pin_def holds_def tidy_def)
next
  case False
  then show ?thesis using assms(1) by (simp add: got_def pin_def)
qed

lemma got_tidy: "got p s H n b t \<Longrightarrow> tidy s \<Longrightarrow> tidy t"
proof -
  assume g: "got p s H n b t" and td: "tidy s"
  have "b_valid (bcache t b)" "holds (bcache t b) n"
    using g cache_okD(3) [of _ _ _ "insert b H" b] by (auto simp: got_def bufs_def held_buf_def)
  then show "tidy t" using g td unfolding tidy_def got_def holds_def by metis
qed

text \<open>Two blocks read one after the other.\<close>

definition got2 :: "nat \<Rightarrow> kernel \<Rightarrow> uint \<Rightarrow> uint \<Rightarrow> nat \<Rightarrow> nat \<Rightarrow> kernel \<Rightarrow> bool" where
  "got2 p s x y a b t \<longleftrightarrow> bio p s t \<and> disk t = disk s \<and> bufs p {a, b} t \<and> a \<noteq> b \<and> holds (bcache t a) x \<and> holds (bcache t b) y \<and>
     same_block (buf_data a t) (contents s x) \<and> same_block (buf_data b t) (contents s y) \<and>
     (\<not> b_dirty (bcache t a) \<longrightarrow> same_block (buf_data a t) (disk t (unat x))) \<and>
     (\<not> b_dirty (bcache t b) \<longrightarrow> same_block (buf_data b t) (disk t (unat y))) \<and>
     (\<forall>m. same_block (contents t m) (contents s m)) \<and> (\<forall>c m. pin t c m \<longleftrightarrow> pin s c m) \<and> tidy t"

lemma bread2:
  assumes ok: "bufs p {} s" and td: "tidy s" and x: "x < disksize s" and y: "y < disksize s" and ne: "x \<noteq> y"
    and room: "card (pinned_bufs s) < 30" "(\<exists>b. pin s b y) \<or> card (pinned_bufs s) < 29"
  shows "wp (bread 1 x s) (\<lambda>(a, s1). bio p s s1 \<and> wp (bread 1 y s1) (\<lambda>(b, t). got2 p s x y a b t))"
proof -
  have "wp (bread 1 x s) (\<lambda>(a, s1). got p s {} x a s1)"
    using spare_few [OF td, of "{}"] room(1) by (intro bread_got [OF ok x]) auto
  then show ?thesis
  proof (rule wp_mono, clarify)
    fix a s1
    assume g: "got p s {} x a s1"
    have g': "bufs p {a} s1" "bio p s s1" "holds (bcache s1 a) x" "disk s1 = disk s" "a < 30" "\<And>m. same_block (contents s1 m) (contents s m)"
      using g by (simp_all add: got_def)
    have td1: "tidy s1" using got_tidy [OF g td] .
    have pins: "pin s1 c m \<longleftrightarrow> pin s c m" for c m using got_pins [OF g td] .
    then have pb: "pinned_bufs s1 = pinned_bufs s" by (simp add: pinned_bufs_def)
    have "wp (bread 1 y s1) (\<lambda>(b, t). got p s1 {a} y b t)"
    proof (rule bread_got [OF g'(1)])
      show "y < disksize s1" using y bio_fields(2) [OF g'(2)] by simp
      show "\<not> holds (bcache s1 b) y" if "b \<in> {a}" for b using that g'(3) ne by (auto simp: holds_def)
      show "(\<exists>b < 30. holds (bcache s1 b) y) \<or> spare (bcache s1) {a}"
        using room(2) pins spare_few [OF td1, of "{a}"] pb by (auto simp: pin_def)
    qed
    then have "wp (bread 1 y s1) (\<lambda>(b, t). got2 p s x y a b t)"
    proof (rule wp_mono, clarify)
      fix b t
      assume h: "got p s1 {a} y b t"
      have h': "b \<noteq> a" "bufs p {b, a} t" "bio p s1 t" "disk t = disk s1" "bcache t a = bcache s1 a" "holds (bcache t b) y"
        "same_block (buf_data b t) (contents s1 y)" "\<not> b_dirty (bcache t b) \<longrightarrow> same_block (buf_data b t) (disk s1 (unat y))"
        "\<And>m. same_block (contents t m) (contents s1 m)"
        using h by (auto simp: got_def)
      have "same_block (buf_data a s1) (contents s x)" "\<not> b_dirty (bcache s1 a) \<longrightarrow> same_block (buf_data a s1) (disk s (unat x))"
        using g by (simp_all add: got_def)
      then show "got2 p s x y a b t"
        using g' h' bio_trans [OF g'(2) h'(3)] got_pins [OF h td1] pins got_tidy [OF h td1]
        unfolding got2_def buf_data_def by (auto simp: insert_commute intro: same_block_trans)
    qed
    with g'(2) show "bio p s s1 \<and> wp (bread 1 y s1) (\<lambda>(b, t). got2 p s x y a b t)" ..
  qed
qed

text \<open>\<open>stored p s n x t\<close>: block \<open>n\<close> has been given the contents \<open>x\<close> on disk and in the cache; nothing else has changed.\<close>

definition stored :: "nat \<Rightarrow> kernel \<Rightarrow> uint \<Rightarrow> block \<Rightarrow> kernel \<Rightarrow> bool" where
  "stored p s n x t \<longleftrightarrow> bio p s t \<and> bufs p {} t \<and> tidy t \<and>
     (\<exists>x'. same_block x' x \<and> disk t = (disk s)(unat n := x')) \<and>
     (\<forall>m. same_block (contents t m) (if m = n then x else contents s m)) \<and>
     (\<forall>b m. pin t b m \<longleftrightarrow> pin s b m \<and> m \<noteq> n)"

lemma contents_write:
  assumes one: "one_each (bcache s)" and w: "w < 30" "holds (bcache s w) n" "b_valid (bcache s w)"
    and t: "bcache t = (bcache s)(w := bf)" "b_dev bf = 1" "b_blockno bf = n" "b_valid bf" and d: "disk t = (disk s)(unat n := y)"
  shows "contents t m = (if m = n then b_data bf else contents s m)"
proof -
  have h: "holds (bcache t b) k = holds (bcache s b) k" for b k using w(2) t by (simp add: holds_def)
  have v: "b_valid (bcache t b) = b_valid (bcache s b)" for b using w(3) t by simp
  have one': "one_each (bcache t)" using one unfolding one_each_def h .
  show ?thesis
  proof (cases "m = n")
    case True
    then show ?thesis using contents_hit [OF one' w(1), of n] t by (simp add: holds_def)
  next
    case False
    have wm: "\<not> holds (bcache s w) m" using w(2) False by (auto simp: holds_def)
    have "find (\<lambda>b. holds (bcache t b) m \<and> b_valid (bcache t b)) [0..<30] = find (\<lambda>b. holds (bcache s b) m \<and> b_valid (bcache s b)) [0..<30]"
      by (simp only: h v)
    moreover have "b_data (bcache t b) = b_data (bcache s b)" if "find (\<lambda>b. holds (bcache s b) m \<and> b_valid (bcache s b)) [0..<30] = Some b" for b
      using that wm t(1) by (auto simp: find_Some_iff)
    moreover have "unat m \<noteq> unat n" using False by (auto dest: unsigned_word_eqI)
    ultimately show ?thesis using False d by (auto simp: contents_def split: option.splits)
  qed
qed

text \<open>Writing a held buffer with new data.\<close>

lemma bwrite_data:
  assumes ok: "bufs p H s" and td: "tidy s" and w: "w \<in> H" "holds (bcache s w) n" and n: "n < disksize s"
  shows "wp (bwrite w (set_data w x s)) (\<lambda>t. bio p s t \<and> bufs p H t \<and> tidy t \<and>
    (\<exists>x'. same_block x' x \<and> disk t = (disk s)(unat n := x')) \<and>
    bcache t = (bcache s)(w := (bcache s w)\<lparr>b_data := x, b_dirty := False\<rparr>) \<and>
    (\<forall>m. contents t m = (if m = n then x else contents s m)) \<and>
    (\<forall>b m. pin t b m \<longleftrightarrow> pin s b m \<and> m \<noteq> n))"
proof -
  have co: "cache_ok (p_pid (procs s p)) (bcache s) (disk s) H" using ok by (simp add: bufs_def)
  have hb: "b_valid (bcache s w)" "w < 30" using cache_okD(2,3) [OF co] w(1) by (auto simp: held_buf_def)
  note sd = set_data_ok [OF ok w(1), of x]
  have "wp (bwrite w (set_data w x s)) (\<lambda>t. bio p (set_data w x s) t \<and> bufs p H t \<and>
    disk t = (disk (set_data w x s))(unat n := copy_block (disk (set_data w x s) (unat n)) (buf_data w (set_data w x s))) \<and>
    bcache t = (bcache (set_data w x s))(w := (bcache (set_data w x s) w)\<lparr>b_dirty := False\<rparr>))"
    using w n by (intro bwrite_ok [OF sd(1) w(1)]) (simp_all add: set_data_def holds_def)
  then show ?thesis
  proof (rule wp_mono, elim conjE)
    fix t
    assume t: "bio p (set_data w x s) t" "bufs p H t"
      "disk t = (disk (set_data w x s))(unat n := copy_block (disk (set_data w x s) (unat n)) (buf_data w (set_data w x s)))"
      "bcache t = (bcache (set_data w x s))(w := (bcache (set_data w x s) w)\<lparr>b_dirty := False\<rparr>)"
    let ?bf = "(bcache s w)\<lparr>b_data := x, b_dirty := False\<rparr>"
    have bt: "bcache t = (bcache s)(w := ?bf)" using t(4) by (simp add: set_data_def)
    have sf: "disk (set_data w x s) = disk s" "buf_data w (set_data w x s) = x" by (simp_all add: set_data_def buf_data_def)
    have dt: "disk t = (disk s)(unat n := copy_block (disk s (unat n)) x)" using t(3) unfolding sf .
    have "contents t m = (if m = n then x else contents s m)" for m
      using contents_write [OF cache_okD(5) [OF co] hb(2) w(2) hb(1) bt _ _ _ dt, of m] w(2) hb(1) unfolding holds_def by simp
    moreover have "pin t b m \<longleftrightarrow> pin s b m \<and> m \<noteq> n" for b m
    proof (cases "b = w")
      case True
      then show ?thesis using bt w(2) unfolding pin_def holds_def by simp
    next
      case False
      then have "pin t b m \<longleftrightarrow> pin s b m" using bt by (simp add: pin_def)
      moreover have "\<not> pin s b n" using False one_eachD [OF cache_okD(5) [OF co] _ w(2) _ hb(2)] by (auto simp: pin_def)
      ultimately show ?thesis by metis
    qed
    moreover have "tidy t" using td bt by (auto simp: tidy_def)
    moreover have "bio p s t" using bio_trans [OF sd(2) t(1)] .
    ultimately show "bio p s t \<and> bufs p H t \<and> tidy t \<and> (\<exists>x'. same_block x' x \<and> disk t = (disk s)(unat n := x')) \<and>
      bcache t = (bcache s)(w := ?bf) \<and> (\<forall>m. contents t m = (if m = n then x else contents s m)) \<and> (\<forall>b m. pin t b m \<longleftrightarrow> pin s b m \<and> m \<noteq> n)"
      using t(2) bt dt same_block_copy by blast
  qed
qed

lemma kept_pin: "(\<forall>a. kept (bcache t a) (bcache s a)) \<Longrightarrow> pin t b m \<longleftrightarrow> pin s b m"
  by (simp add: pin_def kept_def holds_def)

lemma kept_tidy: "(\<forall>a. kept (bcache t a) (bcache s a)) \<Longrightarrow> tidy s \<Longrightarrow> tidy t"
  by (simp add: tidy_def kept_def)

text \<open>Block \<open>n\<close> is rewritten in the buffer \<open>w\<close> and both buffers are released.\<close>

lemma store2:
  assumes ok: "bufs p {w, r} s" and td: "tidy s" and ne: "w \<noteq> r" and w: "holds (bcache s w) n" and n: "n < disksize s"
    and r: "holds (bcache s r) k" "k \<noteq> n" "\<not> b_dirty (bcache s r) \<longrightarrow> same_block (buf_data r s) (disk s (unat k))"
  shows "wp (bindr (bwrite w (set_data w x s)) (\<lambda>s. bindr (brelse r s) (brelse w))) (stored p s n x)"
proof (rule wp_seq [OF bwrite_data [OF ok td _ w n]], simp, elim conjE exE)
  fix t x'
  assume t: "bio p s t" "bufs p {w, r} t" "tidy t" "same_block x' x" "disk t = (disk s)(unat n := x')"
    "bcache t = (bcache s)(w := (bcache s w)\<lparr>b_data := x, b_dirty := False\<rparr>)"
    "\<forall>m. contents t m = (if m = n then x else contents s m)" "\<forall>b m. pin t b m \<longleftrightarrow> pin s b m \<and> m \<noteq> n"
  have kn: "unat k \<noteq> unat n" using r(2) by (auto dest: unsigned_word_eqI)
  have br: "bcache t r = bcache s r" "buf_data r t = buf_data r s" using t(6) ne by (simp_all add: buf_data_def)
  have c1: "same_block (buf_data r t) (disk t (unat (b_blockno (bcache t r))))" if "\<not> b_dirty (bcache t r)"
    using that br r kn t(5) by (auto simp: holds_def)
  show "wp (bindr (brelse r t) (brelse w)) (stored p s n x)"
  proof (rule wp_seq [OF brelse_ok [OF t(2)]], simp, use c1 in simp, elim conjE)
    fix u
    assume u: "bio p t u" "disk u = disk t" "bufs p ({w, r} - {r}) u" "\<forall>a. kept (bcache u a) (bcache t a)"
    have uw: "bufs p {w} u" using u(3) ne by (simp add: insert_Diff_if)
    have kw: "kept (bcache u w) (bcache t w)" using u(4) by blast
    have c2: "same_block (buf_data w u) (disk u (unat (b_blockno (bcache u w))))"
      using kw t(4-6) u(2) w by (auto simp: kept_def holds_def buf_data_def intro: same_block_sym)
    show "wp (brelse w u) (stored p s n x)"
    proof (rule wp_mono [OF brelse_ok [OF uw]], simp, use c2 in simp, elim conjE)
      fix v
      assume v: "bio p u v" "disk v = disk u" "bufs p ({w} - {w}) v" "\<forall>a. kept (bcache v a) (bcache u a)"
      have kv: "\<forall>a. kept (bcache v a) (bcache t a)" using u(4) v(4) kept_trans by blast
      have "contents v m = contents t m" for m by (rule contents_kept) (use kv u(2) v(2) in simp_all)
      then show "stored p s n x v"
        using bio_trans [OF bio_trans [OF t(1) u(1)] v(1)] v(3) kept_tidy [OF kv t(3)] t(4,5,7,8) u(2) v(2) kept_pin [OF kv]
        unfolding stored_def by auto
    qed
  qed
qed

definition same_disk :: "(nat \<Rightarrow> block) \<Rightarrow> (nat \<Rightarrow> block) \<Rightarrow> bool" where
  "same_disk D E \<longleftrightarrow> (\<forall>k. same_block (D k) (E k))"

lemma same_disk_refl [simp]: "same_disk D D" by (simp add: same_disk_def)
lemma same_disk_sym: "same_disk D E \<Longrightarrow> same_disk E D" by (simp add: same_disk_def same_block_sym)
lemma same_disk_trans: "same_disk D E \<Longrightarrow> same_disk E F \<Longrightarrow> same_disk D F" unfolding same_disk_def using same_block_trans by blast
lemma same_disk_upd: "same_disk D E \<Longrightarrow> same_block x y \<Longrightarrow> same_disk (D(k := x)) (E(k := y))" by (simp add: same_disk_def)

lemma stored_disk: "stored p s n x t \<Longrightarrow> same_disk (disk t) ((disk s)(unat n := x))"
  by (auto simp: stored_def same_disk_def)

lemma stored_cong:
  assumes st: "stored p u n x t" and b: "bio p s u" and d: "disk u = disk s" and c: "\<forall>m. same_block (contents u m) (contents s m)"
    and pins: "\<forall>b m. pin u b m \<longleftrightarrow> pin s b m" and x: "same_block x y"
  shows "stored p s n y t"
proof -
  obtain x' where x': "same_block x' x" "disk t = (disk u)(unat n := x')" using st by (auto simp: stored_def)
  have c': "same_block (contents t m) (if m = n then x else contents u m)" for m using st by (simp add: stored_def)
  have "same_block (contents t m) (if m = n then y else contents s m)" for m
    using same_block_trans [OF c' [of m], of "if m = n then y else contents s m"] c x by simp
  moreover have "disk t = (disk s)(unat n := x')" "same_block x' y" using x' d same_block_trans [OF x'(1) x] by simp_all
  moreover have "pin t b m \<longleftrightarrow> pin s b m \<and> m \<noteq> n" for b m using st pins by (simp add: stored_def)
  moreover have "bio p s t" "bufs p {} t" "tidy t" using st bio_trans [OF b] by (simp_all add: stored_def)
  ultimately show ?thesis unfolding stored_def by blast
qed

section \<open>The log on disk\<close>

text \<open>
  The log area is the header block \<open>start\<close> and the 29 blocks after it. \<open>log_at start s\<close>: the
  kernel's log is that one, and the in-memory header has room and names blocks outside it.
\<close>

definition in_log :: "nat \<Rightarrow> nat \<Rightarrow> bool" where
  "in_log start k \<longleftrightarrow> start \<le> k \<and> k < start + 30"

definition hb :: "kernel \<Rightarrow> nat \<Rightarrow> uint" where
  "hb s i = word_of_int (lh_block (lh s) i)"

definition lhn :: "kernel \<Rightarrow> nat" where
  "lhn s = nat (lh_n (lh s))"

definition log_at :: "nat \<Rightarrow> kernel \<Rightarrow> bool" where
  "log_at start s \<longleftrightarrow> log_start (log_st s) = int start \<and> log_dev (log_st s) = 1 \<and> start + 30 \<le> unat (disksize s) \<and>
     0 \<le> lh_n (lh s) \<and> lh_n (lh s) \<le> 29 \<and> (\<forall>i < lhn s. hb s i < disksize s \<and> \<not> in_log start (unat (hb s i)))"

lemma log_at_cong: "log_st t = log_st s \<Longrightarrow> disksize t = disksize s \<Longrightarrow> log_at start t = log_at start s"
  by (simp add: log_at_def hb_def lhn_def)

lemma log_at_bio: "bio p s t \<Longrightarrow> log_at start t = log_at start s" "bio p s t \<Longrightarrow> hb t i = hb s i" "bio p s t \<Longrightarrow> lhn t = lhn s"
  using bio_fields [of p s t] by (simp_all add: log_at_def hb_def lhn_def)

lemma log_devno: "log_at start s \<Longrightarrow> log_devno s = 1"
  by (simp add: log_at_def log_devno_def)

lemma log_blockno:
  assumes "log_at start s" and "i < 29"
  shows "unat (log_blockno i s) = start + i + 1" "log_blockno i s < disksize s"
    "unat (word_of_int (log_start (log_st s)) :: uint) = start" "(word_of_int (log_start (log_st s)) :: uint) < disksize s"
proof -
  have b: "start + 30 \<le> unat (disksize s)" "unat (disksize s) < 4294967296" using assms(1) unat32_bound by (simp_all add: log_at_def)
  have u: "unat (word_of_int (int k) :: uint) = k" if "k < 4294967296" for k
    using that by (simp add: unat_of_nat)
  have e: "log_blockno i s = word_of_int (int (start + i + 1))" "log_start (log_st s) = int start"
    using assms(1) by (simp_all add: log_blockno_def log_at_def)
  show "unat (log_blockno i s) = start + i + 1" "unat (word_of_int (log_start (log_st s)) :: uint) = start"
    unfolding e using b assms(2) by (simp_all only: u)
  then show "log_blockno i s < disksize s" "(word_of_int (log_start (log_st s)) :: uint) < disksize s"
    using b assms(2) by (simp_all add: word_less_nat_alt)
qed

lemma home_not_log:
  assumes "log_at start s" and "i < lhn s" and "j < 29"
  shows "hb s i \<noteq> log_blockno j s" "hb s i \<noteq> word_of_int (log_start (log_st s))"
proof -
  have "\<not> in_log start (unat (hb s i))" using assms by (simp add: log_at_def)
  then show "hb s i \<noteq> log_blockno j s" "hb s i \<noteq> word_of_int (log_start (log_st s))"
    using log_blockno [OF assms(1,3)] assms(3) by (auto simp: in_log_def)
qed

lemma lhn_le: "log_at start s \<Longrightarrow> lhn s \<le> 29" "log_at start s \<Longrightarrow> int (lhn s) = lh_n (lh s)"
  by (auto simp: log_at_def lhn_def)

text \<open>One block copied to the log, and one installed from it.\<close>

lemma lh_at_ok: "i < 30 \<Longrightarrow> lh_at i s = Inr (lh_block (lh s) i)"
  by (simp add: lh_at_def)

lemma write_log_one_ok:
  assumes ok: "bufs p {} s" and td: "tidy s" and lg: "log_at start s" and i: "i < lhn s"
    and room: "card (pinned_bufs s) < 30" "\<exists>b. pin s b (hb s i)"
  shows "wp (write_log_one i s) (stored p s (log_blockno i s) (contents s (hb s i)))"
proof -
  have i29: "i < 29" using i lhn_le(1) [OF lg] by simp
  have hbi: "hb s i < disksize s" using lg i by (simp add: log_at_def)
  note lb = log_blockno(1,2) [OF lg i29] and ne = home_not_log(1) [OF lg i i29]
  let ?P = "stored p s (log_blockno i s) (contents s (hb s i))"
  have room2: "(\<exists>b. pin s b (hb s i)) \<or> card (pinned_bufs s) < 29" using room(2) by blast
  show ?thesis
    unfolding write_log_one_def log_devno [OF lg]
  proof (rule wp_seq [OF bread2 [OF ok td lb(2) hbi ne [symmetric] room(1) room2]], clarify)
    fix a s1
    assume b1: "bio p s s1" and w: "wp (bread 1 (hb s i) s1) (\<lambda>(b, t). got2 p s (log_blockno i s) (hb s i) a b t)"
    have l1: "log_at start s1" "hb s1 i = hb s i" using log_at_bio [OF b1] lg by simp_all
    show "wp (bindr (lh_at i s1) (\<lambda>bn. bindr (bread (log_devno s1) (word_of_int bn) s1) (\<lambda>(from, s).
      let s = set_data a (copy_block (buf_data a s) (buf_data from s)) s in
      bindr (bwrite a s) (\<lambda>s. bindr (brelse from s) (brelse a))))) ?P"
      unfolding lh_at_ok [OF less_trans [OF i29], simplified] bindr_simps log_devno [OF l1(1)] hb_def [symmetric] l1(2)
    proof (rule wp_seq [OF w], clarify)
      fix b t
      assume g: "got2 p s (log_blockno i s) (hb s i) a b t"
      let ?x = "copy_block (buf_data a t) (buf_data b t)"
      have "wp (bindr (bwrite a (set_data a ?x t)) (\<lambda>s. bindr (brelse b s) (brelse a))) (stored p t (log_blockno i s) ?x)"
        using g ne lb(2) bio_fields(2) [of p s t] by (intro store2 [where k = "hb s i"]) (auto simp: got2_def)
      then show "wp (let s = set_data a ?x t in bindr (bwrite a s) (\<lambda>s. bindr (brelse b s) (brelse a))) ?P"
        unfolding Let_def
      proof (rule wp_mono)
        fix v assume "stored p t (log_blockno i s) ?x v"
        then show "?P v" by (rule stored_cong) (use g in \<open>auto simp: got2_def intro: same_block_trans [OF same_block_copy]\<close>)
      qed
    qed
  qed
qed

lemma install_one_ok:
  assumes ok: "bufs p {} s" and td: "tidy s" and lg: "log_at start s" and i: "i < lhn s"
    and room: "card (pinned_bufs s) < 30" "(\<exists>b. pin s b (hb s i)) \<or> card (pinned_bufs s) < 29"
  shows "wp (install_one i s) (stored p s (hb s i) (contents s (log_blockno i s)))"
proof -
  have i29: "i < 29" using i lhn_le(1) [OF lg] by simp
  have hbi: "hb s i < disksize s" using lg i by (simp add: log_at_def)
  note lb = log_blockno(1,2) [OF lg i29] and ne = home_not_log(1) [OF lg i i29]
  let ?P = "stored p s (hb s i) (contents s (log_blockno i s))"
  show ?thesis
    unfolding install_one_def log_devno [OF lg]
  proof (rule wp_seq [OF bread2 [OF ok td lb(2) hbi ne [symmetric] room]], clarify)
    fix a s1
    assume b1: "bio p s s1" and w: "wp (bread 1 (hb s i) s1) (\<lambda>(b, t). got2 p s (log_blockno i s) (hb s i) a b t)"
    have l1: "log_at start s1" "hb s1 i = hb s i" using log_at_bio [OF b1] lg by simp_all
    show "wp (bindr (lh_at i s1) (\<lambda>bn. bindr (bread (log_devno s1) (word_of_int bn) s1) (\<lambda>(dbuf, s).
      let s = set_data dbuf (copy_block (buf_data dbuf s) (buf_data a s)) s in
      bindr (bwrite dbuf s) (\<lambda>s. bindr (brelse a s) (brelse dbuf))))) ?P"
      unfolding lh_at_ok [OF less_trans [OF i29], simplified] bindr_simps log_devno [OF l1(1)] hb_def [symmetric] l1(2)
    proof (rule wp_seq [OF w], clarify)
      fix b t
      assume g: "got2 p s (log_blockno i s) (hb s i) a b t"
      let ?x = "copy_block (buf_data b t) (buf_data a t)"
      have "wp (bindr (bwrite b (set_data b ?x t)) (\<lambda>s. bindr (brelse a s) (brelse b))) (stored p t (hb s i) ?x)"
        using g ne hbi bio_fields(2) [of p s t] by (intro store2 [where k = "log_blockno i s"]) (auto simp: got2_def insert_commute)
      then show "wp (let s = set_data b ?x t in bindr (bwrite b s) (\<lambda>s. bindr (brelse a s) (brelse b))) ?P"
        unfolding Let_def
      proof (rule wp_mono)
        fix v assume "stored p t (hb s i) ?x v"
        then show "?P v" by (rule stored_cong) (use g in \<open>auto simp: got2_def intro: same_block_trans [OF same_block_copy]\<close>)
      qed
    qed
  qed
qed

section \<open>The header block\<close>

lemma get32_put32 [simp]: "get32 (put32 i w d) i = w"
  using word_of_bytes [of w] by (simp add: get32_def put32_def word_of_def byte_of_def)

lemma get32_put32_other:
  assumes "i + 4 \<le> j \<or> j + 4 \<le> i"
  shows "get32 (put32 j w d) i = get32 d i"
  using assms by (auto simp: get32_def put32_def)

lemma get32_cong: "(\<And>k. i \<le> k \<Longrightarrow> k < i + 4 \<Longrightarrow> x k = y k) \<Longrightarrow> get32 x i = get32 y i"
  by (simp add: get32_def)

lemma get32_same_block: "same_block x y \<Longrightarrow> i + 4 \<le> 512 \<Longrightarrow> get32 x i = get32 y i"
  by (rule get32_cong) (simp add: same_block_def)

lemma encode_head_fields:
  assumes "i < k"
  shows "get32 (fold (\<lambda>i. put32 (4 + 4 * i) (f i)) [0..<k] d) (4 + 4 * i) = f i"
  using assms
proof (induction k)
  case (Suc k)
  then show ?case by (cases "i = k") (simp_all add: get32_put32_other)
qed simp

lemma encode_head_count: "get32 (fold (\<lambda>i. put32 (4 + 4 * i) (f i)) [0..<k] d) 0 = get32 d 0"
  by (induction k) (simp_all add: get32_put32_other)

definition head_n :: "block \<Rightarrow> nat" where
  "head_n d = nat (sint (get32 d 0))"

definition head_block :: "block \<Rightarrow> nat \<Rightarrow> uint" where
  "head_block d i = get32 d (4 + 4 * i)"

lemma head_encode:
  assumes "0 \<le> lh_n h" and "lh_n h \<le> 30"
  shows "head_n (encode_head h d) = nat (lh_n h)" "i < nat (lh_n h) \<Longrightarrow> head_block (encode_head h d) i = word_of_int (lh_block h i)"
proof -
  have "sint (word_of_int (lh_n h) :: uint) = lh_n h"
    using assms by (simp add: signed_of_int signed_take_bit_int_eq_self)
  then show "head_n (encode_head h d) = nat (lh_n h)" by (simp add: head_n_def encode_head_def encode_head_count)
  show "i < nat (lh_n h) \<Longrightarrow> head_block (encode_head h d) i = word_of_int (lh_block h i)"
    unfolding head_block_def encode_head_def by (rule encode_head_fields)
qed

lemma head_same_block:
  assumes "same_block x y"
  shows "head_n x = head_n y" "i < 30 \<Longrightarrow> head_block x i = head_block y i"
  using get32_same_block [OF assms] by (simp_all add: head_n_def head_block_def)

lemma same_block_put32: "same_block x y \<Longrightarrow> same_block (put32 i w x) (put32 i w y)"
  by (simp add: same_block_def put32_def)

lemma same_block_encode: "same_block x y \<Longrightarrow> same_block (encode_head h x) (encode_head h y)"
proof -
  have "same_block x y \<Longrightarrow> same_block (fold (\<lambda>i. put32 (4 + 4 * i) (f i)) is x) (fold (\<lambda>i. put32 (4 + 4 * i) (f i)) is y)" for "is" f x y
    by (induction "is" arbitrary: x y) (simp_all add: same_block_put32)
  then show "same_block x y \<Longrightarrow> same_block (encode_head h x) (encode_head h y)"
    unfolding encode_head_def by (simp add: same_block_put32)
qed

lemma store1:
  assumes ok: "bufs p {w} s" and td: "tidy s" and w: "holds (bcache s w) n" and n: "n < disksize s"
  shows "wp (bindr (bwrite w (set_data w x s)) (brelse w)) (stored p s n x)"
proof (rule wp_seq [OF bwrite_data [OF ok td _ w n]], simp, elim conjE exE)
  fix t x'
  assume t: "bio p s t" "bufs p {w} t" "tidy t" "same_block x' x" "disk t = (disk s)(unat n := x')"
    "bcache t = (bcache s)(w := (bcache s w)\<lparr>b_data := x, b_dirty := False\<rparr>)"
    "\<forall>m. contents t m = (if m = n then x else contents s m)" "\<forall>b m. pin t b m \<longleftrightarrow> pin s b m \<and> m \<noteq> n"
  have c2: "same_block (buf_data w t) (disk t (unat (b_blockno (bcache t w))))"
    using t(4-6) w by (auto simp: holds_def buf_data_def intro: same_block_sym)
  show "wp (brelse w t) (stored p s n x)"
  proof (rule wp_mono [OF brelse_ok [OF t(2)]], simp, use c2 in simp, elim conjE)
    fix v
    assume v: "bio p t v" "disk v = disk t" "bufs p ({w} - {w}) v" "\<forall>a. kept (bcache v a) (bcache t a)"
    have "contents v m = contents t m" for m by (rule contents_kept) (use v in simp_all)
    then show "stored p s n x v"
      using bio_trans [OF t(1) v(1)] v(3) kept_tidy [OF v(4) t(3)] t(4,5,7,8) v(2) kept_pin [OF v(4)] unfolding stored_def by auto
  qed
qed

abbreviation headno :: "kernel \<Rightarrow> uint" where
  "headno s \<equiv> word_of_int (log_start (log_st s))"

lemma bread1:
  assumes "bufs p {} s" and "tidy s" and "n < disksize s" and "card (pinned_bufs s) < 30"
  shows "wp (bread 1 n s) (\<lambda>(b, t). got p s {} n b t)"
  using spare_few [OF assms(2), of "{}"] assms(4) by (intro bread_got [OF assms(1,3)]) auto

lemma write_head_ok:
  assumes ok: "bufs p {} s" and td: "tidy s" and lg: "log_at start s" and room: "card (pinned_bufs s) < 30"
  shows "wp (write_head s) (stored p s (headno s) (encode_head (lh s) (contents s (headno s))))"
  unfolding write_head_def log_devno [OF lg]
proof (rule wp_seq [OF bread1 [OF ok td log_blockno(4) [OF lg, of 0, simplified] room]], clarify)
  fix b t
  assume g: "got p s {} (headno s) b t"
  let ?x = "encode_head (lh t) (buf_data b t)"
  have l: "lh t = lh s" "disksize t = disksize s" using g bio_fields [of p s t] by (simp_all add: got_def)
  have "wp (bindr (bwrite b (set_data b ?x t)) (brelse b)) (stored p t (headno s) ?x)"
    using g log_blockno(4) [OF lg, of 0] l(2) got_tidy [OF g td] by (intro store1) (simp_all add: got_def)
  moreover have "same_block ?x (encode_head (lh s) (contents s (headno s)))"
    using g l by (simp add: got_def same_block_encode)
  ultimately have "wp (bindr (bwrite b (set_data b ?x t)) (brelse b)) (stored p s (headno s) (encode_head (lh s) (contents s (headno s))))"
  proof (elim wp_mono)
    fix v assume "stored p t (headno s) ?x v" "same_block ?x (encode_head (lh s) (contents s (headno s)))"
    then show "stored p s (headno s) (encode_head (lh s) (contents s (headno s))) v"
      by (elim stored_cong) (use g got_pins [OF g td] in \<open>auto simp: got_def\<close>)
  qed
  then show "wp (bindr (in_bounds (lh_n (lh t) \<le> LOGSIZE)) (\<lambda>_. let s = set_data b ?x t in bindr (bwrite b s) (brelse b)))
      (stored p s (headno s) (encode_head (lh s) (contents s (headno s))))"
    using lg l(1) by (simp add: log_at_def)
qed

text \<open>Blocks that are not pinned are on disk as the cache has them.\<close>

lemma contents_clean:
  assumes "bufs p {} s" and "\<And>b. \<not> pin s b n"
  shows "same_block (contents s n) (disk s (unat n))"
proof -
  have co: "cache_ok (p_pid (procs s p)) (bcache s) (disk s) {}" using assms(1) by (simp add: bufs_def)
  show ?thesis
  proof (cases "\<exists>b < 30. holds (bcache s b) n \<and> b_valid (bcache s b)")
    case True
    then obtain b where b: "b < 30" "holds (bcache s b) n" "b_valid (bcache s b)" by blast
    have "\<not> b_dirty (bcache s b)" using assms(2) [of b] b by (simp add: pin_def)
    then show ?thesis using contents_hit [OF cache_okD(5) [OF co] b] cache_okD(4) [OF co b(1)] b by (simp add: free_buf_def holds_def)
  next
    case False
    then have "contents s n = disk s (unat n)" by (intro contents_miss) blast
    then show ?thesis by simp
  qed
qed

section \<open>Commit\<close>

text \<open>
  A transaction that is ready to commit: the blocks the in-memory header names are exactly the
  modified blocks of the cache.
\<close>

definition txn :: "nat \<Rightarrow> nat \<Rightarrow> kernel \<Rightarrow> bool" where
  "txn p start s \<longleftrightarrow> bufs p {} s \<and> tidy s \<and> log_at start s \<and> (\<forall>i < lhn s. \<exists>b. pin s b (hb s i)) \<and>
     (\<forall>b m. pin s b m \<longrightarrow> (\<exists>i < lhn s. m = hb s i))"

lemma txn_room:
  assumes "txn p start s"
  shows "card (pinned_bufs s) < 30"
proof -
  have one: "one_each (bcache s)" using assms cache_okD(5) by (auto simp: txn_def bufs_def)
  define f where "f i = (SOME b. pin s b (hb s i))" for i
  have "pinned_bufs s \<subseteq> f ` {..<lhn s}"
  proof
    fix b assume "b \<in> pinned_bufs s"
    then obtain m where m: "pin s b m" by (auto simp: pinned_bufs_def)
    then obtain i where i: "i < lhn s" "m = hb s i" using assms unfolding txn_def by blast
    then have "pin s (f i) m" using m unfolding f_def by (auto intro: someI)
    then have "f i = b" using m one_eachD [OF one] by (auto simp: pin_def)
    then show "b \<in> f ` {..<lhn s}" using i by blast
  qed
  from card_mono [OF _ this] have "card (pinned_bufs s) \<le> lhn s" using card_image_le [of "{..<lhn s}" f] by simp
  then show ?thesis using lhn_le(1) assms by (fastforce simp: txn_def)
qed

text \<open>The log area once the first \<open>j\<close> blocks have been copied to it.\<close>

definition logview :: "nat \<Rightarrow> nat \<Rightarrow> kernel \<Rightarrow> nat \<Rightarrow> block \<Rightarrow> block" where
  "logview start j s k x = (if start < k \<and> k \<le> start + j then contents s (hb s (k - start - 1)) else x)"

definition logged :: "nat \<Rightarrow> kernel \<Rightarrow> nat \<Rightarrow> nat \<Rightarrow> kernel \<Rightarrow> bool" where
  "logged p s start j t \<longleftrightarrow> bio p s t \<and> bufs p {} t \<and> tidy t \<and> (\<forall>b m. pin t b m \<longleftrightarrow> pin s b m) \<and>
     same_disk (disk t) (\<lambda>k. logview start j s k (disk s k)) \<and>
     (\<forall>m. same_block (contents t m) (logview start j s (unat m) (contents s m)))"

lemma logview_Suc: "logview start (Suc j) s k x = (if k = start + j + 1 then contents s (hb s j) else logview start j s k x)"
  by (auto simp: logview_def)

lemma logview_home: "\<not> in_log start k \<Longrightarrow> j < 30 \<Longrightarrow> logview start j s k x = x"
  by (auto simp: logview_def in_log_def)

lemma logged_step:
  assumes tx: "txn p start s" and jl: "j < lhn s" and t: "logged p s start j t"
    and u: "stored p t (log_blockno j s) (contents t (hb s j)) u"
  shows "logged p s start (Suc j) u"
proof -
  have lg: "log_at start s" using tx by (simp add: txn_def)
  then have j: "j < lhn s" "j < 29" using jl lhn_le(1) [of start s] by auto
  have b: "bio p s t" and pins: "\<And>b m. pin t b m \<longleftrightarrow> pin s b m" using t by (simp_all add: logged_def)
  have un: "unat (log_blockno j s) = start + j + 1" using log_blockno(1) [OF lg j(2)] .
  have hj: "same_block (contents t (hb s j)) (contents s (hb s j))"
  proof -
    have "\<not> in_log start (unat (hb s j))" using lg j(1) by (simp add: log_at_def)
    then have "logview start j s (unat (hb s j)) (contents s (hb s j)) = contents s (hb s j)"
      using j(2) by (intro logview_home) simp_all
    then show ?thesis using t unfolding logged_def by metis
  qed
  have "same_block (contents u m) (logview start (Suc j) s (unat m) (contents s m))" for m
  proof (cases "m = log_blockno j s")
    case True
    then have "same_block (contents u m) (contents t (hb s j))" using u unfolding stored_def by metis
    then show ?thesis using True un hj same_block_trans by (simp add: logview_Suc)
  next
    case False
    then have "unat m \<noteq> start + j + 1" using un by (metis unsigned_word_eqI)
    moreover have "same_block (contents u m) (contents t m)" using u False unfolding stored_def by metis
    moreover have "same_block (contents t m) (logview start j s (unat m) (contents s m))" using t by (simp add: logged_def)
    ultimately show ?thesis using same_block_trans by (simp add: logview_Suc)
  qed
  moreover have "same_disk (disk u) (\<lambda>k. logview start (Suc j) s k (disk s k))"
  proof -
    have "same_disk ((disk t)(start + j + 1 := contents t (hb s j))) ((\<lambda>k. logview start j s k (disk s k))(start + j + 1 := contents s (hb s j)))"
      using t hj by (intro same_disk_upd) (simp_all add: logged_def)
    moreover have "(\<lambda>k. logview start j s k (disk s k))(start + j + 1 := contents s (hb s j)) = (\<lambda>k. logview start (Suc j) s k (disk s k))"
      by (rule ext) (simp add: logview_Suc)
    ultimately show ?thesis using same_disk_trans [OF stored_disk [OF u]] un by simp
  qed
  moreover have "pin u b m \<longleftrightarrow> pin s b m" for b m
  proof -
    have "m \<noteq> log_blockno j s" if pm: "pin s b m"
    proof -
      obtain i where "i < lhn s" "m = hb s i" using tx pm unfolding txn_def by blast
      then show ?thesis using home_not_log(1) [OF lg _ j(2)] by simp
    qed
    moreover have "pin u b m \<longleftrightarrow> pin t b m \<and> m \<noteq> log_blockno j s" using u by (simp add: stored_def)
    ultimately show ?thesis using pins [of b m] by metis
  qed
  ultimately show ?thesis
    using u bio_trans [OF b, of u] by (simp add: logged_def stored_def)
qed

lemma write_log_upto:
  assumes tx: "txn p start s"
  shows "j \<le> lhn s \<Longrightarrow> wp (iter write_log_one [0..<j] s) (logged p s start j)"
proof (induction j)
  case 0
  have "logview start 0 s k x = x" for k x by (auto simp: logview_def)
  then show ?case using tx by (simp add: logged_def txn_def bufs_def bio_refl)
next
  case (Suc j)
  have lg: "log_at start s" and j: "j < lhn s" "j < 29" using tx Suc.prems lhn_le(1) [of start s] by (auto simp: txn_def)
  show ?case
    unfolding upt_Suc_append [OF le0] iter_append
  proof (rule wp_seq [OF Suc.IH], use Suc.prems in simp)
    fix t assume t: "logged p s start j t"
    have b: "bio p s t" and pins: "\<And>b m. pin t b m \<longleftrightarrow> pin s b m" using t by (simp_all add: logged_def)
    have pb: "pinned_bufs t = pinned_bufs s" by (simp add: pinned_bufs_def pins)
    note lt = log_at_bio [OF b]
    have bn: "log_blockno j t = log_blockno j s" using bio_fields(3) [OF b] by (simp add: log_blockno_def)
    have "wp (write_log_one j t) (stored p t (log_blockno j t) (contents t (hb t j)))"
      using t lg j lt pb pins txn_room [OF tx] tx by (intro write_log_one_ok) (auto simp: logged_def txn_def)
    then show "wp (iter write_log_one [j] t) (logged p s start (Suc j))"
    proof (simp add: lt(2) bn wp_bindr, elim wp_mono)
      fix u assume u: "stored p t (log_blockno j s) (contents t (hb s j)) u"
      show "logged p s start (Suc j) u" by (rule logged_step [OF tx j(1) t u])
    qed
  qed
qed

text \<open>The home blocks once the first \<open>j\<close> logged blocks have been installed.\<close>

definition inst :: "(nat \<Rightarrow> block) \<Rightarrow> nat \<Rightarrow> (nat \<Rightarrow> uint) \<Rightarrow> nat \<Rightarrow> nat \<Rightarrow> block" where
  "inst D start B j k = (case find (\<lambda>i. unat (B i) = k) (rev [0..<j]) of None \<Rightarrow> D k | Some i \<Rightarrow> D (start + i + 1))"

lemma inst_0 [simp]: "inst D start B 0 = D"
  by (rule ext) (simp add: inst_def)

lemma inst_Suc: "inst D start B (Suc j) = (inst D start B j)(unat (B j) := D (start + j + 1))"
  by (rule ext) (simp add: inst_def)

definition installed :: "nat \<Rightarrow> kernel \<Rightarrow> nat \<Rightarrow> nat \<Rightarrow> kernel \<Rightarrow> bool" where
  "installed p s start j t \<longleftrightarrow> bio p s t \<and> bufs p {} t \<and> tidy t \<and> (\<forall>b m. pin t b m \<longleftrightarrow> pin s b m \<and> (\<forall>i < j. m \<noteq> hb s i)) \<and>
     same_disk (disk t) (inst (disk s) start (hb s) j) \<and>
     (\<forall>m. in_log start (unat m) \<longrightarrow> same_block (contents t m) (contents s m))"

text \<open>What installing needs: no block of the log area is pinned, and there are buffers to work with.\<close>

definition can_install :: "nat \<Rightarrow> nat \<Rightarrow> kernel \<Rightarrow> bool" where
  "can_install p start s \<longleftrightarrow> bufs p {} s \<and> tidy s \<and> log_at start s \<and> (\<forall>b m. pin s b m \<longrightarrow> \<not> in_log start (unat m)) \<and>
     card (pinned_bufs s) < 30 \<and> (card (pinned_bufs s) < 29 \<or> (\<exists>b. pin s b (hb s 0)))"

lemma finite_pinned: "finite (pinned_bufs s)"
  by (rule finite_subset [of _ "{..<30}"]) (auto simp: pinned_bufs_def pin_def)

lemma installed_step:
  assumes ci: "can_install p start s" and jl: "j < lhn s" and t: "installed p s start j t"
    and u: "stored p t (hb s j) (contents t (log_blockno j s)) u"
  shows "installed p s start (Suc j) u"
proof -
  have lg: "log_at start s" and ok: "bufs p {} s" using ci by (simp_all add: can_install_def)
  then have j29: "j < 29" using jl lhn_le(1) [of start s] by auto
  note un = log_blockno(1) [OF lg j29]
  have il: "in_log start (unat (log_blockno j s))" using un j29 by (simp add: in_log_def)
  have nh: "\<not> in_log start (unat (hb s j))" using lg jl by (simp add: log_at_def)
  have "\<not> pin s b (log_blockno j s)" for b using ci il unfolding can_install_def by blast
  then have "same_block (contents s (log_blockno j s)) (disk s (start + j + 1))"
    using contents_clean [OF ok, of "log_blockno j s"] un by simp
  then have c: "same_block (contents t (log_blockno j s)) (disk s (start + j + 1))"
    using t il same_block_trans unfolding installed_def by blast
  have "same_disk (disk u) (inst (disk s) start (hb s) (Suc j))"
    unfolding inst_Suc using t c by (intro same_disk_trans [OF stored_disk [OF u]] same_disk_upd) (simp_all add: installed_def)
  moreover have "pin u b m \<longleftrightarrow> pin s b m \<and> (\<forall>i < Suc j. m \<noteq> hb s i)" for b m
    using t u unfolding installed_def stored_def less_Suc_eq by auto
  moreover have "same_block (contents u m) (contents s m)" if "in_log start (unat m)" for m
  proof -
    have "m \<noteq> hb s j" using that nh by blast
    then have "same_block (contents u m) (contents t m)" using u unfolding stored_def by metis
    then show ?thesis using t that same_block_trans unfolding installed_def by blast
  qed
  ultimately show ?thesis using t u bio_trans [of p s t u] by (simp add: installed_def stored_def)
qed

lemma installed_room:
  assumes ci: "can_install p start s" and t: "installed p s start j t"
  shows "card (pinned_bufs t) < 30" "(\<exists>b. pin t b (hb s j)) \<or> card (pinned_bufs t) < 29"
proof -
  have pins: "\<And>b m. pin t b m \<longleftrightarrow> pin s b m \<and> (\<forall>i < j. m \<noteq> hb s i)" using t by (simp add: installed_def)
  then have sub: "pinned_bufs t \<subseteq> pinned_bufs s" by (auto simp: pinned_bufs_def)
  then have le: "card (pinned_bufs t) \<le> card (pinned_bufs s)" using finite_pinned by (rule card_mono [rotated])
  then show "card (pinned_bufs t) < 30" using ci by (simp add: can_install_def)
  show "(\<exists>b. pin t b (hb s j)) \<or> card (pinned_bufs t) < 29"
  proof (cases "card (pinned_bufs s) < 29")
    case True
    then show ?thesis using le by simp
  next
    case False
    then obtain b where b: "pin s b (hb s 0)" using ci by (auto simp: can_install_def)
    show ?thesis
    proof (cases j)
      case 0
      then show ?thesis using b pins by blast
    next
      case (Suc i)
      have "b \<notin> pinned_bufs t"
      proof
        assume "b \<in> pinned_bufs t"
        then obtain m where "pin t b m" by (auto simp: pinned_bufs_def)
        then have "pin s b m" "m \<noteq> hb s 0" using pins Suc by auto
        then show False using b by (auto simp: pin_def holds_def)
      qed
      moreover have "b \<in> pinned_bufs s" using b by (auto simp: pinned_bufs_def)
      ultimately have "pinned_bufs t \<subset> pinned_bufs s" using sub by blast
      then have "card (pinned_bufs t) < card (pinned_bufs s)" by (rule psubset_card_mono [OF finite_pinned])
      then show ?thesis using ci by (simp add: can_install_def)
    qed
  qed
qed

lemma install_upto:
  assumes ci: "can_install p start s"
  shows "j \<le> lhn s \<Longrightarrow> wp (iter install_one [0..<j] s) (installed p s start j)"
proof (induction j)
  case 0
  then show ?case using ci by (simp add: installed_def can_install_def bufs_def bio_refl)
next
  case (Suc j)
  show ?case
    unfolding upt_Suc_append [OF le0] iter_append
  proof (rule wp_seq [OF Suc.IH], use Suc.prems in simp)
    fix t assume t: "installed p s start j t"
    have b: "bio p s t" using t by (simp add: installed_def)
    note lt = log_at_bio [OF b]
    have bn: "log_blockno j t = log_blockno j s" using bio_fields(3) [OF b] by (simp add: log_blockno_def)
    have "wp (install_one j t) (stored p t (hb t j) (contents t (log_blockno j t)))"
      using t ci Suc.prems lt installed_room [OF ci t] by (intro install_one_ok) (auto simp: installed_def can_install_def)
    then show "wp (iter install_one [j] t) (installed p s start (Suc j))"
      unfolding lt(2) bn using installed_step [OF ci _ t] Suc.prems by (auto simp: wp_bindr elim!: wp_mono)
  qed
qed

section \<open>Recovery\<close>

text \<open>
  A system that has just set up its log: nothing is modified, the log is where the superblock
  says. The header on disk has at most 29 entries, each a block outside the log.
\<close>

definition fresh :: "nat \<Rightarrow> nat \<Rightarrow> kernel \<Rightarrow> bool" where
  "fresh p start s \<longleftrightarrow> bufs p {} s \<and> tidy s \<and> (\<forall>b m. \<not> pin s b m) \<and> log_start (log_st s) = int start \<and> log_dev (log_st s) = 1 \<and>
     start + 30 \<le> unat (disksize s)"

definition good_header :: "nat \<Rightarrow> uint \<Rightarrow> (nat \<Rightarrow> block) \<Rightarrow> bool" where
  "good_header start sz D \<longleftrightarrow> 0 \<le> sint (get32 (D start) 0) \<and> sint (get32 (D start) 0) \<le> 29 \<and>
     (\<forall>i < head_n (D start). head_block (D start) i < sz \<and> \<not> in_log start (unat (head_block (D start) i)))"

definition logical :: "nat \<Rightarrow> (nat \<Rightarrow> block) \<Rightarrow> nat \<Rightarrow> block" where
  "logical start D = inst D start (head_block (D start)) (head_n (D start))"

lemma bufs_log_st [simp]: "bufs p H (s\<lparr>log_st := l\<rparr>) = bufs p H s"
  by (simp add: bufs_def)

lemma pin_log_st [simp]: "pin (s\<lparr>log_st := l\<rparr>) = pin s" "tidy (s\<lparr>log_st := l\<rparr>) = tidy s" "pinned_bufs (s\<lparr>log_st := l\<rparr>) = pinned_bufs s"
  by (simp_all add: fun_eq_iff pin_def tidy_def pinned_bufs_def)

lemma good_header_cong:
  assumes "good_header start sz D" and "same_block (E start) (D start)"
  shows "good_header start sz E"
proof -
  have n: "get32 (E start) 0 = get32 (D start) 0" using get32_same_block [OF assms(2)] by simp
  have h: "head_n (E start) = head_n (D start)" "\<And>i. i < 30 \<Longrightarrow> head_block (E start) i = head_block (D start) i"
    using head_same_block [OF assms(2)] by simp_all
  have "head_n (D start) < 30" using assms(1) by (auto simp: good_header_def head_n_def)
  then show ?thesis using assms(1) n h unfolding good_header_def by simp
qed

text \<open>The header in memory after \<open>read_head\<close>.\<close>

definition head_read :: "block \<Rightarrow> log \<Rightarrow> log" where
  "head_read d l = l\<lparr>log_lh := (log_lh l)\<lparr>lh_n := sint (get32 d 0),
     lh_block := (\<lambda>i. if i < head_n d then sint (head_block d i) else lh_block (log_lh l) i)\<rparr>\<rparr>"

lemma read_head_loop:
  assumes "k \<le> 30"
  shows "iter (\<lambda>i s. bindr (in_bounds (i < nat LOGSIZE)) (\<lambda>_.
              Inr (upd_log (\<lambda>l. l\<lparr>log_lh := (log_lh l)\<lparr>lh_block := (lh_block (log_lh l))(i := sint (get32 d (4 + 4 * i)))\<rparr>\<rparr>) s)))
           [0..<k] s =
         Inr (s\<lparr>log_st := (log_st s)\<lparr>log_lh := (log_lh (log_st s))\<lparr>lh_block :=
           (\<lambda>i. if i < k then sint (head_block d i) else lh_block (log_lh (log_st s)) i)\<rparr>\<rparr>\<rparr>)"
  using assms
proof (induction k)
  case (Suc k)
  have "(\<lambda>i. if i = k then sint (get32 d (4 + 4 * k)) else if i < k then sint (head_block d i) else lh_block (log_lh (log_st s)) i) =
    (\<lambda>i. if i < Suc k then sint (head_block d i) else lh_block (log_lh (log_st s)) i)"
    by (auto simp: head_block_def)
  with Suc show ?case by (simp add: iter_append cong: if_cong)
qed simp

lemma head_read_log_at:
  assumes "good_header start (disksize t) D" and "same_block d (D start)" and "log_start l = int start" "log_dev l = 1"
    and "start + 30 \<le> unat (disksize t)" and "log_st t = head_read d l"
  shows "log_at start t \<and> lhn t = head_n (D start) \<and> (\<forall>i < lhn t. hb t i = head_block (D start) i)"
proof -
  have n: "get32 d 0 = get32 (D start) 0" "head_n d = head_n (D start)"
    using get32_same_block [OF assms(2)] head_same_block [OF assms(2)] by simp_all
  have "head_n (D start) \<le> 29" using assms(1) by (simp add: good_header_def head_n_def nat_le_iff)
  with n have l: "lhn t = head_n (D start)" "\<And>i. i < head_n (D start) \<Longrightarrow> hb t i = head_block (D start) i"
    using assms(6) head_same_block(2) [OF assms(2)] by (simp_all add: lhn_def hb_def head_read_def head_n_def)
  then show ?thesis using assms n by (simp add: log_at_def good_header_def head_read_def)
qed

text \<open>What \<open>read_head\<close> leaves: the list of the blocks to install is the one on disk.\<close>

definition loaded :: "nat \<Rightarrow> nat \<Rightarrow> kernel \<Rightarrow> kernel \<Rightarrow> bool" where
  "loaded p start s t \<longleftrightarrow> can_install p start t \<and> (\<forall>b m. \<not> pin t b m) \<and> disk t = disk s \<and> disksize t = disksize s \<and>
     lhn t = head_n (disk s start) \<and> (\<forall>i < lhn t. hb t i = head_block (disk s start) i)"

lemma read_head_ok:
  assumes f: "fresh p start s" and g: "good_header start (disksize s) (disk s)"
  shows "wp (read_head s) (loaded p start s)"
proof -
  have ok: "bufs p {} s" and td: "tidy s" and np: "\<And>b m. \<not> pin s b m" using f by (simp_all add: fresh_def)
  have dv: "log_devno s = 1" using f by (simp add: fresh_def log_devno_def)
  have pb: "card (pinned_bufs s) < 30" by (simp add: pinned_bufs_def np)
  have st: "start + 30 \<le> unat (disksize s)" "log_start (log_st s) = int start" using f by (simp_all add: fresh_def)
  have hn: "unat (headno s) = start" using st unat32_bound [of "disksize s"] by (simp add: unat_of_nat)
  then have hs: "headno s < disksize s" using st by (simp add: word_less_nat_alt)
  show ?thesis
    unfolding read_head_def dv
  proof (rule wp_seq [OF bread1 [OF ok td hs pb]], clarify)
    fix b t
    assume gt: "got p s {} (headno s) b t"
    let ?d = "buf_data b t"
    let ?t = "t\<lparr>log_st := head_read ?d (log_st s)\<rparr>"
    have t: "bio p s t" "bufs p {b} t" "disk t = disk s" "tidy t" "holds (bcache t b) (headno s)"
      using gt got_tidy [OF gt td] by (simp_all add: got_def)
    have np': "\<not> pin t b m" for b m using got_pins [OF gt td] np by blast
    then have nd: "\<not> b_dirty (bcache t b)" using tidy_dirty [OF t(4)] gt by (auto simp: got_def pinned_bufs_def)
    then have sd: "same_block ?d (disk s start)" using gt hn by (simp add: got_def)
    have n29: "nat (sint (get32 ?d 0)) \<le> 30" using g get32_same_block [OF sd, of 0] by (simp add: good_header_def nat_le_iff)
    have l: "log_st t = log_st s" "disksize t = disksize s" using bio_fields [OF t(1)] by simp_all
    have lp: "iter (\<lambda>i s. bindr (in_bounds (i < nat LOGSIZE)) (\<lambda>_.
              Inr (upd_log (\<lambda>l. l\<lparr>log_lh := (log_lh l)\<lparr>lh_block := (lh_block (log_lh l))(i := sint (get32 ?d (4 + 4 * i)))\<rparr>\<rparr>) s)))
           [0..<nat (lh_n (lh (set_lh_n (sint (get32 ?d 0)) t)))] (set_lh_n (sint (get32 ?d 0)) t) = Inr ?t"
      using read_head_loop [OF n29, of ?d "set_lh_n (sint (get32 ?d 0)) t"] l by (simp add: set_lh_n_def head_read_def head_n_def cong: if_cong)
    have "wp (brelse b ?t) (\<lambda>u. bio p ?t u \<and> disk u = disk ?t \<and> bufs p ({b} - {b}) u \<and> (\<forall>a. kept (bcache u a) (bcache ?t a)))"
      using t sd hn by (intro brelse_ok) (auto simp: holds_def buf_data_def)
    then have "wp (brelse b ?t) (loaded p start s)"
    proof (elim wp_mono, elim conjE)
      fix u
      assume u: "bio p ?t u" "disk u = disk ?t" "bufs p ({b} - {b}) u" "\<forall>a. kept (bcache u a) (bcache ?t a)"
      have np'': "\<not> pin u b m" for b m using kept_pin [OF u(4)] np' by simp
      have du: "disksize u = disksize s" "log_st u = head_read ?d (log_st s)" using bio_fields [OF u(1)] l by simp_all
      have "log_at start u \<and> lhn u = head_n (disk s start) \<and> (\<forall>i < lhn u. hb u i = head_block (disk s start) i)"
        using f g sd du by (intro head_read_log_at) (simp_all add: fresh_def)
      moreover have "tidy u" using kept_tidy [OF u(4)] t(4) by simp
      ultimately show "loaded p start s u"
        using u np'' du t(3) by (simp add: loaded_def can_install_def pinned_bufs_def)
    qed
    then show "wp (let d = ?d; s = set_lh_n (sint (get32 d 0)) t in
        bindr (iter (\<lambda>i s. bindr (in_bounds (i < nat LOGSIZE)) (\<lambda>_.
              Inr (upd_log (\<lambda>l. l\<lparr>log_lh := (log_lh l)\<lparr>lh_block := (lh_block (log_lh l))(i := sint (get32 d (4 + 4 * i)))\<rparr>\<rparr>) s)))
              [0..<nat (lh_n (lh s))] s) (brelse b)) (loaded p start s)"
      unfolding Let_def lp by simp
  qed
qed

section \<open>What a disk with a log stands for\<close>

text \<open>The block a home block is read from once the log is replayed.\<close>

definition origin :: "nat \<Rightarrow> (nat \<Rightarrow> uint) \<Rightarrow> nat \<Rightarrow> nat \<Rightarrow> nat" where
  "origin start B n k = (case find (\<lambda>i. unat (B i) = k) (rev [0..<n]) of None \<Rightarrow> k | Some i \<Rightarrow> start + i + 1)"

lemma inst_origin: "inst D start B n k = D (origin start B n k)"
  by (simp add: inst_def origin_def split: option.split)

lemma origin_cases:
  "(\<forall>i < n. unat (B i) \<noteq> k) \<and> origin start B n k = k \<or> (\<exists>i < n. unat (B i) = k \<and> origin start B n k = start + i + 1)"
proof (cases "find (\<lambda>i. unat (B i) = k) (rev [0..<n])")
  case None
  moreover have "\<forall>i < n. unat (B i) \<noteq> k" using None by (auto simp: find_None_iff)
  ultimately show ?thesis by (simp add: origin_def)
next
  case (Some i)
  then have "i < n" "unat (B i) = k" by (auto simp: find_Some_iff rev_nth)
  then show ?thesis using Some by (auto simp: origin_def)
qed

lemma origin_cong: "(\<And>i. i < n \<Longrightarrow> B i = C i) \<Longrightarrow> origin start B n k = origin start C n k"
  unfolding origin_def by (subst find_cong [of "rev [0..<n]" _ _ "\<lambda>i. unat (C i) = k"]) auto

text \<open>A block that no entry names is left alone, the log in particular.\<close>

lemma origin_log:
  assumes "\<And>i. i < n \<Longrightarrow> \<not> in_log start (unat (B i))" and "in_log start k"
  shows "origin start B n k = k"
  using origin_cases [of n B k start] assms by auto

text \<open>Replaying a log of which a part has been replayed already gives the same disk.\<close>

lemma inst_again:
  assumes D: "same_disk E (inst D start B j)" and j: "j \<le> n" "n < 30"
    and out: "\<And>i. i < n \<Longrightarrow> \<not> in_log start (unat (B i))"
  shows "same_disk (inst E start B n) (inst D start B n)"
  unfolding same_disk_def
proof
  fix k
  have E: "same_block (E m) (D (origin start B j m))" for m using D by (simp add: same_disk_def inst_origin)
  have "origin start B j (origin start B n k) = origin start B n k"
    using origin_cases [of n B k start]
  proof
    assume "(\<forall>i < n. unat (B i) \<noteq> k) \<and> origin start B n k = k"
    then show ?thesis using origin_cases [of j B k start] j by (metis less_le_trans)
  next
    assume "\<exists>i < n. unat (B i) = k \<and> origin start B n k = start + i + 1"
    then have "in_log start (origin start B n k)" using j by (auto simp: in_log_def)
    then show ?thesis using out j by (intro origin_log) auto
  qed
  then show "same_block (inst E start B n k) (inst D start B n k)"
    using E [of "origin start B n k"] by (simp add: inst_origin)
qed

lemma inst_head:
  assumes "good_header start sz D" and "j \<le> head_n (D start)" and "same_disk E (inst D start (head_block (D start)) j)"
  shows "same_block (E start) (D start)"
proof -
  have "origin start (head_block (D start)) j start = start"
    using assms(1,2) by (intro origin_log) (auto simp: good_header_def in_log_def)
  then show ?thesis using assms(3) by (simp add: same_disk_def inst_origin) metis
qed

lemma logical_empty: "head_n (D start) = 0 \<Longrightarrow> logical start D = D"
  by (simp add: logical_def)

lemma logical_head:
  assumes "same_block (E start) (D start)" and "head_n (D start) \<le> 30"
  shows "logical start E = inst E start (head_block (D start)) (head_n (D start))"
proof
  fix k
  have "origin start (head_block (E start)) (head_n (D start)) k = origin start (head_block (D start)) (head_n (D start)) k"
    using head_same_block(2) [OF assms(1)] assms(2) by (intro origin_cong) simp
  then show "logical start E k = inst E start (head_block (D start)) (head_n (D start)) k"
    using head_same_block(1) [OF assms(1)] by (simp add: logical_def inst_origin)
qed

lemma good_header_le: "good_header start sz D \<Longrightarrow> head_n (D start) < 30"
  by (auto simp: good_header_def head_n_def)

lemma logical_again:
  assumes g: "good_header start sz D" and j: "j \<le> head_n (D start)" and E: "same_disk E (inst D start (head_block (D start)) j)"
  shows "same_disk (logical start E) (logical start D)"
  unfolding logical_head [of E start D, OF inst_head [OF g j E] less_imp_le [OF good_header_le [OF g]]]
  using inst_again [OF E j good_header_le [OF g]] g by (simp add: logical_def good_header_def)

lemma get32_encode_head: "get32 (encode_head h d) 0 = word_of_int (lh_n h)"
  by (simp add: encode_head_def encode_head_count)

section \<open>Recovery and commit\<close>

text \<open>Writing a header: the list on disk is then the one in memory; an empty one makes the log empty.\<close>

lemma header_written:
  assumes lg: "log_at start s" and st: "stored p s (headno s) (encode_head (lh s) x) t"
  shows "get32 (disk t start) 0 = word_of_int (lh_n (lh s))" "head_n (disk t start) = lhn s"
    "\<And>i. i < lhn s \<Longrightarrow> head_block (disk t start) i = hb s i" "\<And>k. k \<noteq> start \<Longrightarrow> disk t k = disk s k"
proof -
  obtain y where y: "same_block y (encode_head (lh s) x)" "disk t = (disk s)(start := y)"
    using st log_blockno(3) [OF lg, of 0] by (auto simp: stored_def)
  have n: "0 \<le> lh_n (lh s)" "lh_n (lh s) \<le> 30" "lhn s \<le> 29" using lg lhn_le(1) [OF lg] by (simp_all add: log_at_def)
  show "get32 (disk t start) 0 = word_of_int (lh_n (lh s))"
    using y get32_same_block [OF y(1), of 0] by (simp add: get32_encode_head)
  show "head_n (disk t start) = lhn s" using y head_same_block(1) [OF y(1)] head_encode(1) [OF n(1,2)] by (simp add: lhn_def)
  show "head_block (disk t start) i = hb s i" if "i < lhn s" for i
    using y head_same_block(2) [OF y(1), of i] head_encode(2) [OF n(1,2)] n(3) that by (simp add: lhn_def hb_def)
  show "disk t k = disk s k" if "k \<noteq> start" for k using y that by simp
qed

lemma erase_head:
  assumes ok: "bufs p {} s" and td: "tidy s" and lg: "log_at start s" and room: "card (pinned_bufs s) < 30"
  shows "wp (write_head (set_lh_n 0 s)) (\<lambda>t. bufs p {} t \<and> tidy t \<and> (\<forall>b m. pin t b m \<longrightarrow> pin s b m) \<and>
    get32 (disk t start) 0 = 0 \<and> (\<forall>k. k \<noteq> start \<longrightarrow> disk t k = disk s k) \<and> bio p (set_lh_n 0 s) t)"
proof -
  let ?s = "set_lh_n 0 s"
  have e: "?s = s\<lparr>log_st := log_st ?s\<rparr>" by (simp add: set_lh_n_def)
  have lg': "log_at start ?s" using lg by (simp add: log_at_def lhn_def set_lh_n_def)
  have "bufs p {} ?s" "tidy ?s" "card (pinned_bufs ?s) < 30" by (subst e, simp add: ok td room)+
  then have "wp (write_head ?s) (stored p ?s (headno ?s) (encode_head (lh ?s) (contents ?s (headno ?s))))"
    using lg' by (intro write_head_ok)
  then show ?thesis
  proof (rule wp_mono)
    fix t assume t: "stored p ?s (headno ?s) (encode_head (lh ?s) (contents ?s (headno ?s))) t"
    have "pin ?s b m = pin s b m" for b m by (subst e) simp
    then show "bufs p {} t \<and> tidy t \<and> (\<forall>b m. pin t b m \<longrightarrow> pin s b m) \<and>
        get32 (disk t start) 0 = 0 \<and> (\<forall>k. k \<noteq> start \<longrightarrow> disk t k = disk s k) \<and> bio p ?s t"
      using t header_written(1,4) [OF lg' t] by (auto simp: stored_def set_lh_n_def)
  qed
qed

text \<open>What recovery has done: every home block has the contents the log gave it, and the log is empty.\<close>

definition recovered :: "nat \<Rightarrow> nat \<Rightarrow> (nat \<Rightarrow> block) \<Rightarrow> kernel \<Rightarrow> bool" where
  "recovered p start D t \<longleftrightarrow> bufs p {} t \<and> (\<forall>b m. \<not> pin t b m) \<and> sint (get32 (disk t start) 0) = 0 \<and>
     (\<forall>k. \<not> in_log start k \<longrightarrow> same_block (disk t k) (logical start D k))"

lemma loaded_installed:
  assumes l: "loaded p start s u" and j: "j \<le> lhn u" and v: "installed p u start j v"
  shows "same_disk (disk v) (inst (disk s) start (head_block (disk s start)) j)"
proof -
  have h: "hb u i = head_block (disk s start) i" if "i < j" for i using l j that by (simp add: loaded_def)
  have "inst (disk u) start (hb u) j = inst (disk s) start (head_block (disk s start)) j"
  proof
    fix k show "inst (disk u) start (hb u) j k = inst (disk s) start (head_block (disk s start)) j k"
      using origin_cong [of j "hb u" "head_block (disk s start)" start k] h l by (simp add: inst_origin loaded_def)
  qed
  then show ?thesis using v by (simp add: installed_def)
qed

lemma recover_ok:
  assumes f: "fresh p start s" and g: "good_header start (disksize s) (disk s)"
  shows "wp (recover_from_log s) (recovered p start (disk s))"
  unfolding recover_from_log_def
proof (rule wp_seq [OF read_head_ok [OF f g]])
  fix u assume u: "loaded p start s u"
  then have ci: "can_install p start u" and np: "\<And>b m. \<not> pin u b m" by (simp_all add: loaded_def)
  have "wp (install_trans u) (installed p u start (lhn u))"
    unfolding install_trans_def lhn_def [symmetric] using install_upto [OF ci] by simp
  then show "wp (bindr (install_trans u) (\<lambda>s. write_head (set_lh_n 0 s))) (recovered p start (disk s))"
  proof (rule wp_seq)
    fix v assume v: "installed p u start (lhn u) v"
    have b: "bufs p {} v" "tidy v" "bio p u v" "\<And>b m. \<not> pin v b m" using v np by (simp_all add: installed_def)
    have lg: "log_at start v" using ci log_at_bio(1) [OF b(3)] by (simp add: can_install_def)
    have "same_disk (disk v) (logical start (disk s))"
      using loaded_installed [OF u _ v] u by (simp add: logical_def loaded_def)
    then show "wp (write_head (set_lh_n 0 v)) (recovered p start (disk s))"
      using b(4) by (intro wp_mono [OF erase_head [OF b(1,2) lg]])
        (auto simp: recovered_def same_disk_def in_log_def pinned_bufs_def)
  qed
qed

text \<open>
  The disks a crash may leave. A write of one block to the disk happens or does not: in
  \<open>commit\<close>, \<open>write_log\<close> writes one log block at a time, then \<open>write_head\<close> writes the header,
  \<open>install_trans\<close> one home block at a time, and the last \<open>write_head\<close> the empty header.
\<close>

inductive commit_crash :: "kernel \<Rightarrow> (nat \<Rightarrow> block) \<Rightarrow> bool" for s where
  logging: "j \<le> nat (lh_n (lh s)) \<Longrightarrow> iter write_log_one [0..<j] s = Inr t \<Longrightarrow> commit_crash s (disk t)"
| installing: "0 < lh_n (lh s) \<Longrightarrow> write_log s = Inr t \<Longrightarrow> write_head t = Inr u \<Longrightarrow> j \<le> nat (lh_n (lh u)) \<Longrightarrow>
    iter install_one [0..<j] u = Inr v \<Longrightarrow> commit_crash s (disk v)"
| finished: "commit s = Inr t \<Longrightarrow> commit_crash s (disk t)"

inductive recovery_crash :: "kernel \<Rightarrow> (nat \<Rightarrow> block) \<Rightarrow> bool" for s where
  before: "recovery_crash s (disk s)"
| replaying: "read_head s = Inr u \<Longrightarrow> j \<le> nat (lh_n (lh u)) \<Longrightarrow> iter install_one [0..<j] u = Inr v \<Longrightarrow> recovery_crash s (disk v)"
| over: "recover_from_log s = Inr t \<Longrightarrow> recovery_crash s (disk t)"

definition agree :: "nat \<Rightarrow> (nat \<Rightarrow> block) \<Rightarrow> (nat \<Rightarrow> block) \<Rightarrow> bool" where
  "agree start D E \<longleftrightarrow> (\<forall>n :: uint. \<not> in_log start (unat n) \<longrightarrow> same_block (D (unat n)) (E (unat n)))"

lemma agree_refl [simp]: "agree start D D"
  by (simp add: agree_def)

lemma agree_trans: "agree start D E \<Longrightarrow> agree start E F \<Longrightarrow> agree start D F"
  unfolding agree_def using same_block_trans by blast

lemma agree_disk: "same_disk D E \<Longrightarrow> agree start D E"
  by (simp add: agree_def same_disk_def)

lemma wp_result: "wp m Q \<Longrightarrow> m = Inr t \<Longrightarrow> Q t"
  by simp

lemma good_empty: "sint (get32 (D start) 0) = 0 \<Longrightarrow> good_header start sz D \<and> logical start D = D"
  by (simp add: good_header_def logical_def head_n_def)

text \<open>A crash in recovery leaves a disk that stands for the same contents.\<close>

lemma recovery_crash_same:
  assumes f: "fresh p start s" and g: "good_header start (disksize s) (disk s)" and c: "recovery_crash s E"
  shows "good_header start (disksize s) E \<and> agree start (logical start E) (logical start (disk s))"
  using c
proof cases
  case before
  then show ?thesis using g by simp
next
  case (replaying u j v)
  have u: "loaded p start s u" using wp_result [OF read_head_ok [OF f g] replaying(2)] .
  then have j: "j \<le> lhn u" "j \<le> head_n (disk s start)" using replaying(3) by (simp_all add: loaded_def lhn_def)
  have "installed p u start j v" using u wp_result [OF install_upto [OF _ j(1)] replaying(4)] by (simp add: loaded_def)
  then have E: "same_disk E (inst (disk s) start (head_block (disk s start)) j)"
    using loaded_installed [OF u j(1)] replaying(1) by simp
  show ?thesis
    using good_header_cong [of start _ _ E, OF g inst_head [OF g j(2) E]] agree_disk [OF logical_again [OF g j(2) E]] by simp
next
  case (over t)
  have "recovered p start (disk s) t" using wp_result [OF recover_ok [OF f g] over(2)] .
  then show ?thesis using over(1) good_empty [of E start] by (simp add: recovered_def agree_def)
qed

text \<open>While the log is written, the disk still stands for the old contents.\<close>

lemma logged_old:
  assumes tx: "txn p start s" and e: "sint (get32 (disk s start) 0) = 0" and t: "logged p s start j t" and j: "j < 30"
  shows "good_header start sz (disk t) \<and> agree start (logical start (disk t)) (disk s)"
proof -
  have d: "same_block (disk t k) (logview start j s k (disk s k))" for k using t by (simp add: logged_def same_disk_def)
  have "same_block (disk t start) (disk s start)" using d [of start] by (simp add: logview_def)
  then have "sint (get32 (disk t start) 0) = 0" using e get32_same_block [of _ _ 0] by simp
  then show ?thesis using good_empty [of "disk t" start] d logview_home [OF _ j] by (auto simp: agree_def) metis
qed

text \<open>Once the header is written, the disk stands for what the cache has.\<close>

definition cached_disk :: "kernel \<Rightarrow> nat \<Rightarrow> block" where
  "cached_disk s k = contents s (of_nat k)"

definition committed :: "nat \<Rightarrow> nat \<Rightarrow> kernel \<Rightarrow> kernel \<Rightarrow> bool" where
  "committed p start s u \<longleftrightarrow> can_install p start u \<and> good_header start (disksize s) (disk u) \<and> head_n (disk u start) = lhn s \<and>
     lhn u = lhn s \<and> (\<forall>i < lhn s. hb u i = hb s i \<and> head_block (disk u start) i = hb s i) \<and> (\<forall>b m. pin u b m \<longleftrightarrow> pin s b m) \<and>
     (\<forall>k \<noteq> start. same_block (disk u k) (logview start (lhn s) s k (disk s k)))"

lemma txn_pin:
  assumes tx: "txn p start s" and "pin s b m"
  shows "\<exists>i < lhn s. m = hb s i" "\<not> in_log start (unat m)"
proof -
  show "\<exists>i < lhn s. m = hb s i" using assms unfolding txn_def by blast
  then show "\<not> in_log start (unat m)" using tx by (auto simp: txn_def log_at_def)
qed

lemma write_log_head:
  assumes tx: "txn p start s" and n: "0 < lh_n (lh s)"
  shows "wp (bindr (write_log s) write_head) (committed p start s)"
proof -
  have lg: "log_at start s" using tx by (simp add: txn_def)
  have l29: "lhn s \<le> 29" "0 < lhn s" using lhn_le [OF lg] n by simp_all
  have "wp (write_log s) (logged p s start (lhn s))"
    unfolding write_log_def lhn_def [symmetric] using write_log_upto [OF tx] by simp
  then show ?thesis
  proof (rule wp_seq)
    fix t assume t: "logged p s start (lhn s) t"
    then have b: "bio p s t" "bufs p {} t" "tidy t" "\<And>b m. pin t b m \<longleftrightarrow> pin s b m" by (simp_all add: logged_def)
    note lt = log_at_bio [OF b(1)]
    have lgt: "log_at start t" using lg lt by simp
    have pb: "pinned_bufs t = pinned_bufs s" using b(4) by (simp add: pinned_bufs_def)
    have room: "card (pinned_bufs t) < 30" using txn_room [OF tx] pb by simp
    show "wp (write_head t) (committed p start s)"
    proof (rule wp_mono [OF write_head_ok [OF b(2,3) lgt room]])
      fix u assume u: "stored p t (headno t) (encode_head (lh t) (contents t (headno t))) u"
      note h = header_written [OF lgt u]
      have bu: "bio p t u" "bufs p {} u" "tidy u" using u by (simp_all add: stored_def)
      have "m \<noteq> headno t" if pm: "pin s b m" for b m
      proof -
        obtain i where "i < lhn s" "m = hb s i" using txn_pin(1) [OF tx pm] by blast
        then show ?thesis using home_not_log(2) [OF lgt, of i 0] lt(2,3) by simp
      qed
      then have pin: "pin u b m \<longleftrightarrow> pin s b m" for b m using u b(4) unfolding stored_def by blast
      note lu = log_at_bio [OF bu(1)]
      have "pinned_bufs u = pinned_bufs s" using pin by (simp add: pinned_bufs_def)
      then have "can_install p start u"
        using bu lu(1) lgt pin txn_pin(2) [OF tx] txn_room [OF tx] tx l29 lu(2) lt(2) by (simp add: can_install_def txn_def)
      moreover have "sint (get32 (disk u start) 0) = int (lhn s)"
      proof -
        have "sint (word_of_int (lh_n (lh s)) :: uint) = lh_n (lh s)"
          using lg by (simp add: log_at_def signed_of_int signed_take_bit_int_eq_self)
        then show ?thesis using h(1) bio_fields(3) [OF b(1)] lhn_le(2) [OF lg] by simp
      qed
      then have "good_header start (disksize s) (disk u)"
        using lg l29 h(2,3) lt by (simp add: good_header_def log_at_def)
      moreover have "same_block (disk u k) (logview start (lhn s) s k (disk s k))" if "k \<noteq> start" for k
        using t h(4) [OF that] by (simp add: logged_def same_disk_def)
      ultimately show "committed p start s u" using h(2,3) pin lu lt by (simp add: committed_def)
    qed
  qed
qed

lemma committed_new:
  assumes tx: "txn p start s" and u: "committed p start s u"
  shows "agree start (logical start (disk u)) (cached_disk s)"
  unfolding agree_def
proof (intro allI impI)
  fix m :: uint
  assume m: "\<not> in_log start (unat m)"
  have lg: "log_at start s" and ok: "bufs p {} s" using tx by (simp_all add: txn_def)
  have un: "same_block (disk u k) (logview start (lhn s) s k (disk s k))" if "k \<noteq> start" for k using u that by (simp add: committed_def)
  have "origin start (head_block (disk u start)) (lhn s) (unat m) = origin start (hb s) (lhn s) (unat m)"
    using u by (intro origin_cong) (simp add: committed_def)
  then have l: "logical start (disk u) (unat m) = disk u (origin start (hb s) (lhn s) (unat m))"
    using u by (simp add: logical_def inst_origin committed_def)
  show "same_block (logical start (disk u) (unat m)) (cached_disk s (unat m))"
    using origin_cases [of "lhn s" "hb s" "unat m" start]
  proof (elim disjE conjE exE)
    assume o: "\<forall>i < lhn s. unat (hb s i) \<noteq> unat m" "origin start (hb s) (lhn s) (unat m) = unat m"
    then have "\<not> pin s b m" for b using txn_pin(1) [OF tx, of b m] by auto
    then have "same_block (contents s m) (disk s (unat m))" using contents_clean [OF ok] by blast
    then have c: "same_block (disk s (unat m)) (contents s m)" by (rule same_block_sym)
    have "unat m \<noteq> start" using m by (auto simp: in_log_def)
    then have "same_block (disk u (unat m)) (disk s (unat m))"
      using un [of "unat m"] logview_home [OF m, of "lhn s"] lhn_le(1) [OF lg] by simp
    then show ?thesis using l o(2) same_block_trans [OF _ c] by (simp add: cached_disk_def)
  next
    fix i assume i: "i < lhn s" "unat (hb s i) = unat m" "origin start (hb s) (lhn s) (unat m) = start + i + 1"
    then have "hb s i = m" by (auto dest: unsigned_word_eqI)
    then show ?thesis using un [of "start + i + 1"] i l by (simp add: cached_disk_def logview_def)
  qed
qed

text \<open>A crash while the home blocks are written, and after the header is erased.\<close>

lemma committed_installed:
  assumes tx: "txn p start s" and u: "committed p start s u" and j: "j \<le> lhn s" and v: "installed p u start j v"
  shows "good_header start (disksize s) (disk v) \<and> agree start (logical start (disk v)) (cached_disk s)"
    and "j = lhn s \<Longrightarrow> agree start (disk v) (cached_disk s)"
proof -
  have g: "good_header start (disksize s) (disk u)" and hn: "head_n (disk u start) = lhn s" using u by (simp_all add: committed_def)
  have "origin start (hb u) j k = origin start (head_block (disk u start)) j k" for k
    using u j by (intro origin_cong) (simp add: committed_def)
  then have E: "same_disk (disk v) (inst (disk u) start (head_block (disk u start)) j)"
    using v by (simp add: installed_def same_disk_def inst_origin)
  have jn: "j \<le> head_n (disk u start)" using j hn by simp
  show "good_header start (disksize s) (disk v) \<and> agree start (logical start (disk v)) (cached_disk s)"
    using good_header_cong [of start _ _ "disk v", OF g inst_head [OF g jn E]]
      agree_trans [OF agree_disk [OF logical_again [OF g jn E]] committed_new [OF tx u]] by simp
  show "agree start (disk v) (cached_disk s)" if "j = lhn s"
    using agree_trans [OF agree_disk committed_new [OF tx u], of "disk v"] E that hn by (simp add: logical_def)
qed

text \<open>What a commit has done when it returns.\<close>

lemma commit_ok:
  assumes tx: "txn p start s" and e: "sint (get32 (disk s start) 0) = 0"
  shows "wp (commit s) (\<lambda>t. bufs p {} t \<and> (\<forall>b m. \<not> pin t b m) \<and> sint (get32 (disk t start) 0) = 0 \<and> agree start (disk t) (cached_disk s))"
proof (cases "0 < lh_n (lh s)")
  case True
  have "wp (bindr (bindr (write_log s) write_head) (\<lambda>s. bindr (install_trans s) (\<lambda>s. write_head (set_lh_n 0 s))))
    (\<lambda>t. bufs p {} t \<and> (\<forall>b m. \<not> pin t b m) \<and> sint (get32 (disk t start) 0) = 0 \<and> agree start (disk t) (cached_disk s))"
  proof (rule wp_seq [OF write_log_head [OF tx True]])
    fix u assume u: "committed p start s u"
    then have ci: "can_install p start u" and lu: "lhn u = lhn s" by (simp_all add: committed_def)
    have "wp (install_trans u) (installed p u start (lhn u))"
      unfolding install_trans_def lhn_def [symmetric] using install_upto [OF ci] by simp
    then show "wp (bindr (install_trans u) (\<lambda>s. write_head (set_lh_n 0 s)))
      (\<lambda>t. bufs p {} t \<and> (\<forall>b m. \<not> pin t b m) \<and> sint (get32 (disk t start) 0) = 0 \<and> agree start (disk t) (cached_disk s))"
    proof (rule wp_seq)
      fix v assume v: "installed p u start (lhn u) v"
      have np: "\<not> pin v b m" for b m
        using v u txn_pin(1) [OF tx, of b m] lu by (auto simp: installed_def committed_def)
      have b: "bufs p {} v" "tidy v" "bio p u v" using v by (simp_all add: installed_def)
      have lg: "log_at start v" using ci log_at_bio(1) [OF b(3)] by (simp add: can_install_def)
      have "agree start (disk v) (cached_disk s)" using committed_installed(2) [OF tx u _ v] lu by simp
      then show "wp (write_head (set_lh_n 0 v))
        (\<lambda>t. bufs p {} t \<and> (\<forall>b m. \<not> pin t b m) \<and> sint (get32 (disk t start) 0) = 0 \<and> agree start (disk t) (cached_disk s))"
        using np by (intro wp_mono [OF erase_head [OF b(1,2) lg]]) (auto simp: agree_def in_log_def pinned_bufs_def)
    qed
  qed
  then show ?thesis using True by (simp add: commit_def bindr_assoc)
next
  case False
  then have z: "lhn s = 0" by (simp add: lhn_def)
  then have np: "\<not> pin s b m" for b m using tx by (simp add: txn_def)
  have "same_block (disk s (unat m)) (cached_disk s (unat m))" for m :: uint
    using contents_clean [of p s m] np tx same_block_sym by (simp add: cached_disk_def txn_def)
  then show ?thesis using False np tx e by (simp add: commit_def agree_def txn_def)
qed

lemma commit_crash_atomic:
  assumes tx: "txn p start s" and e: "sint (get32 (disk s start) 0) = 0" and c: "commit_crash s D"
  shows "good_header start (disksize s) D \<and> (agree start (logical start D) (disk s) \<or> agree start (logical start D) (cached_disk s))"
  using c
proof cases
  case (logging j t)
  then have "logged p s start j t" "j < 30"
    using wp_result [OF write_log_upto [OF tx]] lhn_le(1) [of start s] tx by (auto simp: lhn_def txn_def)
  then show ?thesis using logged_old [OF tx e] logging(1) by blast
next
  case (installing t u j v)
  have u: "committed p start s u" using wp_result [OF write_log_head [OF tx installing(2)], of u] installing(3,4) by simp
  then have j: "j \<le> lhn u" "j \<le> lhn s" using installing(5) by (simp_all add: committed_def lhn_def)
  have "installed p u start j v" using u wp_result [OF install_upto [OF _ j(1)] installing(6)] by (simp add: committed_def)
  then show ?thesis using committed_installed(1) [OF tx u j(2)] installing(1) by blast
next
  case (finished t)
  then show ?thesis using wp_result [OF commit_ok [OF tx e] finished(2)] good_empty [of D start] by auto
qed

section \<open>Properties of the log\<close>

text \<open>Disks after any number of restarts, each cut short somewhere in its recovery.\<close>

inductive restarts :: "nat \<Rightarrow> uint \<Rightarrow> (nat \<Rightarrow> block) \<Rightarrow> (nat \<Rightarrow> block) \<Rightarrow> bool" for start sz D where
  first: "restarts start sz D D"
| again: "restarts start sz D (disk s) \<Longrightarrow> fresh p start s \<Longrightarrow> disksize s = sz \<Longrightarrow> recovery_crash s E \<Longrightarrow> restarts start sz D E"

lemma restarts_same:
  assumes "restarts start sz D E" and "good_header start sz D"
  shows "good_header start sz E \<and> agree start (logical start E) (logical start D)"
  using assms(1)
proof induction
  case (again s p E)
  then show ?case using recovery_crash_same [of p start s E] agree_trans by blast
qed (simp add: assms(2))

text \<open>A transaction that has modified block 100, with the log in the blocks 2 to 31.\<close>

definition one_logged :: kernel where
  "one_logged = one_running\<lparr>
     bcache := ring_buf(0 := (ring_buf 0)\<lparr>b_dev := 1, b_blockno := 100, b_valid := True, b_dirty := True, b_data := (\<lambda>_. 7)\<rparr>),
     log_st := zero_log\<lparr>log_start := 2, log_size := 30, log_dev := 1, log_lh := \<lparr>lh_n = 1, lh_block = (\<lambda>_. 100)\<rparr>\<rparr>\<rparr>"

definition after_reboot :: kernel where
  "after_reboot = one_running\<lparr>log_st := zero_log\<lparr>log_start := 2, log_size := 30, log_dev := 1\<rparr>\<rparr>"

lemma one_logged_txn: "txn 7 2 one_logged"
proof -
  let ?c = "bcache one_logged"
  have "bufring ?c (rev [0..<30])"
    using bufring_cong [of ?c ring_buf] ring_buf_ring by (simp add: one_logged_def)
  then have "cache_ok 1 ?c (\<lambda>_ _. 0) {}"
    by (rule cache_okI)
      (auto simp: one_logged_def free_buf_def ring_buf_def one_each_def holds_def zero_buf_def zero_sleeplock_def split: if_splits)
  then have "bufs 7 {} one_logged"
    using one_running_idle by (simp add: bufs_def one_logged_def)
  moreover have "pin one_logged b m \<longleftrightarrow> b = 0 \<and> m = 100" for b m
    by (auto simp: pin_def one_logged_def holds_def ring_buf_def zero_buf_def)
  moreover have "tidy one_logged" by (simp add: tidy_def one_logged_def ring_buf_def zero_buf_def)
  ultimately show ?thesis by (simp add: txn_def log_at_def lhn_def hb_def in_log_def) (simp add: one_logged_def)
qed

lemma after_reboot_fresh: "fresh 7 2 after_reboot"
  using one_running_bufs
  by (simp add: fresh_def after_reboot_def tidy_def pin_def ring_buf_def zero_buf_def)



text \<open>
  C15. A commit that is not cut short is durable: commit() returns, every block outside the log
  has on disk what the cache had, no buffer is left modified and the log on disk is empty, so
  the next recovery has nothing to undo it with.
\<close>

theorem commit_durable:
  assumes "txn p start s" and "sint (get32 (disk s start) 0) = 0"
  shows "\<exists>t. commit s = Inr t \<and> agree start (disk t) (cached_disk s) \<and> (\<forall>b < 30. \<not> (b_dev (bcache t b) = 1 \<and> b_valid (bcache t b) \<and> b_dirty (bcache t b))) \<and>
    sint (get32 (disk t start) 0) = 0 \<and> logical start (disk t) = disk t"
  using commit_ok [OF assms] good_empty [of _ start] by (auto simp: wp_def pin_def holds_def split: sum.splits)

theorem commit_durable_witness: "\<exists>t. commit one_logged = Inr t \<and> same_block (disk t 100) (\<lambda>_. 7)"
proof -
  have "sint (get32 (disk one_logged 2) 0) = 0" by (simp add: one_logged_def get32_def)
  moreover have "contents one_logged 100 = (\<lambda>_. 7)"
    by (simp add: contents_def one_logged_def holds_def upt_conv_Cons)
  moreover have "same_block (D 100) (cached_disk one_logged 100)" if "agree 2 D (cached_disk one_logged)" for D
    using that [unfolded agree_def, THEN spec, of 100] by (simp add: in_log_def)
  ultimately show ?thesis using commit_durable [OF one_logged_txn] by (auto simp: cached_disk_def)
qed

section \<open>Adding a block to a transaction\<close>

text \<open>The header after \<open>log_write\<close>: a block that is in the list already is absorbed.\<close>

definition added :: "uint \<Rightarrow> log \<Rightarrow> log" where
  "added bn l = (let i = log_slot (log_lh l) bn; l = l\<lparr>log_lh := (log_lh l)\<lparr>lh_block := (lh_block (log_lh l))(i := sint bn)\<rparr>\<rparr>
     in if int i = lh_n (log_lh l) then l\<lparr>log_lh := (log_lh l)\<lparr>lh_n := lh_n (log_lh l) + 1\<rparr>\<rparr> else l)"

lemma added_fields [simp]: "log_start (added bn l) = log_start l" "log_dev (added bn l) = log_dev l"
    "log_size (added bn l) = log_size l" "log_outstanding (added bn l) = log_outstanding l"
  by (simp_all add: added_def Let_def)

lemma added_homes:
  assumes n: "0 \<le> lh_n (lh s)" and t: "log_st t = added bn (log_st s)"
  shows "lhn s \<le> lhn t" "int (lhn t) = lh_n (lh t)" "lhn t \<le> lhn s + 1" "hb t ` {..<lhn t} = insert bn (hb s ` {..<lhn s})"
proof -
  let ?i = "log_slot (lh s) bn"
  have hi: "hb t i = (if i = ?i then bn else hb s i)" for i using t by (simp add: hb_def added_def Let_def)
  have "(?i < lhn s \<and> hb s ?i = bn \<and> lhn t = lhn s \<and> lh_n (lh t) = lh_n (lh s)) \<or> (?i = lhn s \<and> lhn t = lhn s + 1 \<and> lh_n (lh t) = lh_n (lh s) + 1)"
  proof (cases "find (\<lambda>i. (word_of_int (lh_block (lh s) i) :: uint) = bn) [0..<nat (lh_n (lh s))]")
    case None
    then have "?i = nat (lh_n (lh s))" by (simp add: log_slot_def)
    then show ?thesis using t n by (simp add: lhn_def added_def Let_def)
  next
    case (Some i)
    then have "?i = i" by (simp add: log_slot_def)
    moreover have "i < nat (lh_n (lh s))" "hb s i = bn" using Some by (auto simp: find_Some_iff hb_def)
    ultimately show ?thesis using t by (auto simp: lhn_def added_def Let_def)
  qed
  then show "lhn s \<le> lhn t" "int (lhn t) = lh_n (lh t)" "lhn t \<le> lhn s + 1" "hb t ` {..<lhn t} = insert bn (hb s ` {..<lhn s})"
    using n by (auto simp: hi lhn_def image_iff less_Suc_eq split: if_splits)
qed

lemma log_write_eq:
  assumes i: "idle p s" and g: "lh_n (lh s) < 29" "lh_n (lh s) < log_size (log_st s) - 1" "1 \<le> log_outstanding (log_st s)"
  shows "log_write b s = Inr (critical Log_lock (s\<lparr>log_st := added (b_blockno (bcache s b)) (log_st s),
    bcache := (bcache s)(b := (bcache s b)\<lparr>b_dirty := True\<rparr>)\<rparr>))"
proof -
  let ?s = "s\<lparr>log_st := added (b_blockno (bcache s b)) (log_st s), bcache := (bcache s)(b := (bcache s b)\<lparr>b_dirty := True\<rparr>)\<rparr>"
  let ?a = "(acq Log_lock s)\<lparr>log_st := added (b_blockno (bcache s b)) (log_st s), bcache := (bcache s)(b := (bcache s b)\<lparr>b_dirty := True\<rparr>)\<rparr>"
  have "log_write b s = release Log_lock ?a"
    using g idle_acq(1) [OF i, of Log_lock] by (simp add: log_write_def Let_def added_def set_lh_n_def)
  also have "?a = acq Log_lock ?s" by (simp add: acq_def)
  also have "release Log_lock (acq Log_lock ?s) = Inr (critical Log_lock ?s)" using i by (intro release_acq) simp
  finally show ?thesis .
qed

lemma txn_added:
  assumes tx: "txn p start s" and gt: "got p s {} n b t" and n: "n < disksize s" "\<not> in_log start (unat n)" "lh_n (lh s) < 29"
    and v: "bufs p {} v" "disk v = disk s" "disksize v = disksize s" "log_st v = added n (log_st s)"
      "\<And>a. kept (bcache v a) (((bcache t)(b := (bcache t b)\<lparr>b_data := x, b_dirty := True\<rparr>)) a)"
  shows "txn p start v" "same_block (contents v m) (if m = n then x else contents s m)"
proof -
  let ?c = "(bcache t)(b := (bcache t b)\<lparr>b_data := x, b_dirty := True\<rparr>)"
  have td: "tidy s" and lg: "log_at start s" using tx by (simp_all add: txn_def)
  have t: "bufs p {b} t" "disk t = disk s" "holds (bcache t b) n" "b < 30" using gt by (simp_all add: got_def)
  have vb: "b_valid (bcache t b)" and one: "one_each (bcache t)"
    using t(1) cache_okD(3,5) by (auto simp: bufs_def held_buf_def)
  have pin: "pin v a k \<longleftrightarrow> pin s a k \<or> (a = b \<and> k = n)" for a k
    using v(5) [of a] vb t(3,4) got_pins [OF gt td, of a k] by (auto simp: pin_def kept_def holds_def)
  have td': "tidy v" using v(5) got_tidy [OF gt td] vb t(3) by (auto simp: tidy_def kept_def holds_def)
  have lh: "0 \<le> lh_n (lh s)" using lg by (simp add: log_at_def)
  note h = added_homes [OF lh v(4)]
  have hbs: "hb s i < disksize s \<and> \<not> in_log start (unat (hb s i))" if "i < lhn s" for i using lg that by (simp add: log_at_def)
  have mem: "hb v i \<in> insert n (hb s ` {..<lhn s})" if "i < lhn v" for i using h(4) that by blast
  have "log_at start v"
    using lg v(3,4) h(2,3) n lhn_le(2) [OF lg] mem hbs by (fastforce simp: log_at_def)
  moreover have "\<exists>a. pin v a (hb v i)" if "i < lhn v" for i
  proof -
    have "\<exists>a. pin s a (hb s j)" if "j < lhn s" for j using tx that by (simp add: txn_def)
    then have "hb v i = n \<or> (\<exists>a. pin s a (hb v i))" using mem [OF that] by auto
    then show ?thesis unfolding pin by blast
  qed
  moreover have "\<exists>i < lhn v. k = hb v i" if "pin v a k" for a k
  proof -
    have "k \<in> hb v ` {..<lhn v}" unfolding h(4) using that pin txn_pin(1) [OF tx, of a k] by auto
    then show ?thesis by auto
  qed
  ultimately show "txn p start v" using v(1) td' by (simp add: txn_def)
  have "contents v m = contents (t\<lparr>bcache := ?c\<rparr>) m" using v(2,5) t(2) by (intro contents_kept) simp_all
  also have "\<dots> = (if m = n then x else contents t m)"
    using contents_write [OF one t(4,3) vb, of "t\<lparr>bcache := ?c\<rparr>" "?c b" "disk t (unat n)" m] t(3) vb by (simp add: holds_def)
  finally show "same_block (contents v m) (if m = n then x else contents s m)" using gt by (simp add: got_def)
qed

lemma log_write_txn:
  assumes tx: "txn p start s" and n: "n < disksize s" "\<not> in_log start (unat n)"
    and g: "lh_n (lh s) < 29" "lh_n (lh s) < log_size (log_st s) - 1" "1 \<le> log_outstanding (log_st s)"
  shows "wp (bindr (bread 1 n s) (\<lambda>(b, s). bindr (log_write b (set_data b x s)) (brelse b)))
    (\<lambda>t. txn p start t \<and> disk t = disk s \<and> (\<forall>m. same_block (contents t m) (if m = n then x else contents s m)))"
proof -
  have ok: "bufs p {} s" and td: "tidy s" and lg: "log_at start s" using tx by (simp_all add: txn_def)
  show ?thesis
  proof (rule wp_seq [OF bread1 [OF ok td n(1) txn_room [OF tx]]], clarify)
    fix b t assume gt: "got p s {} n b t"
    have t: "bio p s t" "bufs p {b} t" "disk t = disk s" "holds (bcache t b) n" "b < 30" using gt by (simp_all add: got_def)
    have hb: "held_buf (p_pid (procs t p)) (bcache t b)" and one: "one_each (bcache t)"
      using t(2) cache_okD(3,5) by (auto simp: bufs_def)
    note f = bio_fields [OF t(1)]
    let ?u = "(set_data b x t)\<lparr>log_st := added n (log_st s), bcache := (bcache t)(b := (bcache t b)\<lparr>b_data := x, b_dirty := True\<rparr>)\<rparr>"
    have id: "idle p (set_data b x t)" "idle p ?u" using t(2) by (simp_all add: set_data_def bufs_def)
    have w: "log_write b (set_data b x t) = Inr (critical Log_lock ?u)"
      using log_write_eq [OF id(1), of b] g f(3) t(4) by (simp add: set_data_def holds_def)
    note c = calm_critical [OF id(2), of Log_lock]
    have cu: "bcache (critical Log_lock ?u) = bcache ?u" "disk (critical Log_lock ?u) = disk s" "log_st (critical Log_lock ?u) = added n (log_st s)"
        "disksize (critical Log_lock ?u) = disksize s"
      using calm_fields [OF c] t(3) f(2) by (simp_all add: set_data_def)
    have "cache_ok (p_pid (procs t p)) (bcache ?u) (disk t) {b}"
      using t(2) hb by (auto simp: bufs_def held_buf_def intro!: cache_ok_held)
    then have "bufs p {b} (critical Log_lock ?u)" by (intro bufs_calm [OF c]) (simp add: set_data_def)
    then have "wp (brelse b (critical Log_lock ?u)) (\<lambda>v. bio p (critical Log_lock ?u) v \<and> disk v = disk (critical Log_lock ?u) \<and> bufs p ({b} - {b}) v \<and>
        (\<forall>a. kept (bcache v a) (bcache (critical Log_lock ?u) a)))"
      by (rule brelse_ok) (simp_all add: cu)
    then show "wp (bindr (log_write b (set_data b x t)) (brelse b))
        (\<lambda>t. txn p start t \<and> disk t = disk s \<and> (\<forall>m. same_block (contents t m) (if m = n then x else contents s m)))"
      unfolding w bindr_simps
    proof (rule wp_mono)
      fix v assume v: "bio p (critical Log_lock ?u) v \<and> disk v = disk (critical Log_lock ?u) \<and> bufs p ({b} - {b}) v \<and>
        (\<forall>a. kept (bcache v a) (bcache (critical Log_lock ?u) a))"
      show "txn p start v \<and> disk v = disk s \<and> (\<forall>m. same_block (contents v m) (if m = n then x else contents s m))"
        using txn_added [OF tx gt n g(1), of v x] v bio_fields(2,3) [of p "critical Log_lock ?u" v] cu by simp
    qed
  qed
qed



end
