(* ===== verification/Interact.thy ===== *)
theory Interact
  imports Kernel_Types
begin

text \<open>
  Code that talks to its surroundings: device drivers to their ports, user programs to the
  kernel. A run is a function of the list of answers the surroundings give; it yields the
  requests made, in order, and how the run ended. A loop that polls a device or reads a file
  consumes an answer per iteration, so every such loop is a terminating function of that list,
  and a program that waits for an answer that never comes is \<open>Blocked\<close>.
\<close>

datatype ('r, 'a) outcome = Done 'a "'r list" | Blocked | Exited | Faulted c_error

type_synonym ('q, 'r, 'a) io = "'r list \<Rightarrow> 'q list \<times> ('r, 'a) outcome"

definition ret :: "'a \<Rightarrow> ('q, 'r, 'a) io" where
  "ret a rs = ([], Done a rs)"

definition tell :: "'q \<Rightarrow> ('q, 'r, unit) io" where
  "tell q rs = ([q], Done () rs)"

definition ask :: "'q \<Rightarrow> ('q, 'r, 'r) io" where
  "ask q rs = ([q], case rs of [] \<Rightarrow> Blocked | r # rs \<Rightarrow> Done r rs)"

definition quit :: "('q, 'r, 'a) io" where
  "quit rs = ([], Exited)"

definition fault :: "c_error \<Rightarrow> ('q, 'r, 'a) io" where
  "fault e rs = ([], Faulted e)"

definition bindi :: "('q, 'r, 'a) io \<Rightarrow> ('a \<Rightarrow> ('q, 'r, 'b) io) \<Rightarrow> ('q, 'r, 'b) io" where
  "bindi m f rs = (case m rs of
     (qs, Done a ss) \<Rightarrow> (case f a ss of (qs', r) \<Rightarrow> (qs @ qs', r))
   | (qs, Blocked) \<Rightarrow> (qs, Blocked)
   | (qs, Exited) \<Rightarrow> (qs, Exited)
   | (qs, Faulted e) \<Rightarrow> (qs, Faulted e))"

abbreviation thn :: "('q, 'r, unit) io \<Rightarrow> ('q, 'r, 'b) io \<Rightarrow> ('q, 'r, 'b) io" where
  "thn m k \<equiv> bindi m (\<lambda>_. k)"

text \<open>A step that may fail, from the error values of the rest of the model.\<close>

definition lift :: "'a result \<Rightarrow> ('q, 'r, 'a) io" where
  "lift x = (case x of Inl e \<Rightarrow> fault e | Inr a \<Rightarrow> ret a)"

primrec seqi :: "('q, 'r, unit) io list \<Rightarrow> ('q, 'r, unit) io" where
  "seqi [] = ret ()"
| "seqi (m # ms) = thn m (seqi ms)"

lemma bindi_cong [fundef_cong]:
  assumes "rs = rs'" and "m rs' = m' rs'" and "\<And>qs a ss. m' rs' = (qs, Done a ss) \<Longrightarrow> f a ss = g a ss"
  shows "bindi m f rs = bindi m' g rs'"
  using assms by (auto simp: bindi_def split: prod.split outcome.split)

lemma bindi_simps [simp]:
  "bindi (ret a) f = f a"
  "bindi (fault e) f' = fault e"
  "bindi quit f'' = quit"
  "bindi (tell q) g rs = (case g () rs of (qs, r) \<Rightarrow> (q # qs, r))"
  "bindi (ask q) h [] = ([q], Blocked)"
  "bindi (ask q) h (r # ss) = (case h r ss of (qs, x) \<Rightarrow> (q # qs, x))"
  by (simp_all add: bindi_def ret_def fault_def quit_def tell_def ask_def fun_eq_iff split: prod.split)

lemma bindi_ret [simp]: "bindi m ret = m"
  by (rule ext) (simp add: bindi_def ret_def split: prod.split outcome.split)

lemma bindi_assoc [simp]: "bindi (bindi m f) g = bindi m (\<lambda>a. bindi (f a) g)"
  by (rule ext) (simp add: bindi_def split: prod.split outcome.split)

lemma ret_simp [simp]: "ret a rs = ([], Done a rs)"
  by (simp add: ret_def)

lemma lift_simps [simp]: "lift (Inl e) = fault e" "lift (Inr a) = ret a"
  by (simp_all add: lift_def)

lemma ask_Done [simp]: "ask q rs = (qs, Done r ss) \<longleftrightarrow> qs = [q] \<and> rs = r # ss"
  by (auto simp: ask_def split: list.splits)

lemma tell_Done [simp]: "tell q rs = (qs, Done u ss) \<longleftrightarrow> qs = [q] \<and> ss = rs"
  by (auto simp: tell_def)

lemma fault_Done [simp]: "fault e rs \<noteq> (qs, Done a ss)" "quit rs \<noteq> (qs, Done a ss)"
  by (simp_all add: fault_def quit_def)

lemma bindi_Done:
  "bindi m f rs = (qs, Done b ts) \<longleftrightarrow> (\<exists>q1 a ss q2. m rs = (q1, Done a ss) \<and> f a ss = (q2, Done b ts) \<and> qs = q1 @ q2)"
  by (auto simp: bindi_def split: prod.splits outcome.splits)

lemma bindi_run: "m rs = (qs, Done a ss) \<Longrightarrow> bindi m f rs = (qs @ fst (f a ss), snd (f a ss))"
  by (simp add: bindi_def split: prod.split)

text \<open>Answers are used up from the front: what is left is a suffix of what there was.\<close>

definition suffixing :: "('q, 'r, 'a) io \<Rightarrow> bool" where
  "suffixing m \<longleftrightarrow> (\<forall>rs qs a ss. m rs = (qs, Done a ss) \<longrightarrow> (\<exists>us. rs = us @ ss))"

lemma suffixingD: "suffixing m \<Longrightarrow> m rs = (qs, Done a ss) \<Longrightarrow> length ss \<le> length rs"
  by (fastforce simp: suffixing_def)

lemma suffixing_ret [simp]: "suffixing (ret a)"
  by (simp add: suffixing_def)

lemma suffixing_tell [simp]: "suffixing (tell q)"
  by (simp add: suffixing_def)

lemma suffixing_ask [simp]: "suffixing (ask q)"
  by (simp add: suffixing_def)

lemma suffixing_fault [simp]: "suffixing (fault e)" "suffixing quit"
  by (simp_all add: suffixing_def)

lemma suffixing_lift [simp]: "suffixing (lift x)"
  by (cases x) simp_all

lemma suffixing_bindi [intro]: "suffixing m \<Longrightarrow> (\<And>a. suffixing (f a)) \<Longrightarrow> suffixing (bindi m f)"
  unfolding suffixing_def bindi_Done by (metis append.assoc)

lemma suffixing_seqi [intro]: "(\<And>m. m \<in> set ms \<Longrightarrow> suffixing m) \<Longrightarrow> suffixing (seqi ms)"
  by (induction ms) auto

end
