(* ===== verification/Devices.thy ===== *)
theory Devices
  imports Interact Console
begin

text \<open>
  Device drivers as conversations with the hardware: the keyboard (\<^verbatim>\<open>kbd.c\<close>, \<^verbatim>\<open>kbd.h\<close>), the serial port
  (\<^verbatim>\<open>uart.c\<close>), the interrupt controllers (\<^verbatim>\<open>picirq.c\<close>, \<^verbatim>\<open>ioapic.c\<close>, \<^verbatim>\<open>lapic.c\<close>) and the real-time clock
  (\<^verbatim>\<open>cmostime\<close> of \<^verbatim>\<open>lapic.c\<close>). An access to a port or to a device register is a request; what a
  read returns is the next answer.
\<close>

unbundle bit_operations_syntax

datatype port_access = Outb nat uchar | Inb nat | Out32 nat uint | In32 nat | Store uint uint | Load uint

type_synonym 'a driver = "(port_access, uint, 'a) io"

definition outb :: "nat \<Rightarrow> uchar \<Rightarrow> unit driver" where
  "outb port data = tell (Outb port data)"

definition inb :: "nat \<Rightarrow> uchar driver" where
  "inb port = bindi (ask (Inb port)) (\<lambda>w. ret (ucast w))"

text \<open>\<^verbatim>\<open>rep insl\<close> and \<^verbatim>\<open>rep outsl\<close>: \<open>cnt\<close> transfers of one word each.\<close>

primrec insl :: "nat \<Rightarrow> nat \<Rightarrow> uint list driver" where
  "insl port 0 = ret []"
| "insl port (Suc cnt) = bindi (ask (In32 port)) (\<lambda>w. bindi (insl port cnt) (\<lambda>ws. ret (w # ws)))"

definition outsl :: "nat \<Rightarrow> uint list \<Rightarrow> unit driver" where
  "outsl port ws = seqi (map (\<lambda>w. tell (Out32 port w)) ws)"

section \<open>Keyboard\<close>

definition KBSTATP :: nat where [simp]: "KBSTATP = 0x64"
definition KBDATAP :: nat where [simp]: "KBDATAP = 0x60"
definition KBS_DIB :: uchar where [simp]: "KBS_DIB = 1"
definition SHIFT :: uint where [simp]: "SHIFT = 1"
definition CTL :: uint where [simp]: "CTL = 2"
definition ALT :: uint where [simp]: "ALT = 4"
definition CAPSLOCK :: uint where [simp]: "CAPSLOCK = 8"
definition NUMLOCK :: uint where [simp]: "NUMLOCK = 16"
definition SCROLLLOCK :: uint where [simp]: "SCROLLLOCK = 32"
definition E0ESC :: uint where [simp]: "E0ESC = 64"

definition shiftcode :: "uint \<Rightarrow> uint" where
  "shiftcode d = (if d = 0x1D \<or> d = 0x9D then CTL else if d = 0x2A \<or> d = 0x36 then SHIFT
     else if d = 0x38 \<or> d = 0xB8 then ALT else 0)"

definition togglecode :: "uint \<Rightarrow> uint" where
  "togglecode d = (if d = 0x3A then CAPSLOCK else if d = 0x45 then NUMLOCK else if d = 0x46 then SCROLLLOCK else 0)"

text \<open>The entries above \<open>0x58\<close>, the same in all maps but for Enter and the slash of the key pad.\<close>

definition keypad :: "nat \<Rightarrow> nat \<Rightarrow> nat \<Rightarrow> nat" where
  "keypad enter slash d =
     (if d = 0x9C then enter else if d = 0xB5 then slash
      else if d = 0xC8 then 0xE2 else if d = 0xD0 then 0xE3 else if d = 0xC9 then 0xE6 else if d = 0xD1 then 0xE7
      else if d = 0xCB then 0xE4 else if d = 0xCD then 0xE5 else if d = 0x97 then 0xE0 else if d = 0xCF then 0xE1
      else if d = 0xD2 then 0xE8 else if d = 0xD3 then 0xE9 else 0)"

definition chars :: "string \<Rightarrow> nat list" where
  "chars = map of_char"

definition normalkeys :: "nat list" where
  "normalkeys =
     [0, 0x1B] @ chars ''1234567890-='' @ [8, 9] @ chars ''qwertyuiop[]'' @ [10, 0] @ chars ''asdfghjkl;'' @
     [0x27, 0x60, 0, 0x5C] @ chars ''zxcvbnm,./'' @ [0] @ chars ''*'' @ [0] @ chars '' '' @ replicate 13 0 @
     chars ''789-456+1230.'' @ [0, 0, 0, 0]"

definition shiftkeys :: "nat list" where
  "shiftkeys =
     [0, 0x1B] @ chars ''!@#$%^&*()_+'' @ [8, 9] @ chars ''QWERTYUIOP{}'' @ [10, 0] @ chars ''ASDFGHJKL:'' @
     [0x22, 0x7E, 0, 0x7C] @ chars ''ZXCVBNM<>?'' @ [0] @ chars ''*'' @ [0] @ chars '' '' @ replicate 13 0 @
     chars ''789-456+1230.'' @ [0, 0, 0, 0]"

text \<open>\<^verbatim>\<open>C(x)\<close>; of a character below \<open>@\<close> it is negative and becomes a byte.\<close>

definition C_key :: "nat \<Rightarrow> nat" where
  "C_key x = nat ((int x - 64) mod 256)"

definition ctlkeys :: "nat list" where
  "ctlkeys =
     replicate 16 0 @ map C_key (chars ''QWERTYUIOP'') @ [0, 0, 13, 0] @ map C_key (chars ''ASDFGHJKL'') @ [0, 0, 0, 0, C_key 0x5C] @
     map C_key (chars ''ZXCVBNM'') @ [0, 0, C_key 0x2F, 0, 0]"

definition keymap :: "nat list \<Rightarrow> nat \<Rightarrow> nat \<Rightarrow> nat \<Rightarrow> nat" where
  "keymap ks enter slash d = (if d < length ks then ks ! d else keypad enter slash d)"

definition normalmap :: "nat \<Rightarrow> nat" where
  "normalmap = keymap normalkeys 10 0x2F"

definition shiftmap :: "nat \<Rightarrow> nat" where
  "shiftmap = keymap shiftkeys 10 0x2F"

definition ctlmap :: "nat \<Rightarrow> nat" where
  "ctlmap = keymap ctlkeys 13 (C_key 0x2F)"

definition charcode :: "uint \<Rightarrow> nat \<Rightarrow> nat" where
  "charcode i = (if i = 0 then normalmap else if i = 1 then shiftmap else ctlmap)"

text \<open>\<^verbatim>\<open>kbdgetc\<close> with the static variable \<^verbatim>\<open>shift\<close> as argument and result.\<close>

definition kbd_press :: "uint \<Rightarrow> uint \<Rightarrow> int \<times> uint" where
  "kbd_press data shift =
     (let shift = shift OR shiftcode data;
          shift = xor shift (togglecode data);
          c = int (charcode (shift AND (CTL OR SHIFT)) (unat data));
          c = (if shift AND CAPSLOCK \<noteq> 0 then
                 if 97 \<le> c \<and> c \<le> 122 then c - 32 else if 65 \<le> c \<and> c \<le> 90 then c + 32 else c
               else c)
      in (c, shift))"

definition kbd_data :: "uint \<Rightarrow> uint \<Rightarrow> int \<times> uint" where
  "kbd_data data shift =
     (if data = 0xE0 then (0, shift OR E0ESC)
      else if data AND 0x80 \<noteq> 0 then
        let data = (if shift AND E0ESC \<noteq> 0 then data else data AND 0x7F)
        in (0, shift AND NOT (shiftcode data OR E0ESC))
      else if shift AND E0ESC \<noteq> 0 then kbd_press (data OR 0x80) (shift AND NOT E0ESC)
      else kbd_press data shift)"

definition kbdgetc :: "uint \<Rightarrow> (int \<times> uint) driver" where
  "kbdgetc shift =
     bindi (inb KBSTATP) (\<lambda>st.
     if st AND KBS_DIB = 0 then ret (-1, shift)
     else bindi (inb KBDATAP) (\<lambda>data. ret (kbd_data (ucast data) shift)))"

lemma kbdgetc_less: "kbdgetc shift rs = (qs, Done c ss) \<Longrightarrow> length ss < length rs"
  by (auto simp: kbdgetc_def inb_def bindi_Done split: if_splits)

text \<open>
  The characters that \<^verbatim>\<open>consoleintr\<close> gets out of \<^verbatim>\<open>kbdgetc\<close> or \<^verbatim>\<open>uartgetc\<close> before the first negative
  one; \<open>kbdintr\<close> hands them to it.
\<close>

function kbd_drain :: "int list \<Rightarrow> uint \<Rightarrow> (int list \<times> uint) driver" where
  "kbd_drain cs shift rs = bindi (kbdgetc shift) (\<lambda>c rs.
     if fst c < 0 then ret (cs, snd c) rs else kbd_drain (cs @ [fst c]) (snd c) rs) rs"
  by pat_completeness auto
termination
  by (relation "measure (\<lambda>(_, _, rs). length rs)") (auto dest: kbdgetc_less)

definition kbdintr :: "uint \<Rightarrow> (kernel \<Rightarrow> kernel result) \<Rightarrow> kernel \<Rightarrow> (uint \<times> kernel) driver" where
  "kbdintr shift procdump s =
     bindi (kbd_drain [] shift) (\<lambda>(cs, shift).
     bindi (lift (consoleintr cs procdump s)) (\<lambda>s. ret (shift, s)))"

section \<open>I/O APIC and PIC\<close>

definition T_IRQ0 :: uint where [simp]: "T_IRQ0 = 32"
definition IOAPIC :: uint where [simp]: "IOAPIC = 0xFEC00000"
definition REG_ID :: uint where [simp]: "REG_ID = 0"
definition REG_VER :: uint where [simp]: "REG_VER = 1"
definition REG_TABLE :: uint where [simp]: "REG_TABLE = 0x10"
definition INT_DISABLED :: uint where [simp]: "INT_DISABLED = 0x10000"

definition picinit :: "unit driver" where
  "picinit = thn (outb 0x21 0xFF) (outb 0xA1 0xFF)"

text \<open>\<^verbatim>\<open>struct ioapic\<close>: the register number at offset 0, its data at offset 16.\<close>

definition ioapicread :: "uint \<Rightarrow> uint driver" where
  "ioapicread reg = thn (tell (Store IOAPIC reg)) (ask (Load (IOAPIC + 16)))"

definition ioapicwrite :: "uint \<Rightarrow> uint \<Rightarrow> unit driver" where
  "ioapicwrite reg data = thn (tell (Store IOAPIC reg)) (tell (Store (IOAPIC + 16) data))"

text \<open>The result says whether the warning about the APIC identifier is printed.\<close>

definition ioapicinit :: "uchar \<Rightarrow> bool driver" where
  "ioapicinit ioapicid =
     bindi (ioapicread REG_VER) (\<lambda>v.
     let maxintr = drop_bit 16 v AND 0xFF in
     bindi (ioapicread REG_ID) (\<lambda>i.
     let id = drop_bit 24 i in
     thn (seqi (map (\<lambda>i. thn (ioapicwrite (REG_TABLE + 2 * of_nat i) (INT_DISABLED OR (T_IRQ0 + of_nat i)))
                            (ioapicwrite (REG_TABLE + 2 * of_nat i + 1) 0)) [0..<unat maxintr + 1]))
       (ret (id \<noteq> ucast ioapicid))))"

definition ioapicenable :: "uint \<Rightarrow> uint \<Rightarrow> unit driver" where
  "ioapicenable irq cpunum =
     thn (ioapicwrite (REG_TABLE + 2 * irq) (T_IRQ0 + irq))
       (ioapicwrite (REG_TABLE + 2 * irq + 1) (push_bit 24 cpunum))"

section \<open>Serial port\<close>

definition COM1 :: nat where [simp]: "COM1 = 0x3f8"

text \<open>\<^verbatim>\<open>uartputc\<close>: at most 128 polls of the line status, then the byte is sent.\<close>

primrec uart_poll :: "nat \<Rightarrow> unit driver" where
  "uart_poll 0 = ret ()"
| "uart_poll (Suc k) = bindi (inb (COM1 + 5)) (\<lambda>st. if st AND 0x20 \<noteq> 0 then ret () else uart_poll k)"

definition uart_putc :: "bool \<Rightarrow> uchar \<Rightarrow> unit driver" where
  "uart_putc uart c = (if \<not> uart then ret () else thn (uart_poll 128) (outb COM1 c))"

definition uartgetc :: "bool \<Rightarrow> int driver" where
  "uartgetc uart =
     (if \<not> uart then ret (-1)
      else bindi (inb (COM1 + 5)) (\<lambda>st.
        if st AND 1 = 0 then ret (-1) else bindi (inb COM1) (\<lambda>c. ret (uint c))))"

definition uartinit :: "bool driver" where
  "uartinit =
     thn (seqi [outb (COM1 + 2) 0, outb (COM1 + 3) 0x80, outb COM1 12, outb (COM1 + 1) 0, outb (COM1 + 3) 3,
                outb (COM1 + 4) 0, outb (COM1 + 1) 1])
     (bindi (inb (COM1 + 5)) (\<lambda>st.
      if st = 0xFF then ret False
      else bindi (inb (COM1 + 2)) (\<lambda>_. bindi (inb COM1) (\<lambda>_.
        thn (ioapicenable 4 0)
        (thn (seqi (map (\<lambda>c. uart_putc True (of_char c)) (''xv6...'' @ [CHR 0x0A]))) (ret True))))))"

lemma uartgetc_less: "uart \<Longrightarrow> uartgetc uart rs = (qs, Done c ss) \<Longrightarrow> length ss < length rs"
  by (auto simp: uartgetc_def inb_def bindi_Done split: if_splits)

function uart_drain :: "int list \<Rightarrow> bool \<Rightarrow> int list driver" where
  "uart_drain cs uart rs = bindi (uartgetc uart) (\<lambda>c rs.
     if c < 0 then ret cs rs else uart_drain (cs @ [c]) uart rs) rs"
  by pat_completeness auto
termination
proof (relation "measure (\<lambda>(_, _, rs). length rs)")
  fix cs uart rs qs c ss
  assume "uartgetc uart rs = (qs, Done c ss)" "\<not> c < 0"
  then show "((cs @ [c], uart, ss), cs, uart, rs) \<in> measure (\<lambda>(_, _, rs). length rs)"
    using uartgetc_less [of uart rs qs c ss] by (cases uart) (auto simp: uartgetc_def)
qed simp

definition uartintr :: "bool \<Rightarrow> (kernel \<Rightarrow> kernel result) \<Rightarrow> kernel \<Rightarrow> kernel driver" where
  "uartintr uart procdump s = bindi (uart_drain [] uart) (\<lambda>cs. lift (consoleintr cs procdump s))"

section \<open>Local APIC\<close>

text \<open>The registers are words at multiples of 4 from \<^verbatim>\<open>lapic\<close>; indices are those of the C array.\<close>

definition lapicw :: "uint \<Rightarrow> uint \<Rightarrow> uint \<Rightarrow> unit driver" where
  "lapicw lapic index val =
     thn (tell (Store (lapic + 4 * index) val)) (bindi (ask (Load (lapic + 4 * 8))) (\<lambda>_. ret ()))"

function lapic_idle :: "uint \<Rightarrow> unit driver" where
  "lapic_idle lapic rs = bindi (ask (Load (lapic + 4 * 0xC0))) (\<lambda>w rs.
     if w AND 0x1000 \<noteq> 0 then lapic_idle lapic rs else ret () rs) rs"
  by pat_completeness auto
termination
  by (relation "measure (\<lambda>(_, rs). length rs)") auto

definition lapicinit :: "uint \<Rightarrow> unit driver" where
  "lapicinit lapic =
     (if lapic = 0 then ret ()
      else
        thn (seqi [lapicw lapic 0x3C (0x100 OR (T_IRQ0 + 31)),
                   lapicw lapic 0xF8 0xB,
                   lapicw lapic 0xC8 (0x20000 OR (T_IRQ0 + 0)),
                   lapicw lapic 0xE0 10000000,
                   lapicw lapic 0xD4 0x10000,
                   lapicw lapic 0xD8 0x10000])
        (bindi (ask (Load (lapic + 4 * 0xC))) (\<lambda>v.
         thn (if drop_bit 16 v AND 0xFF \<ge> 4 then lapicw lapic 0xD0 0x10000 else ret ())
         (thn (seqi [lapicw lapic 0xDC (T_IRQ0 + 19),
                     lapicw lapic 0xA0 0, lapicw lapic 0xA0 0,
                     lapicw lapic 0x2C 0,
                     lapicw lapic 0xC4 0,
                     lapicw lapic 0xC0 (0x80000 OR 0x500 OR 0x8000)])
          (thn (lapic_idle lapic) (lapicw lapic 0x20 0))))))"

definition lapiceoi :: "uint \<Rightarrow> unit driver" where
  "lapiceoi lapic = (if lapic \<noteq> 0 then lapicw lapic 0x2C 0 else ret ())"

definition lapic_id :: "uint \<Rightarrow> uint driver" where
  "lapic_id lapic = (if lapic = 0 then ret 0 else bindi (ask (Load (lapic + 4 * 8))) (\<lambda>w. ret (drop_bit 24 w)))"

text \<open>\<^verbatim>\<open>lapicstartap\<close> stores the warm reset vector at \<^verbatim>\<open>0x467\<close> with two 16-bit writes; here each is a request.\<close>

definition lapicstartap :: "uint \<Rightarrow> uchar \<Rightarrow> uint \<Rightarrow> unit driver" where
  "lapicstartap lapic apicid addr =
     thn (seqi [outb 0x70 0xF, outb 0x71 0x0A,
                tell (Store (KERNBASE + 0x467) 0), tell (Store (KERNBASE + 0x469) (drop_bit 4 addr AND 0xFFFF)),
                lapicw lapic 0xC4 (push_bit 24 (ucast apicid)),
                lapicw lapic 0xC0 (0x500 OR 0x8000 OR 0x4000),
                lapicw lapic 0xC0 (0x500 OR 0x8000)])
       (seqi (replicate 2 (thn (lapicw lapic 0xC4 (push_bit 24 (ucast apicid)))
                             (lapicw lapic 0xC0 (0x600 OR drop_bit 12 addr)))))"

section \<open>Real-time clock\<close>

record rtcdate =
  rtc_second :: uint
  rtc_minute :: uint
  rtc_hour :: uint
  rtc_day :: uint
  rtc_month :: uint
  rtc_year :: uint

definition cmos_read :: "uchar \<Rightarrow> uint driver" where
  "cmos_read reg = thn (outb 0x70 reg) (bindi (inb 0x71) (\<lambda>b. ret (ucast b)))"

definition fill_rtcdate :: "rtcdate driver" where
  "fill_rtcdate =
     bindi (cmos_read 0) (\<lambda>s. bindi (cmos_read 2) (\<lambda>mi. bindi (cmos_read 4) (\<lambda>h.
     bindi (cmos_read 7) (\<lambda>d. bindi (cmos_read 8) (\<lambda>mo. bindi (cmos_read 9) (\<lambda>y.
     ret \<lparr>rtc_second = s, rtc_minute = mi, rtc_hour = h, rtc_day = d, rtc_month = mo, rtc_year = y\<rparr>))))))"

lemma cmos_read_less: "cmos_read r rs = (qs, Done v ss) \<Longrightarrow> length ss < length rs"
  by (cases rs) (auto simp: cmos_read_def outb_def inb_def)

lemma fill_less: "fill_rtcdate rs = (qs, Done t ss) \<Longrightarrow> length ss < length rs"
  unfolding fill_rtcdate_def bindi_Done by (fastforce dest: cmos_read_less)

function cmos_settle :: "rtcdate driver" where
  "cmos_settle rs = bindi fill_rtcdate (\<lambda>t1.
     bindi (cmos_read 0xA) (\<lambda>a rs.
     if a AND 0x80 \<noteq> 0 then cmos_settle rs
     else bindi fill_rtcdate (\<lambda>t2 rs. if t1 = t2 then ret t1 rs else cmos_settle rs) rs)) rs"
  by pat_completeness auto
termination
  by (relation "measure length") (auto dest!: fill_less cmos_read_less)

declare kbd_drain.simps [simp del] uart_drain.simps [simp del] lapic_idle.simps [simp del] cmos_settle.simps [simp del]

definition unbcd :: "uint \<Rightarrow> uint" where
  "unbcd x = drop_bit 4 x * 10 + (x AND 0xf)"

definition cmostime :: "rtcdate driver" where
  "cmostime =
     bindi (cmos_read 0xB) (\<lambda>sb.
     bindi cmos_settle (\<lambda>t.
     let t = (if sb AND 4 = 0 then
                \<lparr>rtc_second = unbcd (rtc_second t), rtc_minute = unbcd (rtc_minute t), rtc_hour = unbcd (rtc_hour t),
                 rtc_day = unbcd (rtc_day t), rtc_month = unbcd (rtc_month t), rtc_year = unbcd (rtc_year t)\<rparr> else t)
     in ret (t\<lparr>rtc_year := rtc_year t + 2000\<rparr>)))"

section \<open>Properties of the drivers\<close>

lemma chars_byte: "k \<in> set (chars cs) \<Longrightarrow> k < 256"
  by (auto simp: chars_def)

lemma keys_bytes: "\<forall>k \<in> set normalkeys. k < 256" "\<forall>k \<in> set shiftkeys. k < 256" "\<forall>k \<in> set ctlkeys. k < 256"
proof -
  have c: "C_key x < 256" for x by (simp add: C_key_def nat_less_iff)
  show "\<forall>k \<in> set normalkeys. k < 256" "\<forall>k \<in> set shiftkeys. k < 256"
    by (auto simp: normalkeys_def shiftkeys_def dest: chars_byte)
  show "\<forall>k \<in> set ctlkeys. k < 256" using c by (auto simp: ctlkeys_def)
qed

lemma keymap_byte:
  assumes "\<forall>k \<in> set ks. k < 256" and "enter < 256" and "slash < 256"
  shows "keymap ks enter slash d < 256"
  using assms by (simp add: keymap_def keypad_def)

lemma charcode_byte: "charcode i d < 256"
  using keymap_byte [OF keys_bytes(1)] keymap_byte [OF keys_bytes(2)] keymap_byte [OF keys_bytes(3)]
  by (simp add: charcode_def normalmap_def shiftmap_def ctlmap_def C_key_def)

text \<open>The modifiers are the seven bits of \<^verbatim>\<open>kbd.h\<close>.\<close>

lemma modifiers_mask: "shift < 128 \<longleftrightarrow> shift AND 0x7F = (shift :: uint)"
proof -
  have "shift AND 0x7F = take_bit 7 shift" by (simp add: take_bit_eq_mask mask_eq_exp_minus_1)
  then show ?thesis by (simp add: word_unat_eq_iff unsigned_take_bit_eq take_bit_nat_eq_self_iff word_less_nat_alt)
qed

lemma modifiers_closed:
  assumes "x < (128 :: uint)" and "y < 128"
  shows "x OR y < 128" "xor x y < 128" "x AND z < 128"
proof -
  have m: "x AND 0x7F = x" "y AND 0x7F = y" using assms by (simp_all only: modifiers_mask)
  have "(x OR y) AND 0x7F = x OR y" using m by (simp add: bit.conj_disj_distrib2)
  then show "x OR y < 128" by (simp only: modifiers_mask)
  have "xor x y AND 0x7F = xor x y" using m by (simp add: bit.conj_xor_distrib2)
  then show "xor x y < 128" by (simp only: modifiers_mask)
  have "(x AND z) AND 0x7F = x AND z" using m by (metis and.assoc and.commute)
  then show "x AND z < 128" by (simp only: modifiers_mask)
qed

lemma codes_small: "shiftcode d < 128" "togglecode d < 128"
  by (simp_all add: shiftcode_def togglecode_def)

lemma kbd_press_ok:
  assumes "shift < 128"
  shows "snd (kbd_press data shift) < 128" "0 \<le> fst (kbd_press data shift)" "fst (kbd_press data shift) < 256"
proof -
  have "int (charcode i (unat data)) < 256" for i using charcode_byte [of i "unat data"] by simp
  then show "0 \<le> fst (kbd_press data shift)" "fst (kbd_press data shift) < 256" by (simp_all add: kbd_press_def Let_def)
  show "snd (kbd_press data shift) < 128"
    using modifiers_closed(2) [OF modifiers_closed(1) [OF assms codes_small(1)] codes_small(2)] by (simp add: kbd_press_def Let_def)
qed

lemma kbd_data_ok:
  assumes "shift < 128"
  shows "snd (kbd_data data shift) < 128 \<and> 0 \<le> fst (kbd_data data shift) \<and> fst (kbd_data data shift) < 256"
  using assms kbd_press_ok [of shift data] kbd_press_ok [of "shift AND NOT 64" "data OR 0x80"] modifiers_closed(3) [OF assms assms]
    modifiers_closed(1) [OF assms, of 64]
  by (simp add: kbd_data_def Let_def)



lemma cmos_settle_stable:
  assumes "cmos_settle rs = (qs, Done t ss)"
  shows "\<exists>r1 q1 r2 a q2 r3 q3. fill_rtcdate r1 = (q1, Done t r2) \<and> cmos_read 0xA r2 = (q2, Done a r3) \<and> a AND 0x80 = 0 \<and>
    fill_rtcdate r3 = (q3, Done t ss)"
  using assms
proof (induction rs arbitrary: qs rule: cmos_settle.induct)
  case (1 rs)
  obtain q1 t1 r2 q2 a r3 qs2 where f: "fill_rtcdate rs = (q1, Done t1 r2)" "cmos_read 0xA r2 = (q2, Done a r3)"
      and k: "(if a AND 0x80 \<noteq> 0 then cmos_settle r3
        else bindi fill_rtcdate (\<lambda>t2 rs. if t1 = t2 then ret t1 rs else cmos_settle rs) r3) = (qs2, Done t ss)"
    using "1.prems" by (subst (asm) cmos_settle.simps) (auto simp: bindi_Done)
  show ?case
  proof (cases "a AND 0x80 \<noteq> 0")
    case True
    then show ?thesis using "1.IH"(1) [OF f] k by auto
  next
    case False
    then obtain q3 t2 r4 q4 where g: "fill_rtcdate r3 = (q3, Done t2 r4)" "(if t1 = t2 then ret t1 r4 else cmos_settle r4) = (q4, Done t ss)"
      using k by (auto simp: bindi_Done)
    show ?thesis
    proof (cases "t1 = t2")
      case True
      then have "fill_rtcdate rs = (q1, Done t r2)" "fill_rtcdate r3 = (q3, Done t ss)" "a AND 0x80 = 0" using f g False by auto
      then show ?thesis using f(2) by blast
    next
      case ne: False
      then show ?thesis using "1.IH"(2) [OF f _ g(1)] g(2) False by auto
    qed
  qed
qed

text \<open>The binary value of two decimal digits packed into a byte.\<close>

lemma unbcd_digits:
  assumes "hi < 10" and "lo < 10"
  shows "unbcd (of_nat (16 * hi + lo)) = of_nat (10 * hi + lo)"
proof -
  have "hi \<in> set [0..<10]" "lo \<in> set [0..<10]" using assms by simp_all
  moreover have "\<forall>h \<in> set [0..<10]. \<forall>l \<in> set [0..<10]. unbcd (of_nat (16 * h + l)) = of_nat (10 * h + l)"
    by (simp add: unbcd_def upt_conv_Cons)
  ultimately show ?thesis by blast
qed

end
