(* ===== verification/Mp.thy ===== *)
theory Mp
  imports Devices Mmu
begin

text \<open>
  Multiprocessor discovery (\<^verbatim>\<open>mp.c\<close>, \<^verbatim>\<open>mp.h\<close>): the search for the floating pointer structure, the
  check of the configuration table, and the loop of \<^verbatim>\<open>mpinit\<close> over its entries. The tables are
  bytes of the memory, written by the firmware. The loop is a partial function: on a table with
  an entry of an unknown type it does not return.
\<close>

unbundle bit_operations_syntax

definition sum_bytes :: "memory \<Rightarrow> uint \<Rightarrow> nat \<Rightarrow> uchar" where
  "sum_bytes m addr len = word_of_int (foldl (\<lambda>s i. s + uint (m (addr + of_nat i))) 0 [0..<len])"

definition signed_as :: "memory \<Rightarrow> uint \<Rightarrow> string \<Rightarrow> bool" where
  "signed_as m p sig \<longleftrightarrow> map (\<lambda>i. m (p + of_nat i)) [0..<length sig] = map of_char sig"

definition load16 :: "memory \<Rightarrow> uint \<Rightarrow> uint" where
  "load16 m a = ucast (m a) OR push_bit 8 (ucast (m (a + 1)))"

text \<open>\<^verbatim>\<open>struct mp\<close> has 16 bytes.\<close>

definition mpsearch1 :: "memory \<Rightarrow> uint \<Rightarrow> nat \<Rightarrow> uint option" where
  "mpsearch1 m a len =
     find (\<lambda>p. signed_as m p ''_MP_'' \<and> sum_bytes m p 16 = 0) (map (\<lambda>i. P2V a + 16 * of_nat i) [0..<(len + 15) div 16])"

definition mpsearch :: "memory \<Rightarrow> uint option" where
  "mpsearch m =
     (let bda = P2V 0x400;
          p = push_bit 4 (push_bit 8 (ucast (m (bda + 0x0F))) OR ucast (m (bda + 0x0E))) in
      case (if p \<noteq> 0 then mpsearch1 m p 1024
            else let p = (push_bit 8 (ucast (m (bda + 0x14))) OR ucast (m (bda + 0x13))) * 1024
                 in mpsearch1 m (p - 1024) 1024) of
        Some mp \<Rightarrow> Some mp
      | None \<Rightarrow> mpsearch1 m 0xF0000 0x10000)"

text \<open>The fields of \<^verbatim>\<open>struct mp\<close> and \<^verbatim>\<open>struct mpconf\<close> that are read.\<close>

definition mp_physaddr :: "memory \<Rightarrow> uint \<Rightarrow> uint" where "mp_physaddr m mp = load32 m (mp + 4)"
definition mp_imcrp :: "memory \<Rightarrow> uint \<Rightarrow> uchar" where "mp_imcrp m mp = m (mp + 12)"
definition conf_length :: "memory \<Rightarrow> uint \<Rightarrow> uint" where "conf_length m conf = load16 m (conf + 4)"
definition conf_version :: "memory \<Rightarrow> uint \<Rightarrow> uchar" where "conf_version m conf = m (conf + 6)"
definition conf_lapicaddr :: "memory \<Rightarrow> uint \<Rightarrow> uint" where "conf_lapicaddr m conf = load32 m (conf + 36)"

definition mpconfig :: "memory \<Rightarrow> (uint \<times> uint) option" where
  "mpconfig m = (case mpsearch m of
     None \<Rightarrow> None
   | Some mp \<Rightarrow>
       if mp_physaddr m mp = 0 then None
       else let conf = P2V (mp_physaddr m mp) in
         if \<not> signed_as m conf ''PCMP'' then None
         else if conf_version m conf \<noteq> 1 \<and> conf_version m conf \<noteq> 4 then None
         else if sum_bytes m conf (unat (conf_length m conf)) \<noteq> 0 then None
         else Some (mp, conf))"

text \<open>
  The loop of \<^verbatim>\<open>mpinit\<close>. The variables it changes are \<^verbatim>\<open>p\<close>, \<^verbatim>\<open>ismp\<close>, \<^verbatim>\<open>ioapicid\<close>, \<^verbatim>\<open>ncpu\<close> and \<^verbatim>\<open>cpus\<close>. In the
  default case \<^verbatim>\<open>break\<close> leaves the \<^verbatim>\<open>switch\<close>, not the loop, and \<^verbatim>\<open>p\<close> stays what it was.
\<close>

definition add_cpu :: "uchar \<Rightarrow> kernel \<Rightarrow> kernel" where
  "add_cpu apic s = (if ncpu s < NCPU then s\<lparr>cpus := (cpus s)(ncpu s := (cpus s (ncpu s))\<lparr>c_apicid := apic\<rparr>), ncpu := ncpu s + 1\<rparr> else s)"

partial_function (option) mpinit_loop :: "memory \<Rightarrow> uint \<Rightarrow> uint \<Rightarrow> bool \<Rightarrow> uchar \<Rightarrow> kernel \<Rightarrow> (bool \<times> uchar \<times> kernel) option" where
  "mpinit_loop m p e ismp ioapicid s =
     (if p < e then
        if m p = 0 then mpinit_loop m (p + 20) e ismp ioapicid (add_cpu (m (p + 1)) s)
        else if m p = 2 then mpinit_loop m (p + 8) e ismp (m (p + 1)) s
        else if m p = 1 \<or> m p = 3 \<or> m p = 4 then mpinit_loop m (p + 8) e ismp ioapicid s
        else mpinit_loop m p e False ioapicid s
      else Some (ismp, ioapicid, s))"

definition mpinit :: "kernel \<Rightarrow> (uint \<times> uint \<times> uchar \<times> kernel) result option" where
  "mpinit s = (case mpconfig (mem s) of
     None \<Rightarrow> Some (Inl (Panic ''Expect to run on an SMP''))
   | Some (mp, conf) \<Rightarrow>
       map_option (\<lambda>(ismp, ioapicid, s).
           if \<not> ismp then Inl (Panic ''Didn't find a suitable machine'')
           else Inr (mp, conf_lapicaddr (mem s) conf, ioapicid, s))
         (mpinit_loop (mem s) (conf + 44) (conf + conf_length (mem s) conf) True 0 s))"

definition mpinit_imcr :: "memory \<Rightarrow> uint \<Rightarrow> unit driver" where
  "mpinit_imcr m mp =
     (if mp_imcrp m mp \<noteq> 0 then
        thn (outb 0x22 0x70) (bindi (inb 0x23) (\<lambda>b. outb 0x23 (b OR 1)))
      else ret ())"

section \<open>What the loop finds\<close>

text \<open>A table: its entries in order, with the APIC identifiers of the processors and of the I/O APIC.\<close>

datatype mp_entry = Mp_proc uchar | Mp_ioapic uchar | Mp_other

inductive table :: "memory \<Rightarrow> uint \<Rightarrow> uint \<Rightarrow> mp_entry list \<Rightarrow> bool" for m e where
  ended: "\<not> p < e \<Longrightarrow> table m e p []"
| proc: "p < e \<Longrightarrow> m p = 0 \<Longrightarrow> table m e (p + 20) es \<Longrightarrow> table m e p (Mp_proc (m (p + 1)) # es)"
| ioapic: "p < e \<Longrightarrow> m p = 2 \<Longrightarrow> table m e (p + 8) es \<Longrightarrow> table m e p (Mp_ioapic (m (p + 1)) # es)"
| other: "p < e \<Longrightarrow> m p = 1 \<or> m p = 3 \<or> m p = 4 \<Longrightarrow> table m e (p + 8) es \<Longrightarrow> table m e p (Mp_other # es)"

primrec add_entry :: "mp_entry \<Rightarrow> uchar \<times> kernel \<Rightarrow> uchar \<times> kernel" where
  "add_entry (Mp_proc i) x = (fst x, add_cpu i (snd x))"
| "add_entry (Mp_ioapic i) x = (i, snd x)"
| "add_entry Mp_other x = x"

lemma mpinit_loop_table:
  assumes "table m e p es"
  shows "mpinit_loop m p e ismp ioapicid s =
    Some (ismp, fst (fold add_entry es (ioapicid, s)), snd (fold add_entry es (ioapicid, s)))"
  using assms
proof (induction arbitrary: ioapicid s)
  case (ended p)
  then show ?case by (simp add: mpinit_loop.simps)
next
  case (proc p es)
  then show ?case by (subst mpinit_loop.simps) simp
next
  case (ioapic p es)
  then show ?case by (subst mpinit_loop.simps) simp
next
  case (other p es)
  then show ?case by (subst mpinit_loop.simps) auto
qed

lemma mpinit_loop_returns:
  assumes "mpinit_loop m p e ismp ioapicid s = Some r"
  shows "\<exists>es. table m e p es"
proof (rule mpinit_loop.raw_induct [where P = "\<lambda>m p e _ _ _ _. \<exists>es. table m e p es", OF _ assms])
  fix f :: "memory \<Rightarrow> uint \<Rightarrow> uint \<Rightarrow> bool \<Rightarrow> uchar \<Rightarrow> kernel \<Rightarrow> (bool \<times> uchar \<times> kernel) option"
    and m :: memory and p e ismp ioapicid s r
  assume IH: "\<And>m p e ismp ioapicid s r. f m p e ismp ioapicid s = Some r \<Longrightarrow> \<exists>es. table m e p es"
    and r: "(if p < e then
        if m p = 0 then f m (p + 20) e ismp ioapicid (add_cpu (m (p + 1)) s)
        else if m p = 2 then f m (p + 8) e ismp (m (p + 1)) s
        else if m p = 1 \<or> m p = 3 \<or> m p = 4 then f m (p + 8) e ismp ioapicid s
        else f m p e False ioapicid s
      else Some (ismp, ioapicid, s)) = Some r"
  show "\<exists>es. table m e p es"
  proof (cases "p < e")
    case True
    then consider "m p = 0" "f m (p + 20) e ismp ioapicid (add_cpu (m (p + 1)) s) = Some r"
      | "m p = 2" "f m (p + 8) e ismp (m (p + 1)) s = Some r"
      | "m p = 1 \<or> m p = 3 \<or> m p = 4" "f m (p + 8) e ismp ioapicid s = Some r"
      | "f m p e False ioapicid s = Some r"
      using r by (auto split: if_splits)
    then show ?thesis using True IH by cases (blast intro: table.intros)+
  qed (auto intro: table.ended)
qed

definition cpu_ids :: "mp_entry list \<Rightarrow> uchar list" where
  "cpu_ids es = concat (map (\<lambda>x. case x of Mp_proc i \<Rightarrow> [i] | _ \<Rightarrow> []) es)"

lemma cpu_ids_simps [simp]: "cpu_ids [] = []" "cpu_ids (Mp_proc i # es) = i # cpu_ids es"
    "cpu_ids (Mp_ioapic j # es) = cpu_ids es" "cpu_ids (Mp_other # es) = cpu_ids es"
  by (simp_all add: cpu_ids_def)

lemma add_entries:
  assumes "ncpu s \<le> NCPU"
  shows "ncpu (snd (fold add_entry es (io, s))) = min NCPU (ncpu s + length (cpu_ids es))"
    and "k < ncpu (snd (fold add_entry es (io, s))) \<Longrightarrow>
      c_apicid (cpus (snd (fold add_entry es (io, s))) k) = (if k < ncpu s then c_apicid (cpus s k) else cpu_ids es ! (k - ncpu s))"
proof -
  have "ncpu (snd (fold add_entry es (io, s))) = min NCPU (ncpu s + length (cpu_ids es)) \<and>
      (k < ncpu (snd (fold add_entry es (io, s))) \<longrightarrow>
      c_apicid (cpus (snd (fold add_entry es (io, s))) k) = (if k < ncpu s then c_apicid (cpus s k) else cpu_ids es ! (k - ncpu s)))"
    using assms
  proof (induction es arbitrary: io s)
    case (Cons x es)
    show ?case
    proof (cases x)
      case (Mp_proc i)
      have le: "ncpu (add_cpu i s) \<le> NCPU" using Cons.prems by (simp add: add_cpu_def)
      show ?thesis
      proof (cases "ncpu s < NCPU")
        case True
        then show ?thesis using Cons.IH [OF le, of io] Mp_proc
          by (auto simp: add_cpu_def nth_Cons' less_Suc_eq)
      next
        case False
        then show ?thesis using Cons.IH [OF le, of io] Mp_proc Cons.prems by (auto simp: add_cpu_def)
      qed
    qed (use Cons in auto)
  qed simp
  then show "ncpu (snd (fold add_entry es (io, s))) = min NCPU (ncpu s + length (cpu_ids es))"
    and "k < ncpu (snd (fold add_entry es (io, s))) \<Longrightarrow>
      c_apicid (cpus (snd (fold add_entry es (io, s))) k) = (if k < ncpu s then c_apicid (cpus s k) else cpu_ids es ! (k - ncpu s))"
    by blast+
qed

text \<open>
  C34. The loop of mpinit over the entries of the configuration table returns exactly when the
  table, from p up to its end e, is a sequence of entries of the known types. On any other
  table, one whose first unreadable entry has an unknown type byte, it runs forever: the break
  of the default case leaves the switch and the loop tests the same entry again, so the panic
  after the loop is never reached.
\<close>

theorem mpinit_returns_iff_table:
  "(\<exists>r. mpinit_loop m p e ismp ioapicid s = Some r) \<longleftrightarrow> (\<exists>es. table m e p es)"
  using mpinit_loop_table mpinit_loop_returns by blast

text \<open>
  C35. On a table with known entries mpinit records the processors: it keeps the APIC identifiers
  of the first NCPU processor entries, in the order of the table and without gaps, counts
  them in ncpu, and never writes past the array of CPUs.
\<close>

theorem mpinit_lists_cpus:
  assumes "table m e p es" and "ncpu s = 0"
  shows "\<exists>io t. mpinit_loop m p e ismp ioapicid s = Some (ismp, io, t) \<and> ncpu t = min NCPU (length (cpu_ids es)) \<and>
    (\<forall>k < ncpu t. c_apicid (cpus t k) = cpu_ids es ! k) \<and> procs t = procs s \<and> mem t = mem s"
proof -
  have f: "procs (snd (fold add_entry es x)) = procs (snd x)" "mem (snd (fold add_entry es x)) = mem (snd x)" for x
  proof (induction es arbitrary: x)
    case (Cons y es)
    { case 1 show ?case using Cons(1) by (cases y) (simp_all add: add_cpu_def) }
    { case 2 show ?case using Cons(2) by (cases y) (simp_all add: add_cpu_def) }
  qed simp_all
  show ?thesis
    using mpinit_loop_table [OF assms(1), of ismp ioapicid s] add_entries [where s = s and es = es and io = ioapicid] assms(2) f [of "(ioapicid, s)"]
    by (cases "fold add_entry es (ioapicid, s)") simp
qed

theorem mpinit_lists_cpus_witness:
  "\<exists>io t. mpinit_loop ((\<lambda>_. 1)(100 := 0, 101 := 5, 120 := 0, 121 := 9)) 100 148 True 0 (booted 0) = Some (True, io, t) \<and>
     ncpu t = 2 \<and> c_apicid (cpus t 0) = 5 \<and> c_apicid (cpus t 1) = 9"
proof -
  let ?m = "(\<lambda>_. 1)(100 := 0, 101 := 5, 120 := 0, 121 := 9) :: memory"
  have "table ?m 148 148 []" by (rule table.ended) simp
  then have "table ?m 148 140 [Mp_other]" using table.other [of 140 148 ?m] by simp
  then have "table ?m 148 120 [Mp_proc 9, Mp_other]" using table.proc [of 120 148 ?m] by simp
  then have "table ?m 148 100 [Mp_proc 5, Mp_proc 9, Mp_other]" using table.proc [of 100 148 ?m] by simp
  from mpinit_lists_cpus [OF this, of "booted 0" True 0] show ?thesis by auto
qed

end
