(* ===== verification/Ide.thy ===== *)
theory Ide
  imports Devices Bio
begin

text \<open>
  The IDE disk driver (\<^verbatim>\<open>ide.c\<close>): requests wait in a queue linked through \<^verbatim>\<open>qnext\<close>, the first one is
  at the disk, and its completion interrupt wakes the sleeping process and starts the next.
  \<^verbatim>\<open>iderw\<close> is cut at its call of \<^verbatim>\<open>sleep\<close>. The names of the memory disk driver, which offers the same
  functions, are in \<open>Bio\<close>; the ones here end in \<open>_pio\<close> where they clash.
\<close>

unbundle bit_operations_syntax

definition IDE_BSY :: uchar where [simp]: "IDE_BSY = 0x80"
definition IDE_DRDY :: uchar where [simp]: "IDE_DRDY = 0x40"
definition IDE_DF :: uchar where [simp]: "IDE_DF = 0x20"
definition IDE_ERR :: uchar where [simp]: "IDE_ERR = 0x01"
definition IDE_CMD_READ :: uchar where [simp]: "IDE_CMD_READ = 0x20"
definition IDE_CMD_WRITE :: uchar where [simp]: "IDE_CMD_WRITE = 0x30"

lemma inb_less: "inb port rs = (qs, Done v ss) \<Longrightarrow> length ss < length rs"
  by (cases rs) (auto simp: inb_def)

function ide_ready :: "uchar driver" where
  "ide_ready rs = bindi (inb 0x1f7) (\<lambda>r rs. if r AND (IDE_BSY OR IDE_DRDY) \<noteq> IDE_DRDY then ide_ready rs else ret r rs) rs"
  by pat_completeness auto
termination
  by (relation "measure length") (auto dest: inb_less)

declare ide_ready.simps [simp del]

definition idewait :: "bool \<Rightarrow> int driver" where
  "idewait checkerr = bindi ide_ready (\<lambda>r. ret (if checkerr \<and> r AND (IDE_DF OR IDE_ERR) \<noteq> 0 then -1 else 0))"

primrec ide_probe :: "nat \<Rightarrow> bool driver" where
  "ide_probe 0 = ret False"
| "ide_probe (Suc k) = bindi (inb 0x1f7) (\<lambda>st. if st \<noteq> 0 then ret True else ide_probe k)"

text \<open>\<^verbatim>\<open>ideinit\<close>; the result is \<^verbatim>\<open>havedisk1\<close>.\<close>

definition ideinit_pio :: "kernel \<Rightarrow> (bool \<times> kernel) driver" where
  "ideinit_pio s =
     (let s = initlock Idelock s in
      thn (ioapicenable 14 (of_nat (ncpu s) - 1))
      (bindi (idewait False) (\<lambda>_.
       thn (outb 0x1f6 (0xe0 OR 0x10))
       (bindi (ide_probe 1000) (\<lambda>havedisk1.
        thn (outb 0x1f6 0xe0) (ret (havedisk1, s)))))))"

text \<open>The 128 words of a block.\<close>

definition block_words :: "block \<Rightarrow> uint list" where
  "block_words d = map (\<lambda>i. get32 d (4 * i)) [0..<128]"

definition words_block :: "uint list \<Rightarrow> block \<Rightarrow> block" where
  "words_block ws d = fold (\<lambda>i. put32 (4 * i) (ws ! i)) [0..<length ws] d"

text \<open>\<^verbatim>\<open>idestart\<close>; one sector per block.\<close>

definition idestart :: "nat option \<Rightarrow> kernel \<Rightarrow> unit driver" where
  "idestart b s =
     (case b of
        None \<Rightarrow> fault (Panic ''idestart'')
      | Some b \<Rightarrow>
         let bf = bcache s b; sector = b_blockno bf in
         if sector \<ge> FSSIZE then fault (Panic ''incorrect blockno'')
         else
           bindi (idewait False) (\<lambda>_.
           thn (seqi [outb 0x3f6 0, outb 0x1f2 1, outb 0x1f3 (ucast (sector AND 0xff)),
                      outb 0x1f4 (ucast (drop_bit 8 sector AND 0xff)), outb 0x1f5 (ucast (drop_bit 16 sector AND 0xff)),
                      outb 0x1f6 (0xe0 OR ucast (push_bit 4 (b_dev bf AND 1)) OR ucast (drop_bit 24 sector AND 0x0f))])
           (if b_dirty bf then thn (outb 0x1f7 IDE_CMD_WRITE) (outsl 0x1f0 (block_words (b_data bf)))
            else outb 0x1f7 IDE_CMD_READ)))"

definition ideintr_pio :: "kernel \<Rightarrow> kernel driver" where
  "ideintr_pio s =
     bindi (lift (acquire Idelock s)) (\<lambda>s.
     case idequeue s of
       None \<Rightarrow> lift (release Idelock s)
     | Some b \<Rightarrow>
        let s = s\<lparr>idequeue := b_qnext (bcache s b)\<rparr> in
        bindi (if b_dirty (bcache s b) then ret s
               else bindi (idewait True) (\<lambda>r.
                 if r \<ge> 0 then bindi (insl 0x1f0 128) (\<lambda>ws. ret (upd_buf b (\<lambda>bf. bf\<lparr>b_data := words_block ws (b_data bf)\<rparr>) s))
                 else ret s)) (\<lambda>s.
        let s = upd_buf b (\<lambda>bf. bf\<lparr>b_valid := True, b_dirty := False\<rparr>) s in
        bindi (lift (wakeup (Some (Chan_buf b)) s)) (\<lambda>s.
        bindi (if idequeue s \<noteq> None then idestart (idequeue s) s else ret ()) (\<lambda>_.
        lift (release Idelock s)))))"

text \<open>The walk to the end of the queue, which has at most \<open>NBUF\<close> requests.\<close>

fun ide_append :: "nat \<Rightarrow> nat \<Rightarrow> nat \<Rightarrow> kernel \<Rightarrow> kernel result" where
  "ide_append n b q s =
     (case b_qnext (bcache s q) of
        None \<Rightarrow> Inr (upd_buf q (\<lambda>bf. bf\<lparr>b_qnext := Some b\<rparr>) s)
      | Some q' \<Rightarrow> (case n of 0 \<Rightarrow> Inl Out_Of_Fuel | Suc n \<Rightarrow> ide_append n b q' s))"

definition ide_enqueue :: "nat \<Rightarrow> kernel \<Rightarrow> kernel result" where
  "ide_enqueue b s =
     (let s = upd_buf b (\<lambda>bf. bf\<lparr>b_qnext := None\<rparr>) s in
      case idequeue s of
        None \<Rightarrow> Inr (s\<lparr>idequeue := Some b\<rparr>)
      | Some q \<Rightarrow> ide_append NBUF b q s)"

text \<open>The wait loop of \<^verbatim>\<open>iderw\<close>, one pass; \<open>iderw_again\<close> is what follows a wake-up.\<close>

definition iderw_pass :: "nat \<Rightarrow> kernel \<Rightarrow> (wait \<times> kernel) result" where
  "iderw_pass b s =
     (if b_valid (bcache s b) \<and> \<not> b_dirty (bcache s b) then bindr (release Idelock s) (\<lambda>s. Inr (Returns 0, s))
      else bindr (sleep_enter (Some (Chan_buf b)) (Some Idelock) s) (\<lambda>(i, s). Inr (Sleeps i, s)))"

definition iderw_pio :: "bool \<Rightarrow> nat \<Rightarrow> kernel \<Rightarrow> (wait \<times> kernel) driver" where
  "iderw_pio havedisk1 b s =
     bindi (lift (bindr (holdingsleep (Buf_sl b) s) (\<lambda>(h, s).
       bindr (panic_if (\<not> h) ''iderw: buf not locked'') (\<lambda>_.
       bindr (panic_if (b_valid (bcache s b) \<and> \<not> b_dirty (bcache s b)) ''iderw: nothing to do'') (\<lambda>_.
       bindr (panic_if (b_dev (bcache s b) \<noteq> 0 \<and> \<not> havedisk1) ''iderw: ide disk 1 not present'') (\<lambda>_.
       bindr (acquire Idelock s) (ide_enqueue b))))))) (\<lambda>s.
     bindi (if idequeue s = Some b then idestart (Some b) s else ret ()) (\<lambda>_.
     lift (iderw_pass b s)))"

definition iderw_again :: "nat \<Rightarrow> nat \<Rightarrow> bool \<Rightarrow> kernel \<Rightarrow> (wait \<times> kernel) result" where
  "iderw_again b p intena s = bindr (sleep_exit p Idelock intena s) (iderw_pass b)"

section \<open>The request queue\<close>

text \<open>\<open>qlinked c h xs\<close>: from \<open>h\<close> the \<^verbatim>\<open>qnext\<close> pointers run through \<open>xs\<close> and end.\<close>

primrec qlinked :: "(nat \<Rightarrow> buf) \<Rightarrow> nat option \<Rightarrow> nat list \<Rightarrow> bool" where
  "qlinked c h [] \<longleftrightarrow> h = None"
| "qlinked c h (x # xs) \<longleftrightarrow> h = Some x \<and> qlinked c (b_qnext (c x)) xs"

definition ide_queue :: "kernel \<Rightarrow> nat list \<Rightarrow> bool" where
  "ide_queue s xs \<longleftrightarrow> qlinked (bcache s) (idequeue s) xs \<and> distinct xs \<and> set xs \<subseteq> {..<30}"

lemma qlinked_cong: "(\<And>x. x \<in> set xs \<Longrightarrow> b_qnext (c x) = b_qnext (d x)) \<Longrightarrow> qlinked c h xs = qlinked d h xs"
  by (induction xs arbitrary: h) auto

lemma qlinked_snoc:
  assumes "qlinked c h (xs @ [q])" and "distinct (xs @ [q])" and "b \<notin> set (xs @ [q])" and "b_qnext (c b) = None"
  shows "qlinked (c(q := (c q)\<lparr>b_qnext := Some b\<rparr>)) h (xs @ [q, b])"
  using assms
proof (induction xs arbitrary: h)
  case (Cons x xs)
  then show ?case by auto
qed auto

lemma ide_append_last:
  assumes "qlinked (bcache s) (Some q) (q # xs)" and "length xs \<le> n"
  shows "ide_append n b q s = Inr (upd_buf (last (q # xs)) (\<lambda>bf. bf\<lparr>b_qnext := Some b\<rparr>) s)"
  using assms
proof (induction xs arbitrary: n q)
  case (Cons x xs)
  then obtain n' where "n = Suc n'" by (cases n) auto
  then show ?case using Cons by simp
qed simp

declare ide_append.simps [simp del]

text \<open>A new request goes to the end of the queue.\<close>

lemma ide_enqueue_last:
  assumes q: "ide_queue s xs" and b: "b \<notin> set xs" "b < 30"
  shows "\<exists>t. ide_enqueue b s = Inr t \<and> ide_queue t (xs @ [b]) \<and> (\<forall>a. bcache t a = (bcache s a)\<lparr>b_qnext := b_qnext (bcache t a)\<rparr>) \<and>
    t = s\<lparr>bcache := bcache t, idequeue := idequeue t\<rparr>"
proof -
  let ?s = "upd_buf b (\<lambda>bf. bf\<lparr>b_qnext := None\<rparr>) s"
  have l: "qlinked (bcache ?s) (idequeue s) xs" using q b by (simp add: ide_queue_def) (subst qlinked_cong [of _ _ "bcache s"]; auto)
  have d: "distinct xs" "set xs \<subseteq> {..<30}" using q by (simp_all add: ide_queue_def)
  show ?thesis
  proof (cases xs rule: rev_cases)
    case Nil
    then have "idequeue s = None" using q by (simp add: ide_queue_def)
    then show ?thesis using Nil b by (auto simp: ide_enqueue_def ide_queue_def)
  next
    case (snoc ys y)
    then obtain h zs where xs: "xs = h # zs" by (metis append_is_Nil_conv list.exhaust not_Cons_self2)
    then have hz: "xs = h # zs" "idequeue s = Some h" using l by auto
    have "card (set xs) \<le> 30" using card_mono [OF _ d(2)] by simp
    then have len: "length zs \<le> 30" using distinct_card [OF d(1)] hz by simp
    have "ide_append 30 b h ?s = Inr (upd_buf y (\<lambda>bf. bf\<lparr>b_qnext := Some b\<rparr>) ?s)"
    proof -
      have "last (h # zs) = y" using xs snoc by (metis last_snoc)
      moreover have "qlinked (bcache ?s) (Some h) (h # zs)" using l hz by simp
      ultimately show ?thesis using ide_append_last [of ?s h zs 30 b] len by (simp only:)
    qed
    then have e: "ide_enqueue b s = Inr (upd_buf y (\<lambda>bf. bf\<lparr>b_qnext := Some b\<rparr>) ?s)" using hz(2) by (simp add: ide_enqueue_def)
    have "qlinked ((bcache ?s)(y := (bcache ?s y)\<lparr>b_qnext := Some b\<rparr>)) (idequeue s) (ys @ [y, b])"
      using l d b snoc by (intro qlinked_snoc) auto
    moreover have "xs @ [b] = ys @ [y, b]" "distinct (xs @ [b])" "set (xs @ [b]) \<subseteq> {..<30}" using snoc d b by simp_all
    ultimately have "ide_queue (upd_buf y (\<lambda>bf. bf\<lparr>b_qnext := Some b\<rparr>) ?s) (xs @ [b])" by (simp add: ide_queue_def)
    then show ?thesis using e by auto
  qed
qed

text \<open>The disk answers \<open>0x40\<close>: ready and no error.\<close>

lemma idewait_ready: "idewait c (0x40 # rs) = ([Inb 0x1f7], Done 0 rs)"
proof -
  have "ide_ready (0x40 # rs) = ([Inb 0x1f7], Done 0x40 rs)" by (subst ide_ready.simps) (simp add: inb_def)
  then show ?thesis by (simp add: idewait_def bindi_run)
qed

lemma insl_all: "insl port (length ws) (ws @ rs) = (replicate (length ws) (In32 port), Done ws rs)"
  by (induction ws) (simp_all add: bindi_run)

lemma seqi_outb: "seqi (map (\<lambda>(p, v). outb p v) pvs) rs = (map (\<lambda>(p, v). Outb p v) pvs, Done () rs)"
  by (induction pvs) (auto simp: outb_def)

lemma outsl_done: "outsl port ws rs = (map (Out32 port) ws, Done () rs)"
  by (induction ws) (auto simp: outsl_def)

lemma outb_done: "outb p v rs = ([Outb p v], Done () rs)"
  by (simp add: outb_def tell_def)

text \<open>The registers of a request, in the order the driver writes them.\<close>

definition ide_command :: "buf \<Rightarrow> port_access list" where
  "ide_command bf =
     [Inb 0x1f7, Outb 0x3f6 0, Outb 0x1f2 1, Outb 0x1f3 (ucast (b_blockno bf AND 0xff)),
      Outb 0x1f4 (ucast (drop_bit 8 (b_blockno bf) AND 0xff)), Outb 0x1f5 (ucast (drop_bit 16 (b_blockno bf) AND 0xff)),
      Outb 0x1f6 (0xe0 OR ucast (push_bit 4 (b_dev bf AND 1)) OR ucast (drop_bit 24 (b_blockno bf) AND 0x0f))] @
     (if b_dirty bf then Outb 0x1f7 IDE_CMD_WRITE # map (Out32 0x1f0) (block_words (b_data bf)) else [Outb 0x1f7 IDE_CMD_READ])"

lemma idestart_command:
  assumes "b_blockno (bcache s b) < FSSIZE"
  shows "idestart (Some b) s (0x40 # rs) = (ide_command (bcache s b), Done () rs)"
  using assms
  by (simp add: idestart_def Let_def bindi_run idewait_ready outb_done outsl_done ide_command_def)

text \<open>What the disk sends in a completion interrupt for \<open>b\<close>, and what the interrupt then does.\<close>

definition ide_sends :: "kernel \<Rightarrow> nat \<Rightarrow> nat list \<Rightarrow> uint list \<Rightarrow> uint list" where
  "ide_sends s b xs ws = (if b_dirty (bcache s b) then [] else 0x40 # ws) @ (if xs = [] then [] else [0x40])"

definition ide_filled :: "buf \<Rightarrow> uint list \<Rightarrow> buf" where
  "ide_filled bf ws = bf\<lparr>b_data := (if b_dirty bf then b_data bf else words_block ws (b_data bf)), b_valid := True, b_dirty := False\<rparr>"

lemma woke_idequeue: "woke s t \<Longrightarrow> idequeue t = idequeue s"
  by (cases s; cases t; simp add: woke_def)

lemma ideintr_serves:
  assumes s: "cpu_wf s" "lock_free Idelock s" "lock_free Ptable_lock s" "sched_inv s" and q: "ide_queue s (b # xs)"
    and xs: "\<forall>x \<in> set xs. b_blockno (bcache s x) < FSSIZE" and ws: "length ws = 128"
  shows "\<exists>qs t. ideintr_pio s (ide_sends s b xs ws @ rest) = (qs, Done t rest) \<and> ide_queue t xs \<and>
    bcache t = (bcache s)(b := ide_filled (bcache s b) ws) \<and> sched_inv t \<and>
    (\<forall>p. same_but_links (procs t p) (if p < 64 \<and> sleeps_on (Some (Chan_buf b)) (procs s p) then woken (procs s p) else procs s p)) \<and>
    (xs \<noteq> [] \<longrightarrow> (\<exists>us. qs = us @ ide_command (bcache s (hd xs))))"
proof -
  let ?a = "acq Idelock s"
  let ?s1 = "?a\<lparr>idequeue := b_qnext (bcache s b)\<rparr>"
  let ?s2 = "?s1\<lparr>bcache := (bcache s)(b := ide_filled (bcache s b) ws)\<rparr>"
  have h: "idequeue s = Some b" "qlinked (bcache s) (b_qnext (bcache s b)) xs" "b \<notin> set xs" "distinct xs" "set xs \<subseteq> {..<30}"
    using q by (auto simp: ide_queue_def)
  have cp: "cpu_wf ?s2" "0 < c_ncli (cpus ?s2 (this_cpu ?s2))" "lock_free Ptable_lock ?s2" "sched_inv ?s2"
    using s sched_view(1) [of ?s2 s] by (simp_all add: cpu_view_def)
  obtain t where t: "wakeup (Some (Chan_buf b)) ?s2 = Inr t" "woke ?s2 t"
      "\<forall>p. same_but_links (procs t p) (if p < 64 \<and> sleeps_on (Some (Chan_buf b)) (procs ?s2 p) then woken (procs ?s2 p) else procs ?s2 p)"
    using wakeup_woke [OF cp, of "Some (Chan_buf b)"] by (auto simp: wp_def split: sum.splits)
  note f = woke_fields [OF t(2)]
  have iq: "idequeue t = b_qnext (bcache s b)" using woke_idequeue [OF t(2)] by simp
  have r: "release Idelock t = Inr (rel Idelock t)"
    using cp f(1-3,16) s by (intro release_held) (auto simp: fun_upd_apply)
  let ?data = "\<lambda>s. if b_dirty (bcache s b) then ret s
       else bindi (idewait True) (\<lambda>r.
         if r \<ge> 0 then bindi (insl 0x1f0 128) (\<lambda>ws. ret (upd_buf b (\<lambda>bf. bf\<lparr>b_data := words_block ws (b_data bf)\<rparr>) s))
         else ret s)"
  let ?tail = "if xs = [] then [] else [0x40 :: uint]"
  have "insl 0x1f0 128 (ws @ ?tail @ rest) = (replicate 128 (In32 0x1f0), Done ws (?tail @ rest))"
    using insl_all [where port = "0x1f0" and ws = ws and rs = "?tail @ rest"] ws by simp
  then have data: "\<exists>q1 s'. ?data ?s1 (ide_sends s b xs ws @ rest) = (q1, Done s' (?tail @ rest)) \<and>
      upd_buf b (\<lambda>bf. bf\<lparr>b_valid := True, b_dirty := False\<rparr>) s' = ?s2"
    by (auto simp: ide_sends_def ide_filled_def bindi_run idewait_ready)
  have start: "\<exists>q2. (if idequeue t \<noteq> None then idestart (idequeue t) t else ret ()) (?tail @ rest) = (q2, Done () rest) \<and>
      (xs \<noteq> [] \<longrightarrow> q2 = ide_command (bcache s (hd xs)))"
  proof (cases xs)
    case Nil
    then show ?thesis using h(2) iq by simp
  next
    case (Cons x ys)
    then have "bcache t x = bcache s x" using f(11) h(3) by auto
    then show ?thesis using Cons h(2) iq xs idestart_command [of t x rest] by simp
  qed
  obtain q1 s' q2 where d: "?data ?s1 (ide_sends s b xs ws @ rest) = (q1, Done s' (?tail @ rest))"
      "upd_buf b (\<lambda>bf. bf\<lparr>b_valid := True, b_dirty := False\<rparr>) s' = ?s2"
      "(if idequeue t \<noteq> None then idestart (idequeue t) t else ret ()) (?tail @ rest) = (q2, Done () rest)"
      "xs \<noteq> [] \<longrightarrow> q2 = ide_command (bcache s (hd xs))"
    using data start by blast
  have "ideintr_pio s (ide_sends s b xs ws @ rest) = (q1 @ q2, Done (rel Idelock t) rest)"
  proof -
    let ?k = "\<lambda>s. let s = upd_buf b (\<lambda>bf. bf\<lparr>b_valid := True, b_dirty := False\<rparr>) s in
        bindi (lift (wakeup (Some (Chan_buf b)) s)) (\<lambda>s.
        bindi (if idequeue s \<noteq> None then idestart (idequeue s) s else ret ()) (\<lambda>_. lift (release Idelock s)))"
    have "ideintr_pio s = bindi (?data ?s1) ?k"
      using h(1) by (simp add: ideintr_pio_def acquire_free [OF s(1,2)] Let_def)
    moreover have "bindi (if idequeue t \<noteq> None then idestart (idequeue t) t else ret ()) (\<lambda>_. ret (rel Idelock t)) (?tail @ rest) =
        (q2, Done (rel Idelock t) rest)"
      by (subst bindi_run [where m = "if idequeue t \<noteq> None then idestart (idequeue t) t else ret ()", OF d(3)]) simp
    then have "?k s' (?tail @ rest) = (q2, Done (rel Idelock t) rest)"
      unfolding Let_def d(2) t(1) lift_simps bindi_simps r .
    ultimately show ?thesis using bindi_run [where m = "?data ?s1" and f = ?k, OF d(1)] by simp
  qed
  moreover have "qlinked (bcache t) (idequeue t) xs"
  proof -
    have "b_qnext (bcache t x) = b_qnext (bcache s x)" if "x \<in> set xs" for x using that h(3) f(11) by auto
    then have "qlinked (bcache t) (idequeue t) xs = qlinked (bcache s) (idequeue t) xs" by (rule qlinked_cong)
    then show ?thesis using h(2) iq by simp
  qed
  moreover have "sched_inv (rel Idelock t)" using f(15) sched_view(1) [of "rel Idelock t" t] by simp
  moreover have "ide_queue (rel Idelock t) xs" using calculation(2) h(4,5) by (simp add: ide_queue_def)
  moreover have "bcache (rel Idelock t) = (bcache s)(b := ide_filled (bcache s b) ws)" using f(11) by simp
  moreover have "\<forall>p. same_but_links (procs (rel Idelock t) p)
      (if p < 64 \<and> sleeps_on (Some (Chan_buf b)) (procs s p) then woken (procs s p) else procs s p)"
  proof -
    have "procs ?s2 = procs s" by simp
    then show ?thesis using t(3) by (simp only: rel_fields simp_thms)
  qed
  ultimately show ?thesis using d(4) by blast
qed

text \<open>
  C33. The completion interrupt of the disk. When the first request of the queue is done and the
  disk is ready, ideintr returns: it takes exactly that request off the queue, for a read fills
  the buffer with the 128 words the disk delivers, marks it valid and not dirty, makes every
  process that sleeps on the buffer runnable and no other, and ends by giving the disk the
  command for the next request if there is one. The other buffers do not change.
\<close>

theorem ideintr_completes_first_request:
  assumes "cpu_wf s" and "lock_free Idelock s" and "lock_free Ptable_lock s" and "sched_inv s" and "ide_queue s (b # xs)"
    and "\<forall>x \<in> set xs. b_blockno (bcache s x) < FSSIZE" and "length ws = 128"
  shows "\<exists>qs t. ideintr_pio s (ide_sends s b xs ws @ rest) = (qs, Done t rest) \<and> ide_queue t xs \<and>
    bcache t = (bcache s)(b := ide_filled (bcache s b) ws) \<and> sched_inv t \<and>
    (\<forall>p. same_but_links (procs t p) (if p < 64 \<and> sleeps_on (Some (Chan_buf b)) (procs s p) then woken (procs s p) else procs s p)) \<and>
    (xs \<noteq> [] \<longrightarrow> (\<exists>us. qs = us @ ide_command (bcache s (hd xs))))"
  using ideintr_serves [OF assms] .

theorem ideintr_completes_first_request_witness:
  "\<exists>qs t. ideintr_pio (one_running\<lparr>idequeue := Some 3\<rparr>) (0x40 # replicate 128 7) = (qs, Done t []) \<and> idequeue t = None \<and> b_valid (bcache t 3)"
proof -
  let ?s = "one_running\<lparr>idequeue := Some 3\<rparr>"
  have i: "idle 7 ?s" using one_running_idle idle_cong [of ?s one_running] by simp
  have q: "ide_queue ?s [3]" by (simp add: ide_queue_def ring_buf_def zero_buf_def)
  have "ide_sends ?s 3 [] (replicate 128 7) @ [] = 0x40 # replicate 128 7" by (simp add: ide_sends_def ring_buf_def zero_buf_def)
  then obtain qs t where "ideintr_pio ?s (0x40 # replicate 128 7) = (qs, Done t [])" "ide_queue t []"
      "bcache t = (bcache ?s)(3 := ide_filled (bcache ?s 3) (replicate 128 7))"
    using ideintr_completes_first_request [of ?s 3 "[]" "replicate 128 7" "[]"] i q unfolding idle_def by (auto simp del: append_Nil2)
  then show ?thesis by (auto simp: ide_queue_def ide_filled_def)
qed

end
