(* ===== verification/Boot.thy ===== *)
theory Boot
  imports Mp Ide Trap
begin

text \<open>
  Start-up: the boot loader (\<^verbatim>\<open>bootmain.c\<close>), segment and gate descriptors (\<^verbatim>\<open>mmu.h\<close>, \<^verbatim>\<open>seginit\<close> of \<^verbatim>\<open>vm.c\<close>,
  \<^verbatim>\<open>tvinit\<close> of \<^verbatim>\<open>trap.c\<close>) and \<^verbatim>\<open>main.c\<close>, which calls the initialisation of every part and starts the other
  processors.
\<close>

unbundle bit_operations_syntax

section \<open>The boot loader\<close>

function waitdisk :: "unit driver" where
  "waitdisk rs = bindi (inb 0x1F7) (\<lambda>r rs. if r AND 0xC0 \<noteq> 0x40 then waitdisk rs else ret () rs) rs"
  by pat_completeness auto
termination
  by (relation "measure length") (auto dest: inb_less)

declare waitdisk.simps [simp del]

lemma waitdisk_less: "waitdisk rs = (qs, Done u ss) \<Longrightarrow> length ss < length rs"
proof (induction rs arbitrary: qs rule: waitdisk.induct)
  case (1 rs)
  then obtain q1 r ss1 q2 where i: "inb 0x1F7 rs = (q1, Done r ss1)"
      and k: "(if r AND 0xC0 \<noteq> 0x40 then waitdisk ss1 else ret () ss1) = (q2, Done u ss)"
    by (subst (asm) (2) waitdisk.simps) (auto simp: bindi_Done)
  show ?case using 1(1) [OF i] k inb_less [OF i] by (fastforce split: if_splits)
qed

text \<open>Memory is the flat physical memory. \<^verbatim>\<open>insl\<close> stores its words from \<open>dst\<close> on.\<close>

primrec store_words :: "uint \<Rightarrow> uint list \<Rightarrow> memory \<Rightarrow> memory" where
  "store_words a [] m = m"
| "store_words a (w # ws) m = store_words (a + 4) ws (store32 a w m)"

definition readsect :: "uint \<Rightarrow> uint \<Rightarrow> memory \<Rightarrow> memory driver" where
  "readsect dst offset m =
     bindi waitdisk (\<lambda>_.
     thn (seqi [outb 0x1F2 1, outb 0x1F3 (ucast offset), outb 0x1F4 (ucast (drop_bit 8 offset)),
                outb 0x1F5 (ucast (drop_bit 16 offset)), outb 0x1F6 (ucast (drop_bit 24 offset) OR 0xE0),
                outb 0x1F7 0x20])
     (bindi waitdisk (\<lambda>_.
      bindi (insl 0x1F0 128) (\<lambda>ws. ret (store_words dst ws m)))))"

lemma insl_le: "insl port n rs = (qs, Done ws ss) \<Longrightarrow> length ss \<le> length rs"
  by (induction n arbitrary: rs qs ws ss) (fastforce simp: bindi_Done)+

lemma readsect_less: "readsect dst off m rs = (qs, Done m' ss) \<Longrightarrow> length ss < length rs"
  unfolding readsect_def bindi_Done
proof (elim exE conjE)
  fix q1 u r1 q2 q3 v r2 q4 q5 w r3 q6 q7 ws r4 q8
  assume "waitdisk rs = (q1, Done u r1)"
    and o: "seqi [outb 0x1F2 1, outb 0x1F3 (ucast off), outb 0x1F4 (ucast (drop_bit 8 off)), outb 0x1F5 (ucast (drop_bit 16 off)),
      outb 0x1F6 (ucast (drop_bit 24 off) OR 0xE0), outb 0x1F7 0x20] r1 = (q3, Done v r2)"
    and "waitdisk r2 = (q5, Done w r3)" and "insl 0x1F0 128 r3 = (q7, Done ws r4)" and e: "ret (store_words dst ws m) r4 = (q8, Done m' ss)"
  moreover have "r2 = r1" using o by (simp add: outb_def tell_def)
  moreover have "ss = r4" using e by simp
  ultimately show "length ss < length rs" using waitdisk_less insl_le by (meson less_trans order.strict_trans1)
qed

function readseg_loop :: "uint \<Rightarrow> uint \<Rightarrow> uint \<Rightarrow> memory \<Rightarrow> memory driver" where
  "readseg_loop pa epa offset m rs =
     (if pa < epa then bindi (readsect pa offset m) (\<lambda>m rs. readseg_loop (pa + 512) epa (offset + 1) m rs) rs
      else ret m rs)"
  by pat_completeness auto
termination
  by (relation "measure (\<lambda>(_, _, _, _, rs). length rs)") (auto dest: readsect_less)

declare readseg_loop.simps [simp del]

definition readseg :: "uint \<Rightarrow> uint \<Rightarrow> uint \<Rightarrow> memory \<Rightarrow> memory driver" where
  "readseg pa count offset m =
     (let epa = pa + count; pa = pa - offset mod 512; offset = offset div 512 + 1
      in readseg_loop pa epa offset m)"

text \<open>Fields of the ELF header at \<open>elf\<close> and of a program header at \<open>ph\<close>.\<close>

definition boot_elf :: uint where [simp]: "boot_elf = 0x10000"

primrec boot_load :: "nat \<Rightarrow> uint \<Rightarrow> memory \<Rightarrow> memory driver" where
  "boot_load 0 ph m = ret m"
| "boot_load (Suc n) ph m =
     (let pa = load32 m (ph + 12) in
      bindi (readseg pa (load32 m (ph + 16)) (load32 m (ph + 4)) m) (\<lambda>m.
      let filesz = load32 m (ph + 16); memsz = load32 m (ph + 20) in
      boot_load n (ph + 32) (if memsz > filesz then stosb (pa + filesz) 0 (unat (memsz - filesz)) m else m)))"

text \<open>The result is the entry point to jump to, or none for an image that is not ELF.\<close>

definition bootmain :: "memory \<Rightarrow> (uint option \<times> memory) driver" where
  "bootmain m =
     bindi (readseg boot_elf 4096 0 m) (\<lambda>m.
     if load32 m boot_elf \<noteq> ELF_MAGIC then ret (None, m)
     else
       bindi (boot_load (unat (load16 m (boot_elf + 44))) (boot_elf + load32 m (boot_elf + 28)) m) (\<lambda>m.
       ret (Some (load32 m (boot_elf + 24)), m)))"

section \<open>Segments and gates\<close>

record segdesc =
  lim_15_0 :: "16 word"
  base_15_0 :: "16 word"
  base_23_16 :: "8 word"
  sd_type :: "4 word"
  sd_s :: "1 word"
  sd_dpl :: "2 word"
  sd_p :: "1 word"
  lim_19_16 :: "4 word"
  sd_avl :: "1 word"
  sd_rsv1 :: "1 word"
  sd_db :: "1 word"
  sd_g :: "1 word"
  base_31_24 :: "8 word"

definition SEG :: "4 word \<Rightarrow> uint \<Rightarrow> uint \<Rightarrow> 2 word \<Rightarrow> segdesc" where
  "SEG type base lim dpl =
     \<lparr>lim_15_0 = ucast (drop_bit 12 lim AND 0xffff), base_15_0 = ucast (base AND 0xffff),
      base_23_16 = ucast (drop_bit 16 base AND 0xff), sd_type = type, sd_s = 1, sd_dpl = dpl, sd_p = 1,
      lim_19_16 = ucast (drop_bit 28 lim), sd_avl = 0, sd_rsv1 = 0, sd_db = 1, sd_g = 1, base_31_24 = ucast (drop_bit 24 base)\<rparr>"

text \<open>
  \<^verbatim>\<open>seginit\<close> puts the descriptors for kernel code and data and user code and data into the table of the
  CPU it runs on. The argument is the \<^verbatim>\<open>gdt\<close> field of every \<^verbatim>\<open>struct cpu\<close>.
\<close>

definition seginit :: "kernel \<Rightarrow> (nat \<Rightarrow> nat \<Rightarrow> segdesc) \<Rightarrow> (nat \<Rightarrow> nat \<Rightarrow> segdesc) result" where
  "seginit s gdt =
     bindr (cpuid s) (\<lambda>c. Inr (gdt(c := (gdt c)(1 := SEG (0x8 OR 0x2) 0 0xffffffff 0, 2 := SEG 0x2 0 0xffffffff 0,
       3 := SEG (0x8 OR 0x2) 0 0xffffffff 3, 4 := SEG 0x2 0 0xffffffff 3))))"

record gatedesc =
  off_15_0 :: "16 word"
  gd_cs :: "16 word"
  gd_args :: "5 word"
  gd_rsv1 :: "3 word"
  gd_type :: "4 word"
  gd_s :: "1 word"
  gd_dpl :: "2 word"
  gd_p :: "1 word"
  off_31_16 :: "16 word"

definition SETGATE :: "bool \<Rightarrow> 16 word \<Rightarrow> uint \<Rightarrow> 2 word \<Rightarrow> gatedesc" where
  "SETGATE istrap sel off d =
     \<lparr>off_15_0 = ucast (off AND 0xffff), gd_cs = sel, gd_args = 0, gd_rsv1 = 0, gd_type = (if istrap then 0xF else 0xE),
      gd_s = 0, gd_dpl = d, gd_p = 1, off_31_16 = ucast (drop_bit 16 off)\<rparr>"

text \<open>\<open>vectors\<close> is the table of entry points generated into \<^verbatim>\<open>vectors.S\<close>.\<close>

definition tvinit :: "(nat \<Rightarrow> uint) \<Rightarrow> (nat \<Rightarrow> gatedesc) \<Rightarrow> kernel \<Rightarrow> (nat \<Rightarrow> gatedesc) \<times> kernel" where
  "tvinit vectors idt s =
     (let idt = fold (\<lambda>i idt. idt(i := SETGATE False (push_bit 3 SEG_KCODE) (vectors i) 0)) [0..<256] idt;
          idt = idt(64 := SETGATE True (push_bit 3 SEG_KCODE) (vectors 64) 3)
      in (idt, initlock Tickslock s))"

text \<open>The base and limit a descriptor stands for, and the entry point of a gate.\<close>

definition seg_base :: "segdesc \<Rightarrow> uint" where
  "seg_base d = ucast (base_15_0 d) OR push_bit 16 (ucast (base_23_16 d)) OR push_bit 24 (ucast (base_31_24 d))"

definition gate_off :: "gatedesc \<Rightarrow> uint" where
  "gate_off g = ucast (off_15_0 g) OR push_bit 16 (ucast (off_31_16 g))"

lemma low_masks: "(0xffff :: uint) = mask 16" "(0xff :: uint) = mask 8"
  by (simp_all add: mask_eq_exp_minus_1)

lemma gate_off_SETGATE: "gate_off (SETGATE istrap sel off d) = off"
  unfolding gate_off_def SETGATE_def low_masks
  by (rule bit_eqI) (auto simp: bit_simps not_less)

lemma seg_base_SEG: "seg_base (SEG type base lim dpl) = base"
proof (rule bit_word_eqI)
  fix n :: nat
  assume "n < LENGTH(32)"
  moreover have "24 + (n - 24) = n" if "\<not> n < 24" using that by simp
  ultimately show "bit (seg_base (SEG type base lim dpl)) n = bit base n"
    unfolding seg_base_def SEG_def low_masks
    by (cases "n < 24") (auto simp: bit_simps not_less)
qed

text \<open>
  C36. The interrupt descriptor table. After tvinit every one of the 256 gates is present, enters
  the kernel's code segment at its own vector, and is a system gate. A program in user mode can
  raise exactly one of them with an int instruction, the system call gate; it is a trap gate, so
  system calls run with interrupts on, and every other gate turns them off.
\<close>

theorem tvinit_only_syscall_from_user:
  assumes "i < 256" and "tvinit vectors idt s = (idt', t)"
  shows "gd_p (idt' i) = 1 \<and> gd_s (idt' i) = 0 \<and> gd_cs (idt' i) = 8 \<and> gate_off (idt' i) = vectors i \<and>
    (gd_dpl (idt' i) = 3 \<longleftrightarrow> i = 64) \<and> (gd_type (idt' i) = 0xF \<longleftrightarrow> i = 64) \<and> (i \<noteq> 64 \<longrightarrow> gd_dpl (idt' i) = 0 \<and> gd_type (idt' i) = 0xE)"
proof -
  have f: "fold (\<lambda>i idt. idt(i := g i)) [0..<n] idt i = (if i < n then g i else idt i)" for n and g :: "nat \<Rightarrow> gatedesc"
    by (induction n) auto
  then have "idt' i = (if i = 64 then SETGATE True (push_bit 3 SEG_KCODE) (vectors 64) 3 else SETGATE False (push_bit 3 SEG_KCODE) (vectors i) 0)"
    using assms by (auto simp: tvinit_def Let_def)
  then show ?thesis by (simp add: gate_off_SETGATE) (simp add: SETGATE_def)
qed

theorem tvinit_only_syscall_from_user_witness:
  "gd_dpl (fst (tvinit (\<lambda>i. of_nat (0x80100000 + 16 * i)) (\<lambda>_. SETGATE False 0 0 0) (booted 1)) 14) = 0"
proof -
  let ?r = "tvinit (\<lambda>i. of_nat (0x80100000 + 16 * i)) (\<lambda>_. SETGATE False 0 0 0) (booted 1)"
  show ?thesis using tvinit_only_syscall_from_user [of 14 _ _ _ "fst ?r" "snd ?r", OF _ prod.collapse [symmetric]] by simp
qed

section \<open>Starting the kernel\<close>

text \<open>
  \<^verbatim>\<open>startothers\<close>: the start code of \<^verbatim>\<open>entryother.S\<close> (\<open>code\<close>, \<open>len\<close> bytes) is copied to \<^verbatim>\<open>0x7000\<close>, and every other
  processor gets a stack, an entry point and a page table in the words below it. The wait for
  \<^verbatim>\<open>c->started\<close> reads a word that the other processor sets.
\<close>

function wait_started :: "nat \<Rightarrow> unit driver" where
  "wait_started c rs = bindi (ask (Load (of_nat c))) (\<lambda>v rs. if v = 0 then wait_started c rs else ret () rs) rs"
  by pat_completeness auto
termination
  by (relation "measure (\<lambda>(_, rs). length rs)") auto

declare wait_started.simps [simp del]

definition start_one :: "uint \<Rightarrow> uint \<Rightarrow> uint \<Rightarrow> nat \<Rightarrow> kernel \<Rightarrow> kernel driver" where
  "start_one lapic mpenter entrypgdir c s =
     bindi (lift (mycpu s)) (\<lambda>me.
     if c = me then ret s
     else
       bindi (lift (kalloc s)) (\<lambda>(stack, s).
       let code = P2V 0x7000;
           s = setw (code - 4) (stack + KSTACKSIZE) s;
           s = setw (code - 8) mpenter s;
           s = setw (code - 12) (V2P entrypgdir) s in
       thn (lapicstartap lapic (c_apicid (cpus s c)) (V2P code))
         (thn (wait_started c) (ret (s\<lparr>cpus := (cpus s)(c := (cpus s c)\<lparr>c_started := True\<rparr>)\<rparr>)))))"

primrec start_all :: "uint \<Rightarrow> uint \<Rightarrow> uint \<Rightarrow> nat list \<Rightarrow> kernel \<Rightarrow> kernel driver" where
  "start_all lapic mpenter entrypgdir [] s = ret s"
| "start_all lapic mpenter entrypgdir (c # cs) s =
     bindi (start_one lapic mpenter entrypgdir c s) (start_all lapic mpenter entrypgdir cs)"

definition startothers :: "uint \<Rightarrow> uint \<Rightarrow> uint \<Rightarrow> uint \<Rightarrow> uint \<Rightarrow> kernel \<Rightarrow> kernel driver" where
  "startothers lapic mpenter entrypgdir code len s =
     (let s = s\<lparr>mem := memmove (P2V 0x7000) code len (mem s)\<rparr>
      in start_all lapic mpenter entrypgdir [0..<ncpu s] s)"

text \<open>The page directory the other processors start with: 4 MB at address 0, mapped at 0 and at \<^verbatim>\<open>KERNBASE\<close>.\<close>

definition entrypgdir :: "nat \<Rightarrow> uint" where
  "entrypgdir i = (if i = 0 \<or> i = 512 then PTE_P OR PTE_W OR PTE_PS else 0)"

text \<open>\<^verbatim>\<open>mpmain\<close> up to its call of \<^verbatim>\<open>scheduler\<close>; \<^verbatim>\<open>idtinit\<close> loads the table built by \<^verbatim>\<open>tvinit\<close>.\<close>

definition mpmain :: "kernel \<Rightarrow> kernel result" where
  "mpmain s =
     bindr (cpuid s) (\<lambda>a. bindr (cpuid s) (\<lambda>b.
     bindr (cprintf (''cpu%d: starting %d'' @ [CHR 0x0A]) [Cword (of_nat a), Cword (of_nat b)] s) (\<lambda>s.
     bindr (mycpu s) (\<lambda>c. Inr (s\<lparr>cpus := (cpus s)(c := (cpus s c)\<lparr>c_started := True\<rparr>)\<rparr>)))))"

definition mpenter :: "uint \<Rightarrow> (nat \<Rightarrow> nat \<Rightarrow> segdesc) \<Rightarrow> kernel \<Rightarrow> ((nat \<Rightarrow> nat \<Rightarrow> segdesc) \<times> kernel) driver" where
  "mpenter lapic gdt s =
     (let s = switchkvm s in
      bindi (lift (seginit s gdt)) (\<lambda>gdt.
      thn (lapicinit lapic) (bindi (lift (mpmain s)) (\<lambda>s. ret (gdt, s)))))"

text \<open>
  \<^verbatim>\<open>main\<close> up to its call of \<^verbatim>\<open>scheduler\<close>. The arguments are addresses that the linker chooses, the entry
  vectors, and the initial program. A table on which \<^verbatim>\<open>mpinit\<close> does not return is the error \<open>Spins\<close>.
\<close>

record image =
  im_vectors :: "nat \<Rightarrow> uint"
  im_mpenter :: uint
  im_entrypgdir :: uint
  im_entryother :: uint
  im_entryother_size :: uint
  im_initcode :: bytes
  im_initcode_size :: uint

definition main :: "image \<Rightarrow> (nat \<Rightarrow> nat \<Rightarrow> segdesc) \<Rightarrow> kernel \<Rightarrow> ((nat \<Rightarrow> nat \<Rightarrow> segdesc) \<times> (nat \<Rightarrow> gatedesc) \<times> bool \<times> bool \<times> kernel) driver" where
  "main im gdt s =
     bindi (lift (kinit1 (kend s) (P2V 0x400000) s)) (\<lambda>s.
     bindi (lift (kvmalloc s)) (\<lambda>s.
     bindi (lift (case mpinit s of None \<Rightarrow> Inl Spins | Some r \<Rightarrow> r)) (\<lambda>(mp, lapic, ioapicid, s).
     thn (mpinit_imcr (mem s) mp) (
     thn (lapicinit lapic) (
     bindi (lift (seginit s gdt)) (\<lambda>gdt.
     thn picinit (
     bindi (ioapicinit ioapicid) (\<lambda>warn.
     bindi (lift (if warn then cprintf (''ioapicinit: id isn'' @ [CHR 0x27] @ ''t equal to ioapicid; not a MP'' @ [CHR 0x0A]) [] s else Inr s)) (\<lambda>s.
     let s = consoleinit s in
     thn (ioapicenable 1 0) (
     bindi uartinit (\<lambda>uart.
     let s = pinit s;
         (idt, s) = tvinit (im_vectors im) (\<lambda>_. SETGATE False 0 0 0) s;
         s = fileinit (binit s) in
     bindi (ideinit_pio s) (\<lambda>(havedisk1, s).
     bindi (startothers lapic (im_mpenter im) (im_entrypgdir im) (im_entryother im) (im_entryother_size im) s) (\<lambda>s.
     bindi (lift (kinit2 (P2V 0x400000) (P2V PHYSTOP) s)) (\<lambda>s.
     bindi (lift (userinit (im_initcode im) (im_initcode_size im) s)) (\<lambda>s.
     bindi (lift (mpmain s)) (\<lambda>s. ret (gdt, idt, uart, havedisk1, s)))))))))))))))))"

end
