(* ===== verification/User.thy ===== *)
theory User
  imports Interact Cstring
begin

text \<open>
  The user side of the system calls (\<^verbatim>\<open>usys.S\<close>, \<^verbatim>\<open>user.h\<close>) and the library that the programs share: strings
  and input (\<^verbatim>\<open>ulib.c\<close>) and formatted output (\<^verbatim>\<open>printf.c\<close>). A program is a conversation with the kernel:
  its requests are system calls, the answers are what the kernel returns. A C string is the list of
  the characters before its NUL, and a pointer into it the suffix it points at.
\<close>

datatype ucall =
    U_fork | U_exit | U_wait | U_pipe | U_read int int | U_write int string | U_close int | U_kill int
  | U_exec string "string list" | U_open string int | U_mknod string int int | U_unlink string | U_fstat int
  | U_link string string | U_mkdir string | U_chdir string | U_dup int | U_getpid | U_sbrk int | U_sleep int | U_uptime
  | U_procstat | U_plevelstat | U_nice int | U_semget int int | U_semfree int | U_semdown int | U_semup int

text \<open>
  An answer: the value returned, the bytes that a \<^verbatim>\<open>read\<close> puts into its buffer, and the numbers that
  \<^verbatim>\<open>pipe\<close> and \<^verbatim>\<open>fstat\<close> store through their pointer (the descriptors; type, inode number and size).
\<close>

record ureply =
  u_val :: int
  u_data :: string
  u_nums :: "int list"

type_synonym 'a user = "(ucall, ureply, 'a) io"

definition sys :: "ucall \<Rightarrow> int user" where
  "sys c = bindi (ask c) (\<lambda>r. ret (u_val r))"

definition exit :: "'a user" where
  "exit = bindi (tell U_exit) (\<lambda>_. quit)"

definition O_RDONLY :: int where [simp]: "O_RDONLY = 0"
definition O_WRONLY :: int where [simp]: "O_WRONLY = 1"
definition O_RDWR :: int where [simp]: "O_RDWR = 2"
definition O_CREATE :: int where [simp]: "O_CREATE = 0x200"

abbreviation NL :: char where "NL \<equiv> CHR 0x0A"

section \<open>Strings (\<^verbatim>\<open>ulib.c\<close>)\<close>

fun strcmp :: "string \<Rightarrow> string \<Rightarrow> int" where
  "strcmp (p # ps) (q # qs) = (if p = q then strcmp ps qs else of_char p - of_char q)"
| "strcmp [] (q # qs) = - of_char q"
| "strcmp (p # ps) [] = of_char p"
| "strcmp [] [] = 0"

primrec ustrlen :: "string \<Rightarrow> int" where
  "ustrlen [] = 0"
| "ustrlen (c # cs) = 1 + ustrlen cs"

primrec strchr :: "string \<Rightarrow> char \<Rightarrow> string option" where
  "strchr [] c = None"
| "strchr (x # xs) c = (if x = c then Some (x # xs) else strchr xs c)"

text \<open>\<^verbatim>\<open>atoi\<close> with \<^verbatim>\<open>n\<close> as argument; the C sum may leave the range of \<^verbatim>\<open>int\<close>, where it is undefined.\<close>

fun atoi_loop :: "int \<Rightarrow> string \<Rightarrow> int result" where
  "atoi_loop n (c # cs) =
     (if 48 \<le> (of_char c :: nat) \<and> of_char c \<le> (57 :: nat) then
        let n' = n * 10 + of_char c - 48 in
        if n * 10 + of_char c \<le> 2147483647 then atoi_loop n' cs else Inl Overflow
      else Inr n)"
| "atoi_loop n [] = Inr n"

definition atoi :: "string \<Rightarrow> int result" where
  "atoi s = atoi_loop 0 s"

text \<open>The loop of \<^verbatim>\<open>gets\<close>; \<open>acc\<close> is what is in the buffer.\<close>

function gets_loop :: "int \<Rightarrow> string \<Rightarrow> string user" where
  "gets_loop maxn acc rs =
     (if int (length acc) + 1 < maxn then
        bindi (ask (U_read 0 1)) (\<lambda>r rs.
          if u_val r < 1 then ret acc rs
          else
            case u_data r of
              [] \<Rightarrow> fault Uninit rs
            | c # _ \<Rightarrow> if c = NL \<or> c = CHR 0x0D then ret (acc @ [c]) rs else gets_loop maxn (acc @ [c]) rs) rs
      else ret acc rs)"
  by pat_completeness auto
termination
  by (relation "measure (\<lambda>(_, _, rs). length rs)") auto

declare gets_loop.simps [simp del]

definition gets :: "int \<Rightarrow> string user" where
  "gets maxn = gets_loop maxn []"

definition stat_u :: "string \<Rightarrow> (int \<times> int list) user" where
  "stat_u n =
     bindi (sys (U_open n O_RDONLY)) (\<lambda>fd.
     if fd < 0 then ret (-1, [])
     else bindi (ask (U_fstat fd)) (\<lambda>r. bindi (sys (U_close fd)) (\<lambda>_. ret (u_val r, u_nums r))))"

text \<open>On a buffer: \<^verbatim>\<open>strcpy\<close> of a string with its NUL, \<^verbatim>\<open>memset\<close>, and \<^verbatim>\<open>memmove\<close>, which copies upwards always.\<close>

primrec strcpy :: "bytes \<Rightarrow> nat \<Rightarrow> string \<Rightarrow> bytes" where
  "strcpy s i [] = s(i := 0)"
| "strcpy s i (c # cs) = strcpy (s(i := of_char c)) (i + 1) cs"

primrec memset_u :: "bytes \<Rightarrow> nat \<Rightarrow> uchar \<Rightarrow> nat \<Rightarrow> bytes" where
  "memset_u s i c 0 = s"
| "memset_u s i c (Suc n) = memset_u (s(i := c)) (i + 1) c n"

primrec memmove_loop :: "bytes \<Rightarrow> nat \<Rightarrow> nat \<Rightarrow> nat \<Rightarrow> bytes" where
  "memmove_loop m dst src 0 = m"
| "memmove_loop m dst src (Suc n) = memmove_loop (m(dst := m src)) (dst + 1) (src + 1) n"

definition memmove_u :: "bytes \<Rightarrow> nat \<Rightarrow> nat \<Rightarrow> int \<Rightarrow> bytes" where
  "memmove_u m dst src n = memmove_loop m dst src (nat n)"

section \<open>Formatted output (\<^verbatim>\<open>printf.c\<close>)\<close>

text \<open>An argument: a word, or a pointer to a string, which may be null.\<close>

datatype uarg = Uword uint | Ustr "string option"

definition putc :: "int \<Rightarrow> char \<Rightarrow> unit user" where
  "putc fd c = bindi (sys (U_write fd [c])) (\<lambda>_. ret ())"

definition puts :: "int \<Rightarrow> string \<Rightarrow> unit user" where
  "puts fd cs = seqi (map (putc fd) cs)"

definition digit_u :: "uint \<Rightarrow> char" where
  "digit_u d = ''0123456789ABCDEF'' ! unat d"

text \<open>The digits of \<open>x\<close>, the last one first, as the loop of \<^verbatim>\<open>printint\<close> puts them into its buffer.\<close>

function digits_u :: "uint \<Rightarrow> uint \<Rightarrow> string" where
  "digits_u base x = digit_u (x mod base) # (if base \<le> 1 \<or> x div base = 0 then [] else digits_u base (x div base))"
  by pat_completeness auto
termination
  by (relation "measure (\<lambda>(base, x). unat x)")
    (auto simp: unat_div word_le_nat_alt not_le word_eq_iff_unsigned word_unat_eq_iff intro!: div_less_dividend gr0I)

declare digits_u.simps [simp del]

definition printint_u :: "int \<Rightarrow> uint \<Rightarrow> uint \<Rightarrow> bool \<Rightarrow> unit user" where
  "printint_u fd xx base sg =
     (let neg = sg \<and> sint xx < 0;
          x = (if neg then - xx else xx)
      in puts fd (rev (digits_u base x @ (if neg then ''-'' else []))))"

text \<open>
  The loop of \<^verbatim>\<open>printf\<close> over the format; the flag is \<^verbatim>\<open>state == '%'\<close>. Reading an argument that was not
  passed, or using a number as a string, is an error.
\<close>

fun printf_loop :: "int \<Rightarrow> string \<Rightarrow> bool \<Rightarrow> uarg list \<Rightarrow> unit user" where
  "printf_loop fd [] state ap = ret ()"
| "printf_loop fd (c # cs) False ap =
     (if c = CHR ''%'' then printf_loop fd cs True ap else thn (putc fd c) (printf_loop fd cs False ap))"
| "printf_loop fd (c # cs) True ap =
     (if c = CHR ''d'' \<or> c = CHR ''x'' \<or> c = CHR ''p'' \<or> c = CHR ''c'' then
        (case ap of
           Uword w # ap \<Rightarrow>
             thn (if c = CHR ''d'' then printint_u fd w 10 True
                  else if c = CHR ''c'' then putc fd (char_of (unat w mod 256))
                  else printint_u fd w 16 False)
               (printf_loop fd cs False ap)
         | _ \<Rightarrow> fault Uninit)
      else if c = CHR ''s'' then
        (case ap of
           Ustr s # ap \<Rightarrow> thn (puts fd (case s of None \<Rightarrow> ''(null)'' | Some s \<Rightarrow> s)) (printf_loop fd cs False ap)
         | _ \<Rightarrow> fault Uninit)
      else if c = CHR ''%'' then thn (putc fd c) (printf_loop fd cs False ap)
      else thn (thn (putc fd CHR ''%'') (putc fd c)) (printf_loop fd cs False ap))"

definition printf :: "int \<Rightarrow> string \<Rightarrow> uarg list \<Rightarrow> unit user" where
  "printf fd fmt ap = printf_loop fd fmt False ap"

section \<open>Answers used up\<close>

lemma sys_less: "sys c rs = (qs, Done v ss) \<Longrightarrow> length ss < length rs"
  by (auto simp: sys_def bindi_Done)

lemma suffixing_sys [simp]: "suffixing (sys c)"
  by (auto simp: sys_def)

lemma suffixing_keeps [simp]: "suffixing (\<lambda>rs. ([], Done a rs))"
  by (simp add: suffixing_def)

lemma suffixing_if [intro]: "suffixing m \<Longrightarrow> suffixing n \<Longrightarrow> suffixing (if b then m else n)"
  by simp

lemma suffixing_putc [simp]: "suffixing (putc fd c)"
  by (auto simp: putc_def)

lemma suffixing_puts [simp]: "suffixing (puts fd cs)"
  by (induction cs) (auto simp: puts_def)

lemma suffixing_printint [simp]: "suffixing (printint_u fd x b g)"
  by (simp add: printint_u_def Let_def)

lemma suffixing_printf_loop [simp]: "suffixing (printf_loop fd fmt st ap)"
proof (induction fd fmt st ap rule: printf_loop.induct)
  case (3 fd c cs ap)
  show ?case using 3 by (auto intro!: suffixing_bindi split: list.split uarg.split option.split)
qed auto

lemma suffixing_printf [simp]: "suffixing (printf fd fmt ap)"
  by (simp add: printf_def)

lemma suffixing_stat_u [simp]: "suffixing (stat_u n)"
  unfolding stat_u_def by (intro suffixing_bindi suffixing_if) auto

lemma suffixing_exit [simp]: "suffixing exit"
  by (auto simp: exit_def)

end
