(* ===== verification/Grep.thy ===== *)
theory Grep
  imports User
begin

text \<open>
  \<^verbatim>\<open>grep.c\<close>: the regular expression matcher, the loop over the lines of a file, and the program.
\<close>

abbreviation NUL :: char where "NUL \<equiv> CHR 0x00"

section \<open>The matcher\<close>

fun matchhere :: "string \<Rightarrow> string \<Rightarrow> bool" and matchstar :: "char \<Rightarrow> string \<Rightarrow> string \<Rightarrow> bool" where
  "matchhere re text =
     (case re of
        [] \<Rightarrow> True
      | c # re1 \<Rightarrow>
          if re1 \<noteq> [] \<and> hd re1 = CHR ''*'' then matchstar c (tl re1) text
          else if c = CHR ''$'' \<and> re1 = [] then text = []
          else (case text of [] \<Rightarrow> False | x # text1 \<Rightarrow> (c = CHR ''.'' \<or> c = x) \<and> matchhere re1 text1))"
| "matchstar c re text =
     (matchhere re text \<or>
      (case text of [] \<Rightarrow> False | x # text1 \<Rightarrow> (x = c \<or> c = CHR ''.'') \<and> matchstar c re text1))"

declare matchhere.simps [simp del] matchstar.simps [simp del]

primrec match_from :: "string \<Rightarrow> string \<Rightarrow> bool" where
  "match_from re [] = matchhere re []"
| "match_from re (x # text) = (matchhere re (x # text) \<or> match_from re text)"

definition match :: "string \<Rightarrow> string \<Rightarrow> bool" where
  "match re text =
     (if re \<noteq> [] \<and> hd re = CHR ''^'' then matchhere (tl re) text else match_from re text)"

section \<open>What the patterns mean\<close>

text \<open>
  A pattern is a sequence of items: a character, any number of times a character, or the end of
  the line, which \<open>$\<close> stands for only as the last character. The full stop fits every character.
\<close>

datatype item = One char | Star char | End

fun items :: "string \<Rightarrow> item list" where
  "items [] = []"
| "items [c] = (if c = CHR ''$'' then [End] else [One c])"
| "items (c # d # re) = (if d = CHR ''*'' then Star c # items re else One c # items (d # re))"

definition fits :: "char \<Rightarrow> char \<Rightarrow> bool" where
  "fits c x \<longleftrightarrow> c = CHR ''.'' \<or> c = x"

text \<open>\<open>starts is t\<close>: some beginning of \<open>t\<close> is an instance of the items.\<close>

primrec starts :: "item list \<Rightarrow> string \<Rightarrow> bool" where
  "starts [] t \<longleftrightarrow> True"
| "starts (i # is) t \<longleftrightarrow> (case i of
     One c \<Rightarrow> (\<exists>x v. t = x # v \<and> fits c x \<and> starts is v)
   | Star c \<Rightarrow> (\<exists>u v. t = u @ v \<and> (\<forall>x \<in> set u. fits c x) \<and> starts is v)
   | End \<Rightarrow> t = [])"

definition denotes :: "string \<Rightarrow> string \<Rightarrow> bool" where
  "denotes re t \<longleftrightarrow> (case re of
     CHR ''^'' # re' \<Rightarrow> starts (items re') t
   | _ \<Rightarrow> (\<exists>u v. t = u @ v \<and> starts (items re) v))"

lemma starts_Star:
  "starts (Star c # is) t \<longleftrightarrow> starts is t \<or> (\<exists>x v. t = x # v \<and> fits c x \<and> starts (Star c # is) v)"
proof
  assume "starts (Star c # is) t"
  then obtain u v where "t = u @ v" "\<forall>x \<in> set u. fits c x" "starts is v" by auto
  then show "starts is t \<or> (\<exists>x v. t = x # v \<and> fits c x \<and> starts (Star c # is) v)"
    by (cases u) auto
next
  assume "starts is t \<or> (\<exists>x v. t = x # v \<and> fits c x \<and> starts (Star c # is) v)"
  then show "starts (Star c # is) t"
  proof
    assume "starts is t"
    then show ?thesis by (auto intro: exI [of _ "[]"])
  next
    assume "\<exists>x v. t = x # v \<and> fits c x \<and> starts (Star c # is) v"
    then obtain x u v where "t = (x # u) @ v" "\<forall>y \<in> set (x # u). fits c y" "starts is v" by auto
    then have "\<exists>u v. t = u @ v \<and> (\<forall>x \<in> set u. fits c x) \<and> starts is v" by blast
    then show ?thesis by simp
  qed
qed

lemma match_items:
  "matchhere re t \<longleftrightarrow> starts (items re) t"
  "matchstar c re t \<longleftrightarrow> starts (Star c # items re) t"
proof (induction re t and c re t rule: matchhere_matchstar.induct)
  case (1 re t)
  show ?case
  proof (cases re)
    case Nil
    then show ?thesis by (simp add: matchhere.simps)
  next
    case (Cons c re1)
    show ?thesis
    proof (cases "re1 \<noteq> [] \<and> hd re1 = CHR ''*''")
      case True
      then obtain re2 where "re1 = CHR ''*'' # re2" by (cases re1) auto
      then show ?thesis using Cons 1(1) [OF Cons True] by (simp add: matchhere.simps)
    next
      case no: False
      show ?thesis
      proof (cases "c = CHR ''$'' \<and> re1 = []")
        case True
        then show ?thesis using Cons by (simp add: matchhere.simps)
      next
        case False
        have "items re = One c # items re1" using Cons no False by (cases re1) auto
        moreover have "matchhere re t = (case t of [] \<Rightarrow> False | x # t1 \<Rightarrow> (c = CHR ''.'' \<or> c = x) \<and> matchhere re1 t1)"
          using Cons no False by (subst matchhere.simps) auto
        ultimately show ?thesis using 1(2) [OF Cons no False] by (cases t) (auto simp: fits_def)
      qed
    qed
  qed
next
  case (2 c re t)
  then show ?case
    by (subst matchstar.simps, subst starts_Star) (auto simp: fits_def split: list.splits)
qed

lemma match_from_suffix: "match_from re t \<longleftrightarrow> (\<exists>u v. t = u @ v \<and> matchhere re v)"
proof (induction t)
  case (Cons x t)
  then show ?case by (auto simp: Cons_eq_append_conv)
qed simp

text \<open>
  C31. The regular expression matcher of grep decides what its patterns mean: match finds a line
  exactly when the items of the pattern (characters, repeated characters, and the end of line)
  fit consecutive pieces of the line, from its start if the pattern begins with a circumflex and
  from any place otherwise.
\<close>

theorem match_decides: "match re text \<longleftrightarrow> denotes re text"
proof (cases "re \<noteq> [] \<and> hd re = CHR ''^''")
  case True
  then obtain r where "re = CHR ''^'' # r" by (cases re) auto
  then show ?thesis by (simp add: match_def denotes_def match_items)
next
  case False
  then have "denotes re text = (\<exists>u v. text = u @ v \<and> starts (items re) v)"
    by (cases re) (auto simp: denotes_def split: char.splits bool.splits)
  then show ?thesis using False by (auto simp add: match_def match_from_suffix match_items)
qed

section \<open>The program\<close>

text \<open>
  The inner loop of \<^verbatim>\<open>grep\<close> on what the buffer holds from \<^verbatim>\<open>p\<close> on: \<^verbatim>\<open>strchr\<close> looks for a newline before the next
  NUL. The result is what is left from the final \<^verbatim>\<open>p\<close> on.
\<close>

lemma line_shorter: "c \<in> set (takeWhile P p) \<Longrightarrow> length p - Suc n < length p"
  by (cases p) auto

function grep_lines :: "string \<Rightarrow> string \<Rightarrow> string user" where
  "grep_lines pattern p rs =
     (if NL \<in> set (takeWhile (\<lambda>c. c \<noteq> NUL) p) then
        let line = takeWhile (\<lambda>c. c \<noteq> NL) p in
        if match pattern line
        then bindi (ask (U_write 1 (line @ [NL]))) (\<lambda>_ rs. grep_lines pattern (drop (length line + 1) p) rs) rs
        else grep_lines pattern (drop (length line + 1) p) rs
      else ret p rs)"
  by pat_completeness auto
termination
  by (relation "measure (\<lambda>(_, p, _). length p)") (auto intro: line_shorter)

declare grep_lines.simps [simp del]

lemma grep_lines_le: "grep_lines pattern p rs = (qs, Done q ss) \<Longrightarrow> length ss \<le> length rs"
proof (induction pattern p rs arbitrary: qs rule: grep_lines.induct)
  case (1 pattern p rs)
  let ?line = "takeWhile (\<lambda>c. c \<noteq> NL) p"
  show ?case
  proof (cases "NL \<in> set (takeWhile (\<lambda>c. c \<noteq> NUL) p)")
    case nl: True
    show ?thesis
    proof (cases "match pattern ?line")
      case True
      then obtain r rs1 q2 where "rs = r # rs1" "grep_lines pattern (drop (length ?line + 1) p) rs1 = (q2, Done q ss)"
        using "1.prems" nl by (subst (asm) grep_lines.simps) (auto simp: Let_def bindi_Done)
      then show ?thesis using "1.IH"(1) [OF nl refl True] by fastforce
    next
      case False
      then show ?thesis using "1.prems" "1.IH"(2) [OF nl refl False] nl by (subst (asm) grep_lines.simps) (simp add: Let_def)
    qed
  next
    case False
    then show ?thesis using "1.prems" by (subst (asm) grep_lines.simps) simp
  qed
qed

text \<open>The outer loop; \<open>buf\<close> is what the buffer of 1024 bytes holds, \<^verbatim>\<open>m\<close> bytes of it.\<close>

function grep_loop :: "string \<Rightarrow> int \<Rightarrow> string \<Rightarrow> unit user" where
  "grep_loop pattern fd buf rs =
     bindi (ask (U_read fd (1024 - int (length buf) - 1))) (\<lambda>r rs.
       if u_val r > 0 then
         bindi (grep_lines pattern (buf @ take (nat (u_val r)) (u_data r))) (\<lambda>p rs.
           grep_loop pattern fd (if length p = length (buf @ take (nat (u_val r)) (u_data r)) then [] else p) rs) rs
       else ret () rs) rs"
  by pat_completeness auto
termination
  by (relation "measure (\<lambda>(_, _, _, rs). length rs)") (auto dest!: grep_lines_le)

declare grep_loop.simps [simp del]

definition grep :: "string \<Rightarrow> int \<Rightarrow> unit user" where
  "grep pattern fd = grep_loop pattern fd []"

primrec grep_files :: "string \<Rightarrow> string list \<Rightarrow> unit user" where
  "grep_files pattern [] = exit"
| "grep_files pattern (f # fs) =
     bindi (sys (U_open f 0)) (\<lambda>fd.
     if fd < 0 then thn (printf 1 (''grep: cannot open %s'' @ [NL]) [Ustr (Some f)]) exit
     else thn (grep pattern fd) (bindi (sys (U_close fd)) (\<lambda>_. grep_files pattern fs)))"

definition grep_main :: "string list \<Rightarrow> unit user" where
  "grep_main argv =
     (case argv of
        _ # pattern # files \<Rightarrow> if files = [] then thn (grep pattern 0) exit else grep_files pattern files
      | _ \<Rightarrow> thn (printf 2 (''usage: grep pattern [file ...]'' @ [NL]) []) exit)"

section \<open>What is printed\<close>

definition plain :: "string \<Rightarrow> bool" where
  "plain l \<longleftrightarrow> NL \<notin> set l \<and> NUL \<notin> set l"

definition lines :: "string list \<Rightarrow> string" where
  "lines ls = concat (map (\<lambda>l. l @ [NL]) ls)"

definition got_data :: "string \<Rightarrow> ureply" where
  "got_data d = \<lparr>u_val = int (length d), u_data = d, u_nums = []\<rparr>"

lemma takeWhile_line: "plain l \<Longrightarrow> takeWhile (\<lambda>c. c \<noteq> NL) (l @ NL # t) = l"
    "plain l \<Longrightarrow> NL \<in> set (takeWhile (\<lambda>c. c \<noteq> NUL) (l @ NL # t))"
  by (induction l) (auto simp: plain_def)

lemma grep_lines_step:
  assumes "plain l"
  shows "grep_lines pat (l @ NL # t) rs =
    (if match pat l then bindi (ask (U_write 1 (l @ [NL]))) (\<lambda>_. grep_lines pat t) rs else grep_lines pat t rs)"
  using assms by (subst grep_lines.simps) (simp add: takeWhile_line Let_def)

lemma grep_lines_plain: "plain t \<Longrightarrow> grep_lines pat t rs = ([], Done t rs)"
proof -
  assume "plain t"
  then have "NL \<notin> set (takeWhile (\<lambda>c. c \<noteq> NUL) t)" by (auto simp: plain_def dest: set_takeWhileD)
  then show ?thesis by (subst grep_lines.simps) simp
qed

lemma grep_lines_all:
  assumes "\<forall>l \<in> set ls. plain l" and "length ws = length (filter (match pat) ls)"
  shows "grep_lines pat (lines ls) (ws @ rs) = (map (\<lambda>l. U_write 1 (l @ [NL])) (filter (match pat) ls), Done [] rs)"
  using assms
proof (induction ls arbitrary: ws)
  case Nil
  then show ?case using grep_lines_plain [of "[]"] by (simp add: lines_def plain_def)
next
  case (Cons l ls)
  have e: "lines (l # ls) = l @ NL # lines ls" by (simp add: lines_def)
  show ?case
  proof (cases "match pat l")
    case True
    then obtain w ws' where "ws = w # ws'" "length ws' = length (filter (match pat) ls)" using Cons.prems(2) by (cases ws) auto
    then show ?thesis using Cons True by (simp add: e grep_lines_step)
  next
    case False
    then show ?thesis using Cons by (simp add: e grep_lines_step)
  qed
qed

text \<open>Reads that deliver whole lines: the answers to the reads and to the writes they cause.\<close>

primrec grep_answers :: "string \<Rightarrow> string list list \<Rightarrow> ureply list list \<Rightarrow> ureply list" where
  "grep_answers pat [] wss = []"
| "grep_answers pat (ls # lss) wss = got_data (lines ls) # hd wss @ grep_answers pat lss (tl wss)"

definition grep_calls :: "string \<Rightarrow> int \<Rightarrow> string list \<Rightarrow> ucall list" where
  "grep_calls pat fd ls = U_read fd 1023 # map (\<lambda>l. U_write 1 (l @ [NL])) (filter (match pat) ls)"

lemma grep_loop_whole:
  assumes "\<forall>ls \<in> set lss. ls \<noteq> [] \<and> (\<forall>l \<in> set ls. plain l)"
    and "list_all2 (\<lambda>ls ws. length ws = length (filter (match pat) ls)) lss wss" and "u_val e \<le> 0"
  shows "grep_loop pat fd [] (grep_answers pat lss wss @ e # rest) = (concat (map (grep_calls pat fd) lss) @ [U_read fd 1023], Done () rest)"
  using assms(1,2)
proof (induction lss arbitrary: wss)
  case Nil
  then show ?case using assms(3) by (subst grep_loop.simps) simp
next
  case (Cons ls lss)
  then obtain ws wss' where w: "wss = ws # wss'" "length ws = length (filter (match pat) ls)"
      "list_all2 (\<lambda>ls ws. length ws = length (filter (match pat) ls)) lss wss'" by (auto simp: list_all2_Cons1)
  have ne: "lines ls \<noteq> []" using Cons.prems(1) by (cases ls) (auto simp: lines_def)
  have "grep_lines pat (lines ls) (ws @ grep_answers pat lss wss' @ e # rest) =
      (map (\<lambda>l. U_write 1 (l @ [NL])) (filter (match pat) ls), Done [] (grep_answers pat lss wss' @ e # rest))"
    using Cons.prems(1) w(2) by (intro grep_lines_all) simp_all
  then show ?case
    using Cons w ne by (subst grep_loop.simps) (simp add: got_data_def bindi_run grep_calls_def [of pat fd ls])
qed

text \<open>
  C32. grep on a file that arrives in whole lines, any number of them per read, does what it is
  for: between the reads it writes exactly the lines that match the pattern, each once, in
  order and with its newline, and it stops at the end of the file.
\<close>

theorem grep_prints_matching_lines:
  assumes "\<forall>ls \<in> set lss. ls \<noteq> [] \<and> (\<forall>l \<in> set ls. plain l)"
    and "list_all2 (\<lambda>ls ws. length ws = length (filter (match pat) ls)) lss wss" and "u_val e \<le> 0"
  shows "grep pat fd (grep_answers pat lss wss @ e # rest) = (concat (map (grep_calls pat fd) lss) @ [U_read fd 1023], Done () rest)"
  unfolding grep_def by (rule grep_loop_whole [OF assms])

theorem grep_prints_matching_lines_witness:
  "grep ''b'' 3 (grep_answers ''b'' [[''ab'', ''c''], [''b'']] [[got_data []], [got_data []]] @ got_data [] # []) =
     ([U_read 3 1023, U_write 1 (''ab'' @ [NL]), U_read 3 1023, U_write 1 (''b'' @ [NL]), U_read 3 1023], Done () [])"
proof -
  have m: "match ''b'' ''ab''" "match ''b'' ''b''" "\<not> match ''b'' ''c''" by (simp_all add: match_def matchhere.simps)
  then show ?thesis
    using grep_prints_matching_lines [of "[[''ab'', ''c''], [''b'']]" "''b''" "[[got_data []], [got_data []]]" "got_data []" 3 "[]"]
    by (simp add: plain_def got_data_def grep_calls_def)
qed

text \<open>
  C38. A line that arrives in two reads is not searched as a line. When a read delivers only the
  beginning of a line, grep forgets it: it sets m to 0 because no newline was found. What follows
  is exactly what happens when the file starts with the rest of that line.
\<close>

theorem grep_drops_split_line:
  assumes "plain a" and "a \<noteq> []"
  shows "grep pat fd (got_data a # rs) = (U_read fd 1023 # fst (grep pat fd rs), snd (grep pat fd rs))"
proof -
  have "grep_lines pat a rs = ([], Done a rs)" using grep_lines_plain [OF assms(1)] .
  then show ?thesis
    unfolding grep_def using assms(2) by (subst grep_loop.simps) (simp add: got_data_def bindi_run split: prod.split)
qed

theorem grep_drops_split_line_witness:
  "match ''ab'' ''ab'' \<and> grep ''ab'' 3 [got_data ''a'', got_data (''b'' @ [NL]), got_data []] =
     ([U_read 3 1023, U_read 3 1023, U_read 3 1023], Done () [])"
proof -
  have m: "match ''ab'' ''ab''" "\<not> match ''ab'' ''b''" by (simp_all add: match_def matchhere.simps)
  have "grep ''ab'' 3 [got_data (''b'' @ [NL]), got_data []] = ([U_read 3 1023, U_read 3 1023], Done () [])"
    using m grep_loop_whole [of "[[''b'']]" "''ab''" "[[]]" "got_data []" 3 "[]"]
    by (simp add: grep_def plain_def got_data_def grep_calls_def lines_def)
  then show ?thesis using m grep_drops_split_line [of "''a''" "''ab''" 3 "[got_data (''b'' @ [NL]), got_data []]"] by (simp add: plain_def)
qed

end
