(* ===== verification/Programs.thy ===== *)
theory Programs
  imports User
begin

text \<open>
  The small user programs: \<^verbatim>\<open>wc.c\<close>, \<^verbatim>\<open>cat.c\<close>, \<^verbatim>\<open>echo.c\<close>, \<^verbatim>\<open>kill.c\<close>, \<^verbatim>\<open>ln.c\<close>, \<^verbatim>\<open>mkdir.c\<close>, \<^verbatim>\<open>rm.c\<close>, \<^verbatim>\<open>nice.c\<close>, \<^verbatim>\<open>ls.c\<close>,
  \<^verbatim>\<open>init.c\<close>, \<^verbatim>\<open>zombie.c\<close>, \<^verbatim>\<open>stressfs.c\<close>, \<^verbatim>\<open>forktest.c\<close>, \<^verbatim>\<open>cowtest.c\<close> and \<^verbatim>\<open>prodcons.c\<close>. A program's arguments include its name.
\<close>

unbundle bit_operations_syntax

section \<open>wc\<close>

record wc_state =
  wc_l :: int
  wc_w :: int
  wc_c :: int
  wc_inword :: bool

definition wc_space :: "char \<Rightarrow> bool" where
  "wc_space x \<longleftrightarrow> strchr [CHR '' '', CHR 0x0D, CHR 0x09, NL, CHR 0x0B] x \<noteq> None"

definition wc_char :: "char \<Rightarrow> wc_state \<Rightarrow> wc_state" where
  "wc_char x st =
     (let st = st\<lparr>wc_c := wc_c st + 1\<rparr>;
          st = (if x = NL then st\<lparr>wc_l := wc_l st + 1\<rparr> else st)
      in if wc_space x then st\<lparr>wc_inword := False\<rparr>
         else if \<not> wc_inword st then st\<lparr>wc_w := wc_w st + 1, wc_inword := True\<rparr>
         else st)"

text \<open>The result is the state at the end, or none after a read error, which is reported.\<close>

function wc_loop :: "int \<Rightarrow> wc_state \<Rightarrow> wc_state user" where
  "wc_loop fd st rs =
     bindi (ask (U_read fd 512)) (\<lambda>r rs.
       if u_val r > 0 then wc_loop fd (fold wc_char (take (nat (u_val r)) (u_data r)) st) rs
       else if u_val r < 0 then thn (printf 1 (''wc: read error'' @ [NL]) []) exit rs
       else ret st rs) rs"
  by pat_completeness auto
termination
  by (relation "measure (\<lambda>(_, _, rs). length rs)") auto

declare wc_loop.simps [simp del]

definition wc :: "int \<Rightarrow> string \<Rightarrow> unit user" where
  "wc fd name =
     bindi (wc_loop fd \<lparr>wc_l = 0, wc_w = 0, wc_c = 0, wc_inword = False\<rparr>) (\<lambda>st.
     printf 1 (''%d %d %d %s'' @ [NL]) [Uword (word_of_int (wc_l st)), Uword (word_of_int (wc_w st)),
       Uword (word_of_int (wc_c st)), Ustr (Some name)])"

primrec wc_files :: "string list \<Rightarrow> unit user" where
  "wc_files [] = exit"
| "wc_files (f # fs) =
     bindi (sys (U_open f 0)) (\<lambda>fd.
     if fd < 0 then thn (printf 1 (''wc: cannot open %s'' @ [NL]) [Ustr (Some f)]) exit
     else thn (wc fd f) (bindi (sys (U_close fd)) (\<lambda>_. wc_files fs)))"

definition wc_main :: "string list \<Rightarrow> unit user" where
  "wc_main argv = (if length argv \<le> 1 then thn (wc 0 []) exit else wc_files (tl argv))"

section \<open>cat\<close>

function cat :: "int \<Rightarrow> unit user" where
  "cat fd rs =
     bindi (ask (U_read fd 512)) (\<lambda>r rs.
       if u_val r > 0 then
         bindi (ask (U_write 1 (take (nat (u_val r)) (u_data r)))) (\<lambda>w rs.
           if u_val w \<noteq> u_val r then thn (printf 1 (''cat: write error'' @ [NL]) []) exit rs
           else cat fd rs) rs
       else if u_val r < 0 then thn (printf 1 (''cat: read error'' @ [NL]) []) exit rs
       else ret () rs) rs"
  by pat_completeness auto
termination
  by (relation "measure (\<lambda>(_, rs). length rs)") auto

declare cat.simps [simp del]

primrec cat_files :: "string list \<Rightarrow> unit user" where
  "cat_files [] = exit"
| "cat_files (f # fs) =
     bindi (sys (U_open f 0)) (\<lambda>fd.
     if fd < 0 then thn (printf 1 (''cat: cannot open %s'' @ [NL]) [Ustr (Some f)]) exit
     else thn (cat fd) (bindi (sys (U_close fd)) (\<lambda>_. cat_files fs)))"

definition cat_main :: "string list \<Rightarrow> unit user" where
  "cat_main argv = (if length argv \<le> 1 then thn (cat 0) exit else cat_files (tl argv))"

section \<open>Programs that make a call per argument\<close>

primrec echo_args :: "string list \<Rightarrow> unit user" where
  "echo_args [] = exit"
| "echo_args (a # as) =
     thn (printf 1 ''%s%s'' [Ustr (Some a), Ustr (Some (if as \<noteq> [] then '' '' else [NL]))]) (echo_args as)"

definition echo_main :: "string list \<Rightarrow> unit user" where
  "echo_main argv = echo_args (tl argv)"

primrec kill_args :: "string list \<Rightarrow> unit user" where
  "kill_args [] = exit"
| "kill_args (a # as) = bindi (lift (atoi a)) (\<lambda>n. bindi (sys (U_kill n)) (\<lambda>_. kill_args as))"

definition kill_main :: "string list \<Rightarrow> unit user" where
  "kill_main argv =
     (if length argv < 2 then thn (printf 2 (''usage: kill pid...'' @ [NL]) []) exit else kill_args (tl argv))"

definition ln_main :: "string list \<Rightarrow> unit user" where
  "ln_main argv =
     (if length argv \<noteq> 3 then thn (printf 2 (''Usage: ln old new'' @ [NL]) []) exit
      else bindi (sys (U_link (argv ! 1) (argv ! 2))) (\<lambda>r.
        if r < 0 then thn (printf 2 (''link %s %s: failed'' @ [NL]) [Ustr (Some (argv ! 1)), Ustr (Some (argv ! 2))]) exit
        else exit))"

primrec mkdir_args :: "string list \<Rightarrow> unit user" where
  "mkdir_args [] = exit"
| "mkdir_args (a # as) =
     bindi (sys (U_mkdir a)) (\<lambda>r.
     if r < 0 then thn (printf 2 (''mkdir: %s failed to create'' @ [NL]) [Ustr (Some a)]) exit else mkdir_args as)"

definition mkdir_main :: "string list \<Rightarrow> unit user" where
  "mkdir_main argv =
     (if length argv < 2 then thn (printf 2 (''Usage: mkdir files...'' @ [NL]) []) exit else mkdir_args (tl argv))"

primrec rm_args :: "string list \<Rightarrow> unit user" where
  "rm_args [] = exit"
| "rm_args (a # as) =
     bindi (sys (U_unlink a)) (\<lambda>r.
     if r < 0 then thn (printf 2 (''rm: %s failed to delete'' @ [NL]) [Ustr (Some a)]) exit else rm_args as)"

definition rm_main :: "string list \<Rightarrow> unit user" where
  "rm_main argv =
     (if length argv < 2 then thn (printf 2 (''Usage: rm files...'' @ [NL]) []) exit else rm_args (tl argv))"

text \<open>
  \<^verbatim>\<open>nice\<close> converts \<^verbatim>\<open>argv[1]\<close> before it looks at \<^verbatim>\<open>argc\<close>; without arguments that is a null pointer. The
  vector handed to \<^verbatim>\<open>exec\<close> has room for the command and its arguments only and no null pointer at its
  end; \<open>behind\<close> is what the words behind it on the stack point to, up to the first null pointer.
\<close>

definition nice_main :: "string list \<Rightarrow> string list \<Rightarrow> unit user" where
  "nice_main behind argv =
     (if length argv < 2 then fault Null_Deref
      else
        bindi (lift (atoi (argv ! 1))) (\<lambda>inc.
        if length argv < 3 then thn (printf 1 (''Usage: nice PRIORITY COMMAND'' @ [NL]) []) exit
        else
          bindi (sys U_fork) (\<lambda>pid.
          if pid = 0 then
            bindi (sys (U_nice inc)) (\<lambda>_.
            bindi (sys (U_exec (argv ! 2) (drop 2 argv @ behind))) (\<lambda>_.
            thn (printf 2 (''exec failed'' @ [NL]) []) exit))
          else bindi (sys U_wait) (\<lambda>_. exit))))"

definition zombie_main :: "unit user" where
  "zombie_main = bindi (sys U_fork) (\<lambda>pid. if pid > 0 then bindi (sys (U_sleep 5)) (\<lambda>_. exit) else exit)"

section \<open>ls\<close>

text \<open>The name after the last slash, padded with blanks to 14 characters.\<close>

definition fmtname :: "string \<Rightarrow> string" where
  "fmtname path =
     (let p = rev (takeWhile (\<lambda>c. c \<noteq> CHR ''/'') (rev path))
      in if length p \<ge> 14 then p else p @ replicate (14 - length p) (CHR '' ''))"

definition ls_line :: "string \<Rightarrow> int list \<Rightarrow> unit user" where
  "ls_line path st =
     printf 1 (''%s %d %d %d'' @ [NL])
       [Ustr (Some (fmtname path)), Uword (word_of_int (st ! 0)), Uword (word_of_int (st ! 1)), Uword (word_of_int (st ! 2))]"

text \<open>
  The loop over the entries of a directory. An answer to the read carries the inode number of the
  entry and, as its data, the name up to its NUL.
\<close>

lemma suffixing_ls_line [simp]: "suffixing (ls_line p st)"
  by (simp add: ls_line_def)

definition ls_entry :: "string \<Rightarrow> ureply \<Rightarrow> unit user" where
  "ls_entry path r =
     (if u_nums r = [] \<or> u_nums r ! 0 = 0 then ret ()
      else
        let buf = path @ ''/'' @ take 14 (u_data r) in
        bindi (stat_u buf) (\<lambda>(v, st).
        if v < 0 then printf 1 (''ls: cannot stat %s'' @ [NL]) [Ustr (Some buf)]
        else ls_line buf st))"

lemma suffixing_ls_entry [simp]: "suffixing (ls_entry p r)"
  by (auto simp: ls_entry_def Let_def split: prod.split)

function ls_entries :: "int \<Rightarrow> string \<Rightarrow> unit user" where
  "ls_entries fd path rs =
     bindi (ask (U_read fd 16)) (\<lambda>r rs.
       if u_val r = 16 then bindi (ls_entry path r) (\<lambda>_ rs. ls_entries fd path rs) rs
       else ret () rs) rs"
  by pat_completeness auto
termination
  by (relation "measure (\<lambda>(_, _, rs). length rs)") (auto dest!: suffixingD [OF suffixing_ls_entry])

declare ls_entries.simps [simp del]

definition ls :: "string \<Rightarrow> unit user" where
  "ls path =
     bindi (sys (U_open path 0)) (\<lambda>fd.
     if fd < 0 then printf 2 (''ls: cannot open %s'' @ [NL]) [Ustr (Some path)]
     else
       bindi (ask (U_fstat fd)) (\<lambda>st.
       if u_val st < 0 then
         thn (printf 2 (''ls: cannot stat %s'' @ [NL]) [Ustr (Some path)]) (bindi (sys (U_close fd)) (\<lambda>_. ret ()))
       else
         thn (if u_nums st ! 0 = 2 then ls_line path (u_nums st)
              else if u_nums st ! 0 = 1 then
                if length path + 1 + 14 + 1 > 512 then printf 1 (''ls: path too long'' @ [NL]) []
                else ls_entries fd path
              else ret ())
         (bindi (sys (U_close fd)) (\<lambda>_. ret ()))))"

primrec ls_args :: "string list \<Rightarrow> unit user" where
  "ls_args [] = exit"
| "ls_args (a # as) = thn (ls a) (ls_args as)"

definition ls_main :: "string list \<Rightarrow> unit user" where
  "ls_main argv = (if length argv < 2 then thn (ls ''.'') exit else ls_args (tl argv))"

section \<open>init\<close>

text \<open>\<^verbatim>\<open>init\<close> never stops; a run goes as far as there are answers.\<close>

function init_reap :: "int \<Rightarrow> unit user" where
  "init_reap pid rs =
     bindi (sys U_wait) (\<lambda>wpid rs.
       if wpid \<ge> 0 \<and> wpid \<noteq> pid then bindi (printf 1 (''zombie!'' @ [NL]) []) (\<lambda>_ rs. init_reap pid rs) rs
       else ret () rs) rs"
  by pat_completeness auto
termination
  by (relation "measure (\<lambda>(_, rs). length rs)") (auto dest!: sys_less suffixingD [OF suffixing_printf])

declare init_reap.simps [simp del]

lemma init_reap_le: "init_reap pid rs = (qs, Done u ss) \<Longrightarrow> length ss \<le> length rs"
proof (induction pid rs arbitrary: qs rule: init_reap.induct)
  case (1 pid rs)
  obtain q1 w r1 q2 where s: "sys U_wait rs = (q1, Done w r1)"
      and k: "(if w \<ge> 0 \<and> w \<noteq> pid then bindi (printf 1 (''zombie!'' @ [NL]) []) (\<lambda>_ rs. init_reap pid rs) r1 else ret () r1) = (q2, Done u ss)"
    using "1.prems" by (subst (asm) init_reap.simps) (auto simp: bindi_Done)
  show ?case
  proof (cases "w \<ge> 0 \<and> w \<noteq> pid")
    case True
    then obtain q3 x r2 q4 where p: "printf 1 (''zombie!'' @ [NL]) [] r1 = (q3, Done x r2)" "init_reap pid r2 = (q4, Done u ss)"
      using k by (auto simp: bindi_Done)
    show ?thesis using "1.IH" [OF s True p(1) p(2)] sys_less [OF s] suffixingD [OF suffixing_printf p(1)] by simp
  next
    case False
    show ?thesis using k [unfolded if_not_P [OF False]] sys_less [OF s] by simp
  qed
qed

function init_loop :: "unit user" where
  "init_loop rs =
     bindi (printf 1 (''init: starting sh'' @ [NL]) []) (\<lambda>_ rs.
     bindi (sys U_fork) (\<lambda>pid rs.
       if pid < 0 then thn (printf 1 (''init: fork failed'' @ [NL]) []) exit rs
       else if pid = 0 then
         bindi (sys (U_exec ''sh'' [''sh''])) (\<lambda>_. thn (printf 1 (''init: exec sh failed'' @ [NL]) []) exit) rs
       else bindi (init_reap pid) (\<lambda>_ rs. init_loop rs) rs) rs) rs"
  by pat_completeness auto
termination
  by (relation "measure length") (auto dest!: sys_less init_reap_le suffixingD [OF suffixing_printf])

declare init_loop.simps [simp del]

definition init_main :: "unit user" where
  "init_main =
     bindi (sys (U_open ''console'' O_RDWR)) (\<lambda>fd.
     thn (if fd < 0 then bindi (sys (U_mknod ''console'' 1 1)) (\<lambda>_. bindi (sys (U_open ''console'' O_RDWR)) (\<lambda>_. ret ())) else ret ())
     (bindi (sys (U_dup 0)) (\<lambda>_. bindi (sys (U_dup 0)) (\<lambda>_. init_loop))))"

section \<open>Programs that exercise the kernel\<close>

text \<open>\<^verbatim>\<open>stressfs\<close>: \<open>i\<close> counts the forks that returned 0, up to the first that returned a child.\<close>

primrec stress_forks :: "nat \<Rightarrow> int \<Rightarrow> int user" where
  "stress_forks 0 i = ret i"
| "stress_forks (Suc n) i = bindi (sys U_fork) (\<lambda>pid. if pid > 0 then ret i else stress_forks n (i + 1))"

definition stressfs_main :: "unit user" where
  "stressfs_main =
     thn (printf 1 (''stressfs starting'' @ [NL]) [])
     (bindi (stress_forks 4 0) (\<lambda>i.
      thn (printf 1 (''write %d'' @ [NL]) [Uword (word_of_int i)])
      (let path = ''stressfs'' @ [char_of (48 + nat i)];
           data = replicate 512 (CHR ''a'') in
       bindi (sys (U_open path (O_CREATE + O_RDWR))) (\<lambda>fd.
       thn (seqi (replicate 20 (bindi (sys (U_write fd data)) (\<lambda>_. ret ()))))
       (bindi (sys (U_close fd)) (\<lambda>_.
        thn (printf 1 (''read'' @ [NL]) [])
        (bindi (sys (U_open path O_RDONLY)) (\<lambda>fd.
         thn (seqi (replicate 20 (bindi (sys (U_read fd 512)) (\<lambda>_. ret ()))))
         (bindi (sys (U_close fd)) (\<lambda>_. bindi (sys U_wait) (\<lambda>_. exit)))))))))))"

text \<open>
  \<^verbatim>\<open>forktest\<close> has a \<^verbatim>\<open>printf\<close> of its own that writes the format as it is. The first loop yields \<open>n\<close> and
  ends at \<open>N\<close> forks; the second waits for as many children.
\<close>

definition print_plain :: "int \<Rightarrow> string \<Rightarrow> unit user" where
  "print_plain fd s = bindi (sys (U_write fd s)) (\<lambda>_. ret ())"

primrec fork_all :: "nat \<Rightarrow> nat \<Rightarrow> nat user" where
  "fork_all 0 n = ret n"
| "fork_all (Suc k) n =
     bindi (sys U_fork) (\<lambda>pid.
     if pid < 0 then ret n
     else if pid = 0 then exit
     else thn (if n = 5 then bindi (sys U_procstat) (\<lambda>_. ret ()) else ret ()) (fork_all k (n + 1)))"

primrec wait_all :: "nat \<Rightarrow> unit user" where
  "wait_all 0 = ret ()"
| "wait_all (Suc n) =
     bindi (sys U_wait) (\<lambda>r. if r < 0 then thn (print_plain 1 (''wait stopped early'' @ [NL])) exit else wait_all n)"

definition forktest :: "unit user" where
  "forktest =
     thn (print_plain 1 (''fork test'' @ [NL]))
     (bindi (fork_all 1000 0) (\<lambda>n.
      if n = 1000 then thn (print_plain 1 (''fork claimed to work N times!'' @ [NL])) exit
      else
        thn (wait_all n)
        (bindi (sys U_wait) (\<lambda>r.
         if r \<noteq> -1 then thn (print_plain 1 (''wait got too many'' @ [NL])) exit
         else print_plain 1 (''fork test OK'' @ [NL])))))"

definition forktest_main :: "unit user" where
  "forktest_main = thn forktest exit"

text \<open>\<^verbatim>\<open>cowtest\<close>: \<open>cow_bump\<close> prints \<open>n\<close>, adds one and prints it again; every process works on its own copy.\<close>

definition cow_bump :: "string \<Rightarrow> int \<Rightarrow> unit user" where
  "cow_bump who n =
     thn (printf 1 (who @ '' (before): n = %d'' @ [NL]) [Uword (word_of_int n)])
       (printf 1 (who @ '' (after): n = %d'' @ [NL]) [Uword (word_of_int (n + 1))])"

definition cow_wait :: "unit user" where
  "cow_wait = bindi (sys U_wait) (\<lambda>_. exit)"

definition cowtest_main :: "int \<Rightarrow> unit user" where
  "cowtest_main n =
     thn (printf 1 ([NL] @ ''Variable n is shared '' @ [NL, NL]) [])
     (bindi (sys U_fork) (\<lambda>pid.
      if pid = 0 then
        thn (cow_bump ''Child 1'' n)
        (bindi (sys U_fork) (\<lambda>pid.
         if pid = 0 then
           thn (cow_bump ''Sub child'' (n + 1))
           (bindi (sys U_fork) (\<lambda>pid.
            if pid = 0 then thn (cow_bump ''Sub sub child'' (n + 2)) exit
            else thn (cow_bump ''Sub child Parent'' (n + 2)) cow_wait))
         else cow_wait))
      else thn (cow_bump ''Parent'' n) cow_wait))"

text \<open>
  \<^verbatim>\<open>prodcons\<close>: the buffer is a file with the number of items. \<open>number\<close> is the variable; a read puts four
  bytes into it, or nothing at the end of the file.
\<close>

definition int_bytes :: "uint \<Rightarrow> string" where
  "int_bytes w = map (\<lambda>i. char_of (unat (drop_bit (8 * i) w AND 0xFF))) [0..<4]"

definition put_bytes :: "string \<Rightarrow> uint \<Rightarrow> uint" where
  "put_bytes bs w =
     (let cs = take 4 (bs @ drop (length bs) (int_bytes w))
      in foldr (\<lambda>c v. push_bit 8 v OR of_nat (of_char c)) cs 0)"

definition number_read :: "uint \<Rightarrow> uint user" where
  "number_read number =
     bindi (sys (U_open ''buffer'' O_RDWR)) (\<lambda>fd.
     bindi (ask (U_read fd 4)) (\<lambda>r.
     bindi (sys (U_close fd)) (\<lambda>_. ret (put_bytes (u_data r) number))))"

definition number_write :: "uint \<Rightarrow> unit user" where
  "number_write number =
     bindi (sys (U_open ''buffer'' O_RDWR)) (\<lambda>fd.
     bindi (sys (U_write fd (int_bytes number))) (\<lambda>_.
     bindi (sys (U_close fd)) (\<lambda>_. ret ())))"

definition number_init :: "unit user" where
  "number_init =
     bindi (sys (U_open ''buffer'' O_RDWR)) (\<lambda>fd.
     bindi (if fd < 0 then sys (U_open ''buffer'' O_CREATE) else ret fd) (\<lambda>fd.
     bindi (sys (U_write fd (int_bytes 0))) (\<lambda>_.
     bindi (sys (U_close fd)) (\<lambda>_. ret ()))))"

definition sem_call :: "ucall \<Rightarrow> string \<Rightarrow> unit user" where
  "sem_call c msg = bindi (sys c) (\<lambda>r. if r < 0 then printf 1 msg [] else ret ())"

definition enqueue_item :: "int \<Rightarrow> uint \<Rightarrow> uint user" where
  "enqueue_item lk number =
     thn (sem_call (U_semdown lk) (''ERROR: semdown lk enqueue '' @ [NL]))
     (bindi (number_read number) (\<lambda>number.
      let number = number + 1 in
      thn (number_write number)
      (thn (printf 1 (''PRODUCER:    %d '' @ [NL]) [Uword number])
      (thn (sem_call (U_semup lk) (''ERROR: semup lk enqueue '' @ [NL])) (ret number)))))"

definition dequeue_item :: "int \<Rightarrow> uint \<Rightarrow> uint user" where
  "dequeue_item lk number =
     thn (sem_call (U_semdown lk) (''ERROR: semdown lk dequeue '' @ [NL]))
     (bindi (number_read number) (\<lambda>number.
      let number = number - 1 in
      thn (number_write number)
      (thn (printf 1 (''CONSUMER:         %d '' @ [NL]) [Uword number])
      (thn (sem_call (U_semup lk) (''ERROR: semup lk dequeue '' @ [NL])) (ret number)))))"

text \<open>The bodies of the endless loops of \<^verbatim>\<open>produce\<close> and \<^verbatim>\<open>consume\<close>, and the loops, which go as far as there are answers.\<close>

definition produce_one :: "int \<Rightarrow> int \<Rightarrow> int \<Rightarrow> uint \<Rightarrow> uint user" where
  "produce_one lk emp full number =
     thn (sem_call (U_semdown full) (''ERROR: semdown full produce '' @ [NL]))
     (bindi (enqueue_item lk number) (\<lambda>number.
      thn (sem_call (U_semup emp) (''ERROR: semdown empty produce '' @ [NL])) (ret number)))"

definition consume_one :: "int \<Rightarrow> int \<Rightarrow> int \<Rightarrow> uint \<Rightarrow> uint user" where
  "consume_one lk emp full number =
     thn (sem_call (U_semdown emp) (''ERROR: semdown empty consume '' @ [NL]))
     (bindi (dequeue_item lk number) (\<lambda>number.
      thn (sem_call (U_semup full) (''ERROR: semdown full consume '' @ [NL])) (ret number)))"

lemma sem_call_less: "sem_call c msg rs = (qs, Done u ss) \<Longrightarrow> length ss < length rs"
  unfolding sem_call_def bindi_Done
proof (elim exE conjE)
  fix q1 a r1 q2
  assume "sys c rs = (q1, Done a r1)" "(if a < 0 then printf 1 msg [] else ret ()) r1 = (q2, Done u ss)"
  moreover have "suffixing (if a < 0 then printf 1 msg [] else ret ())" by auto
  ultimately show "length ss < length rs" using suffixingD sys_less by (metis le_less_trans)
qed

lemma suffixing_sem_call [simp]: "suffixing (sem_call c msg)"
  unfolding sem_call_def by (intro suffixing_bindi suffixing_if) auto

lemma suffixing_items [simp]: "suffixing (enqueue_item lk n)" "suffixing (dequeue_item lk n)"
  unfolding enqueue_item_def dequeue_item_def number_read_def number_write_def Let_def
  by (intro suffixing_bindi; simp)+

lemma round_less: "produce_one lk e f n rs = (qs, Done v ss) \<Longrightarrow> length ss < length rs"
  "consume_one lk e f n rs = (qs, Done v ss) \<Longrightarrow> length ss < length rs"
  by (fastforce simp: produce_one_def consume_one_def bindi_Done dest!: sem_call_less suffixingD [OF suffixing_items(1)] suffixingD [OF suffixing_items(2)])+

function produce :: "int \<Rightarrow> int \<Rightarrow> int \<Rightarrow> uint \<Rightarrow> unit user" where
  "produce lk emp full number rs = bindi (produce_one lk emp full number) (\<lambda>number rs. produce lk emp full number rs) rs"
  by pat_completeness auto
termination
  by (relation "measure (\<lambda>(_, _, _, _, rs). length rs)") (auto dest: round_less)

function consume :: "int \<Rightarrow> int \<Rightarrow> int \<Rightarrow> uint \<Rightarrow> unit user" where
  "consume lk emp full number rs = bindi (consume_one lk emp full number) (\<lambda>number rs. consume lk emp full number rs) rs"
  by pat_completeness auto
termination
  by (relation "measure (\<lambda>(_, _, _, _, rs). length rs)") (auto dest: round_less)

declare produce.simps [simp del] consume.simps [simp del]

definition prodcons_main :: "unit user" where
  "prodcons_main =
     bindi (sys (U_semget (-1) 1)) (\<lambda>lk.
     bindi (sys (U_semget (-1) 0)) (\<lambda>emp.
     bindi (sys (U_semget (-1) 70)) (\<lambda>full.
     thn number_init
     (bindi (sys U_fork) (\<lambda>pid.
      thn (if pid = 0 then produce lk emp full 0 else consume lk emp full 0) exit)))))"

end
