(* ===== verification/Shell.thy ===== *)
theory Shell
  imports User
begin

text \<open>
  The shell (\<^verbatim>\<open>sh.c\<close>): parsing a line into a command, and running it. A pointer into the line is an
  index, and \<open>es\<close> is the length of the line; reading there gives the NUL. The constructors of commands
  (\<^verbatim>\<open>execcmd\<close> to \<^verbatim>\<open>backcmd\<close>) are those of the datatype; they never return a null pointer here, as if
  \<^verbatim>\<open>malloc\<close>, whose result the code does not check, always found memory.
\<close>

definition MAXARGS :: nat where [simp]: "MAXARGS = 10"

text \<open>
  Commands. A word is the pair of the pointers to its start and behind its end; the argument
  vectors \<^verbatim>\<open>argv\<close> and \<^verbatim>\<open>eargv\<close> up to their null pointers are one list.
\<close>

datatype cmd =
    EXEC "(nat \<times> nat) list"
  | REDIR cmd nat nat int int
  | PIPE cmd cmd
  | LIST cmd cmd
  | BACK cmd

section \<open>Tokens\<close>

abbreviation EOS :: char where "EOS \<equiv> CHR 0x00"

definition whitespace :: string where
  "whitespace = [CHR '' '', CHR 0x09, CHR 0x0D, NL, CHR 0x0B]"

definition symbols :: string where
  "symbols = ''<|>&;()''"

definition char_at :: "string \<Rightarrow> nat \<Rightarrow> char" where
  "char_at b s = (if s < length b then b ! s else EOS)"

function skip_while :: "(char \<Rightarrow> bool) \<Rightarrow> string \<Rightarrow> nat \<Rightarrow> nat" where
  "skip_while P b s = (if s < length b \<and> P (b ! s) then skip_while P b (s + 1) else s)"
  by pat_completeness auto
termination
  by (relation "measure (\<lambda>(_, b, s). length b - s)") auto

declare skip_while.simps [simp del]

definition white :: "char \<Rightarrow> bool" where
  "white c \<longleftrightarrow> strchr whitespace c \<noteq> None"

definition in_word :: "char \<Rightarrow> bool" where
  "in_word c \<longleftrightarrow> strchr whitespace c = None \<and> strchr symbols c = None"

text \<open>The \<^verbatim>\<open>switch\<close> of \<^verbatim>\<open>gettoken\<close> at \<open>q\<close>: the token and where it ends.\<close>

definition token :: "string \<Rightarrow> nat \<Rightarrow> char \<times> nat" where
  "token b q =
     (let c = char_at b q in
      if c = EOS then (c, q)
      else if c \<in> set ''|();&<'' then (c, q + 1)
      else if c = CHR ''>'' then if char_at b (q + 1) = CHR ''>'' then (CHR ''+'', q + 2) else (c, q + 1)
      else (CHR ''a'', skip_while in_word b q))"

text \<open>The result is the token, \<^verbatim>\<open>*q\<close>, \<^verbatim>\<open>*eq\<close> and the new \<^verbatim>\<open>*ps\<close>.\<close>

definition gettoken :: "string \<Rightarrow> nat \<Rightarrow> char \<times> nat \<times> nat \<times> nat" where
  "gettoken b s =
     (let q = skip_while white b s in
      case token b q of (r, eq) \<Rightarrow> (r, q, eq, skip_while white b eq))"

definition peek :: "string \<Rightarrow> nat \<Rightarrow> string \<Rightarrow> nat \<times> bool" where
  "peek b s toks =
     (let s = skip_while white b s in (s, char_at b s \<noteq> EOS \<and> strchr toks (char_at b s) \<noteq> None))"

lemma strchr_iff [simp]: "strchr xs c = None \<longleftrightarrow> c \<notin> set xs"
  by (induction xs) auto

lemma skip_while_le: "s \<le> length b \<Longrightarrow> s \<le> skip_while P b s \<and> skip_while P b s \<le> length b"
  by (induction P b s rule: skip_while.induct) (subst (1 2) skip_while.simps, auto)

lemma skip_while_between: "s \<le> i \<Longrightarrow> i < skip_while P b s \<Longrightarrow> P (b ! i)"
  by (induction P b s rule: skip_while.induct)
    (subst (asm) (2) skip_while.simps, auto split: if_splits simp: Suc_le_eq nat_less_le)

lemma skip_while_stop: "skip_while P b s < length b \<Longrightarrow> \<not> P (b ! skip_while P b s)"
proof (induction P b s rule: skip_while.induct)
  case (1 P b s)
  show ?case
  proof (cases "s < length b \<and> P (b ! s)")
    case True
    then have "skip_while P b s = skip_while P b (s + 1)" by (subst skip_while.simps) simp
    then show ?thesis using 1 True by simp
  next
    case False
    then have "skip_while P b s = s" by (subst skip_while.simps) (simp only: if_False)
    then show ?thesis using 1(2) False by simp
  qed
qed

text \<open>A word of the line: as long as it can be, and without blanks and symbols.\<close>

definition word :: "string \<Rightarrow> nat \<times> nat \<Rightarrow> bool" where
  "word b w \<longleftrightarrow> (case w of (q, e) \<Rightarrow> q < e \<and> e \<le> length b \<and> (\<forall>i. q \<le> i \<and> i < e \<longrightarrow> in_word (b ! i)) \<and> (e < length b \<longrightarrow> \<not> in_word (b ! e)))"

lemma in_word_white: "in_word c \<Longrightarrow> \<not> white c"
  by (simp add: in_word_def white_def)

lemma peek_pos: "peek b s toks = (s', m) \<Longrightarrow> s \<le> length b \<Longrightarrow> s \<le> s' \<and> s' \<le> length b \<and> (s' < length b \<longrightarrow> \<not> white (b ! s'))"
  using skip_while_le [of s b white] skip_while_stop [of white b s] unfolding peek_def Let_def by blast

lemma peek_in: "peek b s toks = (s', True) \<Longrightarrow> s' < length b \<and> b ! s' \<in> set toks"
  by (auto simp: peek_def Let_def char_at_def split: if_splits)

text \<open>A token other than the end takes up at least one character; the token \<^verbatim>\<open>'a'\<close> is a word.\<close>

lemma skip_word:
  assumes "q < length b" and "in_word (b ! q)"
  shows "word b (q, skip_while in_word b q)"
proof -
  have "skip_while in_word b q = skip_while in_word b (q + 1)" using assms by (subst skip_while.simps) simp
  then have "q < skip_while in_word b q" using skip_while_le [of "q + 1" b in_word] assms(1) by simp
  then show ?thesis
    using skip_while_le [of q b in_word] assms(1) skip_while_stop [of in_word b q] skip_while_between [of q _ in_word b]
    unfolding word_def prod.case by (meson less_imp_le)
qed

lemma token_pos:
  assumes "token b q = (t, e)" and "q \<le> length b" and "q < length b \<Longrightarrow> \<not> white (b ! q)"
  shows "q \<le> e \<and> e \<le> length b \<and> (t \<noteq> EOS \<longrightarrow> q < e) \<and> (t = CHR ''a'' \<longrightarrow> word b (q, e))"
proof (cases "q < length b \<and> b ! q \<noteq> EOS")
  case False
  then have "char_at b q = EOS" by (auto simp: char_at_def)
  then have "t = EOS \<and> e = q" using assms(1) by (simp add: token_def)
  then show ?thesis using assms(2) by simp
next
  case True
  then have c: "char_at b q = b ! q" by (simp add: char_at_def)
  show ?thesis
  proof (cases "b ! q \<in> set ''|();&<'' \<or> b ! q = CHR ''>''")
    case sym: True
    have "char_at b (q + 1) = CHR ''>'' \<Longrightarrow> q + 2 \<le> length b" by (auto simp: char_at_def split: if_splits)
    then show ?thesis using assms(1) True sym unfolding token_def Let_def c by (auto split: if_splits)
  next
    case False
    then have "in_word (b ! q)" using assms(3) True by (auto simp: in_word_def white_def symbols_def)
    from skip_word [OF _ this] have w: "word b (q, skip_while in_word b q)" using True by simp
    have "t = CHR ''a'' \<and> e = skip_while in_word b q" using assms(1) True False unfolding token_def Let_def c by simp
    then show ?thesis using w by (simp add: word_def)
  qed
qed

lemma gettoken_pos:
  assumes "gettoken b s = (t, q, e, s')" and "s \<le> length b"
  shows "s \<le> s' \<and> s' \<le> length b \<and> (t \<noteq> EOS \<longrightarrow> s < s') \<and> (t = CHR ''a'' \<longrightarrow> word b (q, e))"
proof -
  have g: "q = skip_while white b s" "token b q = (t, e)" "s' = skip_while white b e"
    using assms(1) by (auto simp: gettoken_def Let_def split: prod.splits)
  have q: "s \<le> q" "q \<le> length b" using skip_while_le [OF assms(2), of white] g(1) by auto
  have w: "q < length b \<Longrightarrow> \<not> white (b ! q)" using skip_while_stop [of white b s] g(1) by simp
  note e = token_pos [OF g(2) q(2) w]
  have "e \<le> s' \<and> s' \<le> length b" using skip_while_le [of e b white] e g(3) by blast
  then show ?thesis using e q by (meson le_trans le_less_trans less_le_trans)
qed

section \<open>The parser\<close>

text \<open>
  The loops and the recursion of the parser carry a bound on their depth. \<open>length b + 1\<close> is enough for
  a loop that takes a token off the line each time, \<open>MAXARGS\<close> for the loop over the arguments.
\<close>

primrec parseredirs :: "nat \<Rightarrow> string \<Rightarrow> nat \<Rightarrow> cmd \<Rightarrow> (cmd \<times> nat) result" where
  "parseredirs 0 b s cmd = Inl Out_Of_Fuel"
| "parseredirs (Suc n) b s cmd =
     (case peek b s ''<>'' of (s, found) \<Rightarrow>
      if \<not> found then Inr (cmd, s)
      else
        case gettoken b s of (tok, _, _, s) \<Rightarrow>
        case gettoken b s of (t, q, eq, s) \<Rightarrow>
        if t \<noteq> CHR ''a'' then Inl (Panic ''missing file for redirection'')
        else if tok = CHR ''<'' then parseredirs n b s (REDIR cmd q eq O_RDONLY 0)
        else parseredirs n b s (REDIR cmd q eq (O_WRONLY + O_CREATE) 1))"

text \<open>
  The loop of \<^verbatim>\<open>parseexec\<close>: \<open>cmd\<close> is \<^verbatim>\<open>ret\<close>, the command with the redirections around it, and \<open>args\<close> the
  vectors of the inner command, which \<open>set_args\<close> puts in their place.
\<close>

primrec parseargs :: "nat \<Rightarrow> string \<Rightarrow> nat \<Rightarrow> cmd \<Rightarrow> (nat \<times> nat) list \<Rightarrow> (cmd \<times> (nat \<times> nat) list \<times> nat) result" where
  "parseargs 0 b s cmd args = Inl Out_Of_Fuel"
| "parseargs (Suc n) b s cmd args =
     (case peek b s ''|)&;'' of (s, stop) \<Rightarrow>
      if stop then Inr (cmd, args, s)
      else
        case gettoken b s of (tok, q, eq, s) \<Rightarrow>
        if tok = EOS then Inr (cmd, args, s)
        else if tok \<noteq> CHR ''a'' then Inl (Panic ''syntax'')
        else if length args + 1 \<ge> MAXARGS then Inl (Panic ''too many args'')
        else bindr (parseredirs (length b + 1) b s cmd) (\<lambda>(cmd, s). parseargs n b s cmd (args @ [(q, eq)])))"

fun set_args :: "(nat \<times> nat) list \<Rightarrow> cmd \<Rightarrow> cmd" where
  "set_args args (EXEC _) = EXEC args"
| "set_args args (REDIR c q eq mode fd) = REDIR (set_args args c) q eq mode fd"
| "set_args args c = c"

primrec parse_back :: "nat \<Rightarrow> string \<Rightarrow> nat \<Rightarrow> cmd \<Rightarrow> (cmd \<times> nat) result" where
  "parse_back 0 b s cmd = Inl Out_Of_Fuel"
| "parse_back (Suc n) b s cmd =
     (case peek b s ''&'' of (s, found) \<Rightarrow>
      if \<not> found then Inr (cmd, s) else case gettoken b s of (_, _, _, s) \<Rightarrow> parse_back n b s (BACK cmd))"

fun parseline :: "nat \<Rightarrow> string \<Rightarrow> nat \<Rightarrow> (cmd \<times> nat) result"
  and parsepipe :: "nat \<Rightarrow> string \<Rightarrow> nat \<Rightarrow> (cmd \<times> nat) result"
  and parseblock :: "nat \<Rightarrow> string \<Rightarrow> nat \<Rightarrow> (cmd \<times> nat) result"
  and parseexec :: "nat \<Rightarrow> string \<Rightarrow> nat \<Rightarrow> (cmd \<times> nat) result" where
  "parseline 0 b s = Inl Out_Of_Fuel"
| "parseline (Suc n) b s =
     bindr (parsepipe n b s) (\<lambda>(cmd, s).
     bindr (parse_back (length b + 1) b s cmd) (\<lambda>(cmd, s).
     case peek b s '';'' of (s, found) \<Rightarrow>
     if found then
       case gettoken b s of (_, _, _, s) \<Rightarrow>
       bindr (parseline n b s) (\<lambda>(right, s). Inr (LIST cmd right, s))
     else Inr (cmd, s)))"
| "parsepipe 0 b s = Inl Out_Of_Fuel"
| "parsepipe (Suc n) b s =
     bindr (parseexec n b s) (\<lambda>(cmd, s).
     case peek b s ''|'' of (s, found) \<Rightarrow>
     if found then
       case gettoken b s of (_, _, _, s) \<Rightarrow>
       bindr (parsepipe n b s) (\<lambda>(right, s). Inr (PIPE cmd right, s))
     else Inr (cmd, s))"
| "parseblock 0 b s = Inl Out_Of_Fuel"
| "parseblock (Suc n) b s =
     (case peek b s ''('' of (s, found) \<Rightarrow>
      if \<not> found then Inl (Panic ''parseblock'')
      else
        case gettoken b s of (_, _, _, s) \<Rightarrow>
        bindr (parseline n b s) (\<lambda>(cmd, s).
        case peek b s '')'' of (s, found) \<Rightarrow>
        if \<not> found then Inl (Panic ''syntax - missing )'')
        else case gettoken b s of (_, _, _, s) \<Rightarrow> parseredirs (length b + 1) b s cmd))"
| "parseexec 0 b s = Inl Out_Of_Fuel"
| "parseexec (Suc n) b s =
     (case peek b s ''('' of (s, found) \<Rightarrow>
      if found then parseblock n b s
      else
        bindr (parseredirs (length b + 1) b s (EXEC [])) (\<lambda>(cmd, s).
        bindr (parseargs MAXARGS b s cmd []) (\<lambda>(cmd, args, s).
        Inr (set_args args cmd, s))))"

section \<open>Ends of words\<close>

text \<open>\<^verbatim>\<open>nulterminate\<close> on the line with its NUL; \<open>cstr\<close> reads the string at a pointer.\<close>

primrec nulterminate :: "cmd \<Rightarrow> string \<Rightarrow> string" where
  "nulterminate (EXEC args) b = fold (\<lambda>(_, e) b. b[e := EOS]) args b"
| "nulterminate (REDIR c q e mode fd) b = (nulterminate c b)[e := EOS]"
| "nulterminate (PIPE l r) b = nulterminate r (nulterminate l b)"
| "nulterminate (LIST l r) b = nulterminate r (nulterminate l b)"
| "nulterminate (BACK c) b = nulterminate c b"

definition cstr :: "string \<Rightarrow> nat \<Rightarrow> string" where
  "cstr b q = takeWhile (\<lambda>c. c \<noteq> EOS) (drop q b)"

lemma exit_Done [simp]: "exit rs \<noteq> (qs, Done x ss)"
  by (simp add: exit_def quit_def)

definition panic_sh :: "string \<Rightarrow> 'a user" where
  "panic_sh m = thn (printf 2 (''%s'' @ [NL]) [Ustr (Some m)]) exit"

definition parsecmd :: "string \<Rightarrow> (cmd \<times> string) user" where
  "parsecmd b =
     (case parseline (4 * length b + 4) b 0 of
        Inl (Panic m) \<Rightarrow> panic_sh m
      | Inl e \<Rightarrow> fault e
      | Inr (cmd, s) \<Rightarrow>
          let s = fst (peek b s []) in
          if s \<noteq> length b then thn (printf 2 (''leftovers: %s'' @ [NL]) [Ustr (Some (drop s b))]) (panic_sh ''syntax'')
          else ret (cmd, nulterminate cmd (b @ [EOS])))"

section \<open>Running commands\<close>

definition fork1 :: "int user" where
  "fork1 = bindi (sys U_fork) (\<lambda>pid. if pid = -1 then panic_sh ''fork'' else ret pid)"

text \<open>\<^verbatim>\<open>runcmd\<close> never returns: it ends in \<^verbatim>\<open>exit\<close>, or in the program it executes, which gives no answer.\<close>

primrec runcmd :: "string \<Rightarrow> cmd \<Rightarrow> unit user" where
  "runcmd b (EXEC args) =
     (if args = [] then exit
      else
        let argv = map (\<lambda>(q, _). cstr b q) args in
        bindi (sys (U_exec (hd argv) argv)) (\<lambda>_.
        thn (printf 2 (''exec %s failed'' @ [NL]) [Ustr (Some (hd argv))]) exit))"
| "runcmd b (REDIR c q e mode fd) =
     bindi (sys (U_close fd)) (\<lambda>_.
     bindi (sys (U_open (cstr b q) mode)) (\<lambda>r.
     if r < 0 then thn (printf 2 (''open %s failed'' @ [NL]) [Ustr (Some (cstr b q))]) exit
     else runcmd b c))"
| "runcmd b (LIST l r) =
     bindi fork1 (\<lambda>pid.
     if pid = 0 then runcmd b l
     else bindi (sys U_wait) (\<lambda>_. runcmd b r))"
| "runcmd b (PIPE l r) =
     bindi (ask U_pipe) (\<lambda>p.
     if u_val p < 0 then panic_sh ''pipe''
     else
       let p0 = u_nums p ! 0; p1 = u_nums p ! 1 in
       bindi fork1 (\<lambda>pid.
       if pid = 0 then
         bindi (sys (U_close 1)) (\<lambda>_. bindi (sys (U_dup p1)) (\<lambda>_.
         bindi (sys (U_close p0)) (\<lambda>_. bindi (sys (U_close p1)) (\<lambda>_. runcmd b l))))
       else
         bindi fork1 (\<lambda>pid.
         if pid = 0 then
           bindi (sys (U_close 0)) (\<lambda>_. bindi (sys (U_dup p0)) (\<lambda>_.
           bindi (sys (U_close p0)) (\<lambda>_. bindi (sys (U_close p1)) (\<lambda>_. runcmd b r))))
         else
           bindi (sys (U_close p0)) (\<lambda>_. bindi (sys (U_close p1)) (\<lambda>_.
           bindi (sys U_wait) (\<lambda>_. bindi (sys U_wait) (\<lambda>_. exit)))))))"
| "runcmd b (BACK c) =
     bindi fork1 (\<lambda>pid. if pid = 0 then runcmd b c else exit)"

section \<open>The main loop\<close>

text \<open>The line without its NUL; a NUL in the input ends it too. None stands for the result -1.\<close>

definition getcmd :: "string option user" where
  "getcmd =
     thn (printf 2 ''$ '' [])
     (bindi (gets 100) (\<lambda>buf.
      let line = takeWhile (\<lambda>c. c \<noteq> EOS) buf in
      ret (if line = [] then None else Some line)))"

lemma gets_loop_le: "gets_loop n acc rs = (qs, Done l ss) \<Longrightarrow> length ss \<le> length rs"
proof (induction n acc rs arbitrary: qs rule: gets_loop.induct)
  case (1 n acc rs)
  show ?case
  proof (cases "int (length acc) + 1 < n")
    case True
    then show ?thesis
      using "1.prems" "1.IH" [OF True] by (subst (asm) gets_loop.simps) (fastforce simp: bindi_Done split: if_splits list.splits)
  next
    case False
    then show ?thesis using "1.prems" by (subst (asm) gets_loop.simps) simp
  qed
qed

lemma getcmd_less: "getcmd rs = (qs, Done l ss) \<Longrightarrow> length ss < length rs"
  by (auto simp: getcmd_def printf_def putc_def bindi_Done gets_def Let_def dest!: sys_less gets_loop_le)

function open_console :: "unit user" where
  "open_console rs =
     bindi (sys (U_open ''console'' O_RDWR)) (\<lambda>fd rs.
       if fd \<ge> 3 then bindi (sys (U_close fd)) (\<lambda>_. ret ()) rs
       else if fd \<ge> 0 then open_console rs
       else ret () rs) rs"
  by pat_completeness auto
termination
  by (relation "measure length") (auto dest: sys_less)

text \<open>\<^verbatim>\<open>cd\<close> in the shell itself; the last character, the newline, is cut off.\<close>

definition sh_cd :: "string \<Rightarrow> unit user" where
  "sh_cd line =
     (let dir = drop 3 (butlast line) in
      bindi (sys (U_chdir dir)) (\<lambda>r.
      if r < 0 then printf 2 (''cannot cd %s'' @ [NL]) [Ustr (Some dir)] else ret ()))"

lemma suffixing_sh_cd [simp]: "suffixing (sh_cd line)"
  unfolding sh_cd_def Let_def by (intro suffixing_bindi suffixing_if) auto

lemma suffixing_fork1 [simp]: "suffixing fork1"
  unfolding fork1_def panic_sh_def by (intro suffixing_bindi suffixing_if) auto

function sh_loop :: "unit user" where
  "sh_loop rs =
     bindi getcmd (\<lambda>l rs.
       if l = None then exit rs
       else if take 3 (the l) = ''cd '' then bindi (sh_cd (the l)) (\<lambda>_ rs. sh_loop rs) rs
       else
         bindi fork1 (\<lambda>pid rs.
           if pid = 0 then bindi (parsecmd (the l)) (\<lambda>(cmd, b). runcmd b cmd) rs
           else bindi (sys U_wait) (\<lambda>_ rs. sh_loop rs) rs) rs) rs"
  by pat_completeness auto
termination
  by (relation "measure length") (auto dest!: getcmd_less sys_less suffixingD [OF suffixing_sh_cd] suffixingD [OF suffixing_fork1])

declare open_console.simps [simp del] sh_loop.simps [simp del]

definition sh_main :: "unit user" where
  "sh_main = thn open_console sh_loop"

section \<open>Well-formed commands\<close>

primrec wf_cmd :: "string \<Rightarrow> cmd \<Rightarrow> bool" where
  "wf_cmd b (EXEC args) \<longleftrightarrow> length args < MAXARGS \<and> (\<forall>w \<in> set args. word b w)"
| "wf_cmd b (REDIR c q e mode fd) \<longleftrightarrow> wf_cmd b c \<and> word b (q, e) \<and> (mode, fd) \<in> {(O_RDONLY, 0), (O_WRONLY + O_CREATE, 1)}"
| "wf_cmd b (PIPE c d) \<longleftrightarrow> wf_cmd b c \<and> wf_cmd b d"
| "wf_cmd b (LIST c d) \<longleftrightarrow> wf_cmd b c \<and> wf_cmd b d"
| "wf_cmd b (BACK c) \<longleftrightarrow> wf_cmd b c"

text \<open>What a parsing function that starts at \<open>s\<close> yields: a panic, or a command and a place further on.\<close>

definition parses :: "string \<Rightarrow> nat \<Rightarrow> (cmd \<times> nat) result \<Rightarrow> bool" where
  "parses b s r \<longleftrightarrow> (case r of Inl e \<Rightarrow> \<exists>m. e = Panic m | Inr (c, t) \<Rightarrow> s \<le> t \<and> t \<le> length b \<and> wf_cmd b c)"

lemma parses_simps [simp]:
  "parses b s (Inl (Panic m))"
  "parses b s (Inr (c, t)) \<longleftrightarrow> s \<le> t \<and> t \<le> length b \<and> wf_cmd b c"
  by (simp_all add: parses_def)

lemma parses_bindr:
  assumes "parses b s r" and "\<And>c t. s \<le> t \<Longrightarrow> t \<le> length b \<Longrightarrow> wf_cmd b c \<Longrightarrow> parses b t (f (c, t))"
  shows "parses b s (bindr r f)"
proof (cases r)
  case (Inl e)
  then show ?thesis using assms(1) by (auto simp: parses_def)
next
  case (Inr x)
  obtain c t where x: "x = (c, t)" by (cases x)
  have c: "s \<le> t" "t \<le> length b" "wf_cmd b c" using assms(1) Inr x by simp_all
  have "parses b t (f (c, t))" using assms(2) c by blast
  then have "parses b s (f (c, t))" using c(1) by (auto simp: parses_def split: sum.splits)
  then show ?thesis using Inr x by simp
qed

lemma parses_later: "parses b t r \<Longrightarrow> s \<le> t \<Longrightarrow> parses b s r"
  by (auto simp: parses_def split: sum.splits)

text \<open>Looking for one of several symbols and taking it off the line.\<close>

lemma peek_gettoken:
  assumes "peek b s toks = (s', True)" and "s \<le> length b" and "gettoken b s' = (t, q, e, u)"
  shows "s < u \<and> u \<le> length b"
proof -
  have p: "s \<le> s'" "s' \<le> length b" using peek_pos [OF assms(1,2)] by auto
  have c: "char_at b s' \<noteq> EOS" using assms(1) unfolding peek_def Let_def by blast
  have "s' < length b" "\<not> white (b ! s')" using peek_pos [OF assms(1,2)] peek_in [OF assms(1)] by auto
  then have "skip_while white b s' = s'" by (subst skip_while.simps) simp
  then have "token b s' = (t, e)" using assms(3) by (auto simp: gettoken_def split: prod.splits)
  then have "t \<noteq> EOS" using c by (auto simp: token_def Let_def split: if_splits)
  then show ?thesis using gettoken_pos [OF assms(3) p(2)] p(1) by simp
qed

lemma parseredirs_parses: "s \<le> length b \<Longrightarrow> length b - s < n \<Longrightarrow> wf_cmd b c \<Longrightarrow> parses b s (parseredirs n b s c)"
proof (induction n arbitrary: s c)
  case (Suc n)
  obtain s' m where p: "peek b s ''<>'' = (s', m)" by (cases "peek b s ''<>''")
  obtain t q e u where g: "gettoken b s' = (t, q, e, u)" by (metis prod_cases4)
  obtain t' q' e' u' where h: "gettoken b u = (t', q', e', u')" by (metis prod_cases4)
  note pp = peek_pos [OF p Suc.prems(1)]
  show ?case
  proof (cases m)
    case False
    then show ?thesis using p pp Suc.prems(3) by simp
  next
    case True
    have u: "s < u" "u \<le> length b" using peek_gettoken [OF p [unfolded True [THEN eqTrueI]] Suc.prems(1) g] by auto
    note w = gettoken_pos [OF h u(2)]
    have *: "parses b s (parseredirs n b u' (REDIR c q' e' mode fd))"
      if "t' = CHR ''a''" "(mode, fd) \<in> {(O_RDONLY, 0), (O_WRONLY + O_CREATE, 1)}" for mode fd
    proof -
      have "wf_cmd b (REDIR c q' e' mode fd)" using w that Suc.prems(3) by simp
      moreover have "length b - u' < n" using w u Suc.prems(2) by linarith
      ultimately have "parses b u' (parseredirs n b u' (REDIR c q' e' mode fd))" using Suc.IH w by blast
      then show ?thesis by (rule parses_later) (use w u in simp)
    qed
    show ?thesis using p g h True * by simp
  qed
qed simp

lemma parse_back_parses: "s \<le> length b \<Longrightarrow> length b - s < n \<Longrightarrow> wf_cmd b c \<Longrightarrow> parses b s (parse_back n b s c)"
proof (induction n arbitrary: s c)
  case (Suc n)
  obtain s' m where p: "peek b s ''&'' = (s', m)" by (cases "peek b s ''&''")
  obtain t q e u where g: "gettoken b s' = (t, q, e, u)" by (metis prod_cases4)
  show ?case
  proof (cases m)
    case False
    then show ?thesis using p peek_pos [OF p Suc.prems(1)] Suc.prems(3) by simp
  next
    case True
    have u: "s < u" "u \<le> length b" using peek_gettoken [OF p [unfolded True [THEN eqTrueI]] Suc.prems(1) g] by auto
    have "length b - u < n" using u Suc.prems(2) by linarith
    then have "parses b u (parse_back n b u (BACK c))" using Suc.IH [of u "BACK c"] u Suc.prems(3) by simp
    from parses_later [OF this] show ?thesis using p g True u by simp
  qed
qed simp

declare parseredirs.simps [simp del] parse_back.simps [simp del]

text \<open>An argument goes to the command inside the redirections.\<close>

lemma parseargs_parses:
  "s \<le> length b \<Longrightarrow> wf_cmd b c \<Longrightarrow> \<forall>w \<in> set args. word b w \<Longrightarrow> length args + n = MAXARGS \<Longrightarrow> 0 < n \<Longrightarrow>
   parses b s (bindr (parseargs n b s c args) (\<lambda>(c, args, s). Inr (set_args args c, s)))"
proof (induction n arbitrary: s c args)
  case (Suc n)
  obtain s' m where p: "peek b s ''|)&;'' = (s', m)" by (cases "peek b s ''|)&;''")
  obtain t q e u where g: "gettoken b s' = (t, q, e, u)" by (metis prod_cases4)
  note pp = peek_pos [OF p Suc.prems(1)]
  note gp = gettoken_pos [OF g]
  have sa: "wf_cmd b (set_args args c)" if "length args < MAXARGS" "\<forall>w \<in> set args. word b w" "wf_cmd b c" for args c
    using that by (induction args c rule: set_args.induct) auto
  have la: "length args < MAXARGS" using Suc.prems(4) by simp
  show ?case
  proof (cases "m \<or> t = EOS \<or> t \<noteq> CHR ''a'' \<or> length args + 1 \<ge> MAXARGS")
    case True
    then show ?thesis using p g pp gp sa [OF la Suc.prems(3,2)] by auto
  next
    case False
    then have u: "s \<le> u" "u \<le> length b" "word b (q, e)" using pp gp by auto
    have "parses b u (bindr (parseredirs (length b + 1) b u c)
        (\<lambda>(c, s). bindr (parseargs n b s c (args @ [(q, e)])) (\<lambda>(c, args, s). Inr (set_args args c, s))))"
    proof (rule parses_bindr, goal_cases)
      case 1
      show ?case using parseredirs_parses [of u b "length b + 1" c] u Suc.prems(2) by simp
    next
      case (2 d v)
      have "0 < n" using False Suc.prems(4) by simp
      then show ?case using Suc.IH [OF 2(2,3), of "args @ [(q, e)]"] u Suc.prems(3,4) by auto
    qed
    moreover have "bindr (parseargs (Suc n) b s c args) (\<lambda>(c, args, s). Inr (set_args args c, s)) = bindr (parseredirs (length b + 1) b u c)
        (\<lambda>(c, s). bindr (parseargs n b s c (args @ [(q, e)])) (\<lambda>(c, args, s). Inr (set_args args c, s)))"
      using p g False by (simp add: case_prod_unfold bindr_assoc)
    ultimately show ?thesis using parses_later [OF _ u(1)] by simp
  qed
qed simp

text \<open>Every function takes a symbol off the line if it is there.\<close>

lemma parses_peek:
  assumes "s \<le> length b"
    and "\<And>u. s < u \<Longrightarrow> u \<le> length b \<Longrightarrow> parses b u (F u)" and "\<And>u. s \<le> u \<Longrightarrow> u \<le> length b \<Longrightarrow> parses b u (G u)"
  shows "parses b s (case peek b s toks of (s, found) \<Rightarrow> if found then case gettoken b s of (_, _, _, s) \<Rightarrow> F s else G s)"
    and "parses b s (case peek b s toks of (s, found) \<Rightarrow> if \<not> found then G s else case gettoken b s of (_, _, _, s) \<Rightarrow> F s)"
proof -
  obtain s' m where p: "peek b s toks = (s', m)" by (cases "peek b s toks")
  obtain t q e u where g: "gettoken b s' = (t, q, e, u)" by (metis prod_cases4)
  have "m \<Longrightarrow> s < u \<and> u \<le> length b" using peek_gettoken [OF _ assms(1) g] p by simp
  then have "m \<Longrightarrow> parses b s (F u)" using assms(2) parses_later less_imp_le by blast
  moreover have "parses b s (G s')" using assms(3) [of s'] peek_pos [OF p assms(1)] parses_later by blast
  ultimately show "parses b s (case peek b s toks of (s, found) \<Rightarrow> if found then case gettoken b s of (_, _, _, s) \<Rightarrow> F s else G s)"
    "parses b s (case peek b s toks of (s, found) \<Rightarrow> if \<not> found then G s else case gettoken b s of (_, _, _, s) \<Rightarrow> F s)"
    using p g by simp_all
qed

text \<open>The depth that is enough for the rest of the line after \<open>s\<close>.\<close>

lemma parser_parses:
  "s \<le> length b \<Longrightarrow> 4 * (length b - s) + 3 < n \<Longrightarrow> parses b s (parseline n b s)"
  "s \<le> length b \<Longrightarrow> 4 * (length b - s) + 2 < n \<Longrightarrow> parses b s (parsepipe n b s)"
  "s \<le> length b \<Longrightarrow> 4 * (length b - s) + 1 < n \<Longrightarrow> parses b s (parseexec n b s)"
  "s \<le> length b \<Longrightarrow> 4 * (length b - s) < n \<Longrightarrow> parses b s (parseblock n b s)"
proof (induction n arbitrary: s)
  case (Suc n)
  note IH = Suc.IH
  { case 1
    have "parses b s (parsepipe n b s)" using IH(2) [of s] 1 by simp
    then show ?case
      unfolding parseline.simps
    proof (rule parses_bindr)
      fix c t assume t: "s \<le> t" "t \<le> length b" "wf_cmd b c"
      have "parses b t (parse_back (length b + 1) b t c)" using parse_back_parses [of t b "length b + 1" c] t by simp
      then show "parses b t (case (c, t) of (cmd, s) \<Rightarrow> bindr (parse_back (length b + 1) b s cmd) (\<lambda>(cmd, s).
          case peek b s '';'' of (s, found) \<Rightarrow> if found then case gettoken b s of (_, _, _, s) \<Rightarrow>
            bindr (parseline n b s) (\<lambda>(right, s). Inr (LIST cmd right, s)) else Inr (cmd, s)))"
        unfolding prod.case
      proof (rule parses_bindr)
        fix d v assume v: "t \<le> v" "v \<le> length b" "wf_cmd b d"
        show "parses b v (case (d, v) of (cmd, s) \<Rightarrow> case peek b s '';'' of (s, found) \<Rightarrow> if found then case gettoken b s of (_, _, _, s) \<Rightarrow>
            bindr (parseline n b s) (\<lambda>(right, s). Inr (LIST cmd right, s)) else Inr (cmd, s))"
          unfolding prod.case
          by (rule parses_peek(1) [OF v(2)]) (use IH(1) 1 t v in \<open>auto intro!: parses_bindr\<close>)
      qed
    qed }
  { case 2
    have "parses b s (parseexec n b s)" using IH(3) [of s] 2 by simp
    then show ?case
      unfolding parsepipe.simps
    proof (rule parses_bindr)
      fix c t assume t: "s \<le> t" "t \<le> length b" "wf_cmd b c"
      show "parses b t (case (c, t) of (cmd, s) \<Rightarrow> case peek b s ''|'' of (s, found) \<Rightarrow> if found then case gettoken b s of (_, _, _, s) \<Rightarrow>
            bindr (parsepipe n b s) (\<lambda>(right, s). Inr (PIPE cmd right, s)) else Inr (cmd, s))"
        unfolding prod.case
        by (rule parses_peek(1) [OF t(2)]) (use IH(2) 2 t in \<open>auto intro!: parses_bindr\<close>)
    qed }
  { case 3
    obtain s' m where p: "peek b s ''('' = (s', m)" by (cases "peek b s ''(''")
    have s': "s \<le> s'" "s' \<le> length b" using peek_pos [OF p 3(1)] by auto
    have "parses b s' (parseblock n b s')" using IH(4) [of s'] s' 3 by simp
    moreover have "parses b s' (bindr (parseredirs (length b + 1) b s' (EXEC [])) (\<lambda>(cmd, s).
        bindr (parseargs MAXARGS b s cmd []) (\<lambda>(cmd, args, s). Inr (set_args args cmd, s))))"
    proof (rule parses_bindr)
      show "parses b s' (parseredirs (length b + 1) b s' (EXEC []))" using s' by (intro parseredirs_parses) auto
    next
      fix c t assume "s' \<le> t" "t \<le> length b" "wf_cmd b c"
      then show "parses b t (case (c, t) of (cmd, s) \<Rightarrow> bindr (parseargs MAXARGS b s cmd []) (\<lambda>(cmd, args, s). Inr (set_args args cmd, s)))"
        unfolding prod.case by (intro parseargs_parses) auto
    qed
    ultimately show ?case using p parses_later [OF _ s'(1)] by simp }
  { case 4
    show ?case
      unfolding parseblock.simps
    proof (rule parses_peek(2) [OF 4(1)], goal_cases)
      case (1 u)
      have "parses b u (parseline n b u)" using IH(1) [of u] 1 4 by simp
      then show ?case
      proof (rule parses_bindr)
        fix c t assume t: "u \<le> t" "t \<le> length b" "wf_cmd b c"
        show "parses b t (case (c, t) of (cmd, s) \<Rightarrow> case peek b s '')'' of (s, found) \<Rightarrow>
            if \<not> found then Inl (Panic ''syntax - missing )'')
            else case gettoken b s of (_, _, _, s) \<Rightarrow> parseredirs (length b + 1) b s cmd)"
          unfolding prod.case
          by (rule parses_peek(2) [OF t(2)]) (use t in \<open>auto intro: parseredirs_parses\<close>)
      qed
    qed simp }
qed simp_all

text \<open>The words of a command.\<close>

primrec words :: "cmd \<Rightarrow> (nat \<times> nat) set" where
  "words (EXEC args) = set args"
| "words (REDIR c q e mode fd) = insert (q, e) (words c)"
| "words (PIPE c d) = words c \<union> words d"
| "words (LIST c d) = words c \<union> words d"
| "words (BACK c) = words c"

lemma wf_words: "wf_cmd b c \<Longrightarrow> w \<in> words c \<Longrightarrow> word b w"
  by (induction c) auto

lemma nulterminate_length [simp]: "length (nulterminate c b) = length b"
proof (induction c arbitrary: b)
  case (EXEC args)
  show ?case by (induction args arbitrary: b) (auto split: prod.split)
qed simp_all

lemma nulterminate_nth:
  "i < length b \<Longrightarrow> nulterminate c b ! i = (if \<exists>q. (q, i) \<in> words c then EOS else b ! i)"
proof (induction c arbitrary: b)
  case (EXEC args)
  then show ?case
  proof (induction args arbitrary: b)
    case (Cons w args)
    obtain q e where w: "w = (q, e)" by (cases w)
    have l: "i < length (b[e := EOS])" using Cons.prems by simp
    show ?case using Cons.IH [OF l] Cons.prems by (cases "i = e") (auto simp: w nth_list_update)
  qed simp
next
  case (REDIR c q e mode fd)
  then show ?case by (cases "i = e") auto
qed auto

lemma cstr_word:
  assumes wf: "wf_cmd b c" and w: "(q, e) \<in> words c" and "EOS \<notin> set b"
  shows "cstr (nulterminate c (b @ [EOS])) q = take (e - q) (drop q b)"
proof -
  let ?xs = "nulterminate c (b @ [EOS])"
  have qe: "q < e" "e \<le> length b" and iw: "\<And>i. q \<le> i \<Longrightarrow> i < e \<Longrightarrow> in_word (b ! i)"
    using wf_words [OF wf w] by (simp_all add: word_def)
  have inside: "?xs ! i = b ! i" if i: "q \<le> i" "i < e" for i
  proof -
    have "(q', i) \<notin> words c" for q' using wf_words [OF wf, of "(q', i)"] iw [OF i] i qe by (auto simp: word_def)
    then show ?thesis using nulterminate_nth [of i "b @ [EOS]" c] i qe by (simp add: nth_append)
  qed
  have "cstr ?xs q = take (e - q) (drop q ?xs)"
    unfolding cstr_def
  proof (rule takeWhile_eq_take_P_nth)
    show "drop q ?xs ! i \<noteq> EOS" if "i < e - q" for i
    proof -
      have i: "q + i < e" "q + i < length b" using that qe by linarith+
      then have "b ! (q + i) \<noteq> EOS" using assms(3) nth_mem [of "q + i" b] by metis
      then show ?thesis using inside [of "q + i"] i by simp
    qed
    show "\<not> drop q ?xs ! (e - q) \<noteq> EOS"
      using nulterminate_nth [of e "b @ [EOS]" c] w qe by auto
  qed
  also have "\<dots> = take (e - q) (drop q b)"
    by (rule nth_equalityI) (use inside qe in auto)
  finally show ?thesis .
qed

text \<open>
  C39. The parser of the shell, on every line. It always comes to an end: it reports a syntax
  error and exits, or it returns a command. The command is well-formed: an execution has fewer
  than MAXARGS arguments, a redirection opens descriptor 0 for reading or descriptor 1 for
  writing, and every word is a longest run of characters that are neither blanks nor symbols.
  After the ends of the words are marked in the line, each argument and file name, read as a C
  string, is exactly its word: no mark falls inside another word.
\<close>

theorem parsecmd_delivers_words:
  assumes "EOS \<notin> set b"
  shows "(\<exists>m. parsecmd b = panic_sh m) \<or>
    (\<exists>s. parsecmd b = thn (printf 2 (''leftovers: %s'' @ [NL]) [Ustr (Some (drop s b))]) (panic_sh ''syntax'')) \<or>
    (\<exists>cmd xs. parsecmd b = ret (cmd, xs) \<and> wf_cmd b cmd \<and>
       (\<forall>(q, e) \<in> words cmd. word b (q, e) \<and> cstr xs q = take (e - q) (drop q b)))"
proof -
  have p: "parses b 0 (parseline (4 * length b + 4) b 0)" by (rule parser_parses(1)) simp_all
  show ?thesis
  proof (cases "parseline (4 * length b + 4) b 0")
    case (Inl e)
    then obtain m where "e = Panic m" using p by (auto simp: parses_def)
    then have "parsecmd b = panic_sh m" using Inl by (simp add: parsecmd_def)
    then show ?thesis by blast
  next
    case (Inr x)
    obtain c s where x: "x = (c, s)" by (cases x)
    have c: "wf_cmd b c" using p Inr x by simp
    show ?thesis
    proof (cases "fst (peek b s []) = length b")
      case True
      then have "parsecmd b = ret (c, nulterminate c (b @ [EOS]))" using Inr x by (simp add: parsecmd_def)
      then show ?thesis using c cstr_word [OF c _ assms] wf_words [OF c] by blast
    next
      case False
      then show ?thesis using Inr x unfolding parsecmd_def by (auto simp: Let_def)
    qed
  qed
qed

theorem parsecmd_delivers_words_witness:
  "\<exists>cmd xs. parsecmd ''ls > f'' = ret (cmd, xs) \<and> cmd = REDIR (EXEC [(0, 2)]) 5 6 0x201 1 \<and> cstr xs 0 = ''ls'' \<and> cstr xs 5 = ''f''"
proof -
  let ?b = "''ls > f''" and ?c = "REDIR (EXEC [(0, 2)]) 5 6 0x201 1"
  have r: "parseline (4 * length ?b + 4) ?b 0 = Inr (?c, 6)" by code_simp
  have k: "fst (peek ?b 6 []) = length ?b" by code_simp
  have d: "parsecmd ?b [] = ([], Done (?c, nulterminate ?c (?b @ [EOS])) [])"
    unfolding parsecmd_def r sum.case prod.case k by (simp add: Let_def)
  have "parsecmd ?b \<noteq> panic_sh m" "parsecmd ?b \<noteq> thn (printf 2 f a) (panic_sh m)" for m f a
    using d by (auto simp: panic_sh_def bindi_Done)
  then obtain cmd xs where p: "parsecmd ?b = ret (cmd, xs)" and w: "\<forall>(q, e) \<in> words cmd. word ?b (q, e) \<and> cstr xs q = take (e - q) (drop q ?b)"
    using parsecmd_delivers_words [of ?b] by auto
  have "cmd = ?c" using d p by simp
  then show ?thesis using p w by (intro exI [of _ cmd] exI [of _ xs]) simp
qed

end
