(* ===== verification/Mkfs.thy ===== *)
theory Mkfs
  imports Fs
begin

text \<open>
  The file system builder (\<^verbatim>\<open>mkfs.c\<close>), a program of the host. The image is a file of sectors that
  grows where it is written; a system call on it that fails, a failed assertion and a file that
  cannot be opened end the program, which is the error \<open>Panic\<close>. The host is little-endian, like the
  machine the image is for. Messages on the terminal are left out.
\<close>

section \<open>Layout\<close>

definition NINODES :: uint where [simp]: "NINODES = 200"
definition nbitmap :: uint where [simp]: "nbitmap = FSSIZE div (512 * 8) + 1"
definition ninodeblocks :: uint where [simp]: "ninodeblocks = NINODES div IPB + 1"
definition nlog :: uint where [simp]: "nlog = word_of_int LOGSIZE"
definition nmeta :: uint where [simp]: "nmeta = 2 + nlog + ninodeblocks + nbitmap"
definition nblocks :: uint where [simp]: "nblocks = FSSIZE - nmeta"

text \<open>\<^verbatim>\<open>xshort\<close> and \<^verbatim>\<open>xint\<close> store the bytes of a number in Intel order and read them as a number of the host.\<close>

definition xshort :: "ushort \<Rightarrow> ushort" where
  "xshort x = get16 ((\<lambda>_. 0)(0 := ucast x, 1 := ucast (drop_bit 8 x))) 0"

definition xint :: "uint \<Rightarrow> uint" where
  "xint x = get32 ((\<lambda>_. 0)(0 := ucast x, 1 := ucast (drop_bit 8 x), 2 := ucast (drop_bit 16 x), 3 := ucast (drop_bit 24 x))) 0"

definition mksb :: superblock where
  "mksb = \<lparr>sb_size = xint FSSIZE, sb_nblocks = xint nblocks, sb_ninodes = xint NINODES, sb_nlog = xint nlog,
           sb_logstart = xint 2, sb_inodestart = xint (2 + nlog), sb_bmapstart = xint (2 + nlog + ninodeblocks)\<rparr>"

definition sb_block :: block where
  "sb_block = put32 24 (sb_bmapstart mksb) (put32 20 (sb_inodestart mksb) (put32 16 (sb_logstart mksb)
     (put32 12 (sb_nlog mksb) (put32 8 (sb_ninodes mksb) (put32 4 (sb_nblocks mksb) (put32 0 (sb_size mksb) (\<lambda>_. 0)))))))"

section \<open>Sectors and inodes\<close>

text \<open>The image, with its length in sectors, and the counters \<^verbatim>\<open>freeinode\<close> and \<^verbatim>\<open>freeblock\<close>.\<close>

record mkfs_state =
  img :: "nat \<Rightarrow> block"
  img_len :: nat
  freeinode :: uint
  freeblock :: uint

text \<open>The sector at the offset \<^verbatim>\<open>sec * BSIZE\<close>, a 32-bit product.\<close>

definition sector :: "uint \<Rightarrow> nat" where
  "sector sec = unat (sec * 512) div 512"

definition wsect :: "uint \<Rightarrow> block \<Rightarrow> mkfs_state \<Rightarrow> mkfs_state" where
  "wsect sec d m = m\<lparr>img := (img m)(sector sec := d), img_len := max (img_len m) (sector sec + 1)\<rparr>"

definition rsect :: "uint \<Rightarrow> mkfs_state \<Rightarrow> block result" where
  "rsect sec m = (if sector sec < img_len m then Inr (img m (sector sec)) else Inl (Panic ''read''))"

definition winode :: "uint \<Rightarrow> dinode \<Rightarrow> mkfs_state \<Rightarrow> mkfs_state result" where
  "winode inum ip m =
     bindr (rsect (IBLOCK inum mksb) m) (\<lambda>buf.
     Inr (wsect (IBLOCK inum mksb) (put_dinode (dinode_off inum) ip buf) m))"

definition rinode :: "uint \<Rightarrow> mkfs_state \<Rightarrow> dinode result" where
  "rinode inum m =
     bindr (rsect (IBLOCK inum mksb) m) (\<lambda>buf. Inr (get_dinode buf (dinode_off inum)))"

definition mk_ialloc :: "ushort \<Rightarrow> mkfs_state \<Rightarrow> (uint \<times> mkfs_state) result" where
  "mk_ialloc type m =
     (let inum = freeinode m;
          din = \<lparr>d_type = xshort type, d_major = 0, d_minor = 0, d_nlink = xshort 1, d_size = xint 0, d_addrs = (\<lambda>_. 0)\<rparr> in
      bindr (winode inum din (m\<lparr>freeinode := inum + 1\<rparr>)) (\<lambda>m. Inr (inum, m)))"

text \<open>The argument of \<^verbatim>\<open>balloc\<close> is an \<^verbatim>\<open>int\<close>.\<close>

definition used_map :: "nat \<Rightarrow> block" where
  "used_map used = fold (\<lambda>i buf. buf(i div 8 := buf (i div 8) OR push_bit (i mod 8) 1)) [0..<used] (\<lambda>_. 0)"

definition mk_balloc :: "int \<Rightarrow> mkfs_state \<Rightarrow> mkfs_state result" where
  "mk_balloc used m =
     bindr (panic_if (\<not> used < 512 * 8) ''assertion'') (\<lambda>_.
     Inr (wsect (sb_bmapstart mksb) (used_map (nat used)) m))"

section \<open>Appending to a file\<close>

definition fresh :: "mkfs_state \<Rightarrow> uint \<times> mkfs_state" where
  "fresh m = (xint (freeblock m), m\<lparr>freeblock := freeblock m + 1\<rparr>)"

text \<open>The block \<open>x\<close> for the part \<open>fbn\<close> of the file, allocated if there is none.\<close>

definition file_block :: "nat \<Rightarrow> dinode \<Rightarrow> mkfs_state \<Rightarrow> (uint \<times> dinode \<times> mkfs_state) result" where
  "file_block fbn din m =
     (if fbn < NDIRECT then
        let (din, m) =
          (if xint (d_addrs din fbn) = 0 then
             let (b, m) = fresh m in (din\<lparr>d_addrs := (d_addrs din)(fbn := b)\<rparr>, m)
           else (din, m))
        in Inr (xint (d_addrs din fbn), din, m)
      else
        let (din, m) =
          (if xint (d_addrs din NDIRECT) = 0 then
             let (b, m) = fresh m in (din\<lparr>d_addrs := (d_addrs din)(NDIRECT := b)\<rparr>, m)
           else (din, m)) in
        bindr (rsect (xint (d_addrs din NDIRECT)) m) (\<lambda>indirect.
        let (indirect, m) =
          (if get32 indirect (4 * (fbn - NDIRECT)) = 0 then
             let (b, m) = fresh m; indirect = put32 (4 * (fbn - NDIRECT)) b indirect
             in (indirect, wsect (xint (d_addrs din NDIRECT)) indirect m)
           else (indirect, m))
        in Inr (xint (get32 indirect (4 * (fbn - NDIRECT))), din, m)))"

definition bcopy :: "uchar list \<Rightarrow> block \<Rightarrow> nat \<Rightarrow> nat \<Rightarrow> block" where
  "bcopy p buf o' n = (\<lambda>i. if o' \<le> i \<and> i < o' + n then p ! (i - o') else buf i)"

lemma unat_numeral_512: "unat (512 :: uint) = 512"
  by simp

text \<open>The loop of \<^verbatim>\<open>iappend\<close> over the bytes \<open>p\<close> that are left.\<close>

function iappend_loop :: "uint \<Rightarrow> uchar list \<Rightarrow> dinode \<Rightarrow> mkfs_state \<Rightarrow> (uint \<times> dinode \<times> mkfs_state) result" where
  "iappend_loop off p din m =
     (if p = [] then Inr (off, din, m)
      else
        let fbn = unat (off div 512) in
        if \<not> fbn < MAXFILE then Inl (Panic ''assertion'')
        else
          bindr (file_block fbn din m) (\<lambda>x.
          let n1 = min (length p) ((fbn + 1) * 512 - unat off) in
          bindr (rsect (fst x) (snd (snd x))) (\<lambda>buf.
          iappend_loop (off + of_nat n1) (drop n1 p) (fst (snd x))
            (wsect (fst x) (bcopy p buf (unat off - fbn * 512) n1) (snd (snd x))))))"
  by pat_completeness auto
termination
proof (relation "measure (\<lambda>(_, p, _). length p)", goal_cases)
  case (2 off p din m fbn x n1 buf)
  have "x < (x div 512 + 1) * 512" for x :: nat using dividend_less_div_times [of 512 x] by simp
  then have "unat off < (unat (off div 512) + 1) * 512" unfolding unat_div unat_numeral_512 .
  then have "0 < (fbn + 1) * 512 - unat off" unfolding 2(2) using zero_less_diff by blast
  then have "0 < n1" unfolding 2(5) min_less_iff_conj using 2(1) by (simp only: length_greater_0_conv simp_thms)
  then show ?case using 2(1) by simp
qed simp

declare iappend_loop.simps [simp del]

definition iappend :: "uint \<Rightarrow> uchar list \<Rightarrow> mkfs_state \<Rightarrow> mkfs_state result" where
  "iappend inum p m =
     bindr (rinode inum m) (\<lambda>din.
     bindr (iappend_loop (xint (d_size din)) p din m) (\<lambda>(off, din, m).
     winode inum (din\<lparr>d_size := xint off\<rparr>) m))"

section \<open>The program\<close>

text \<open>A file of the host: its name and what the calls of \<^verbatim>\<open>read\<close> return, or no contents if it cannot be opened.\<close>

type_synonym host_file = "string \<times> uchar list list option"

definition dirent :: "uint \<Rightarrow> string \<Rightarrow> uchar list" where
  "dirent inum name =
     map (make_dirent (xshort (ucast inum)) (strncpy (\<lambda>_. 0) (\<lambda>i. if i < length name then of_char (name ! i) else 0) (int DIRSIZ))) [0..<16]"

definition add_file :: "host_file \<Rightarrow> mkfs_state \<Rightarrow> mkfs_state result" where
  "add_file f m =
     (case f of (name, data) \<Rightarrow>
      bindr (panic_if (CHR ''/'' \<in> set name) ''assertion'') (\<lambda>_.
      case data of
        None \<Rightarrow> Inl (Panic name)
      | Some chunks \<Rightarrow>
          let name = (if name \<noteq> [] \<and> hd name = CHR ''_'' then tl name else name) in
          bindr (mk_ialloc T_FILE m) (\<lambda>(inum, m).
          bindr (iappend ROOTINO (dirent inum name) m) (\<lambda>m.
          iter (iappend inum) chunks m))))"

definition fix_root_size :: "mkfs_state \<Rightarrow> mkfs_state result" where
  "fix_root_size m =
     bindr (rinode ROOTINO m) (\<lambda>din.
     winode ROOTINO (din\<lparr>d_size := xint ((xint (d_size din) div 512 + 1) * 512)\<rparr>) m)"

definition mkfs :: "host_file list \<Rightarrow> mkfs_state result" where
  "mkfs files =
     (let m = \<lparr>img = (\<lambda>_ _. 0), img_len = 0, freeinode = 1, freeblock = nmeta\<rparr>;
          m = fold (\<lambda>i. wsect (of_nat i) (\<lambda>_. 0)) [0..<unat FSSIZE] m;
          m = wsect 1 sb_block m in
      bindr (mk_ialloc T_DIR m) (\<lambda>(rootino, m).
      bindr (panic_if (rootino \<noteq> ROOTINO) ''assertion'') (\<lambda>_.
      bindr (iappend rootino (dirent rootino ''.'') m) (\<lambda>m.
      bindr (iappend rootino (dirent rootino ''..'') m) (\<lambda>m.
      bindr (iter add_file files m) (\<lambda>m.
      bindr (fix_root_size m) (\<lambda>m.
      mk_balloc (sint (freeblock m)) m)))))))"

end
