(* ===== verification/Umalloc.thy ===== *)
theory Umalloc
  imports User
begin

text \<open>
  The memory allocator of user programs (\<^verbatim>\<open>umalloc.c\<close>). Memory is seen as headers at addresses;
  pointer arithmetic on \<^verbatim>\<open>Header*\<close> is in units of 8 bytes. The walks along the free list carry a bound
  on their length; a list has fewer than \<open>2 ^ 29\<close> blocks, as many as fit into the address space.
\<close>

record header =
  h_ptr :: uint
  h_size :: uint

record arena =
  hdrs :: "uint \<Rightarrow> header"
  freep :: uint

definition set_ptr :: "uint \<Rightarrow> uint \<Rightarrow> arena \<Rightarrow> arena" where
  "set_ptr p v m = m\<lparr>hdrs := (hdrs m)(p := (hdrs m p)\<lparr>h_ptr := v\<rparr>)\<rparr>"

definition set_size :: "uint \<Rightarrow> uint \<Rightarrow> arena \<Rightarrow> arena" where
  "set_size p v m = m\<lparr>hdrs := (hdrs m)(p := (hdrs m p)\<lparr>h_size := v\<rparr>)\<rparr>"

definition ptr_of :: "arena \<Rightarrow> uint \<Rightarrow> uint" where
  "ptr_of m p = h_ptr (hdrs m p)"

definition size_of :: "arena \<Rightarrow> uint \<Rightarrow> uint" where
  "size_of m p = h_size (hdrs m p)"

text \<open>The loop of \<^verbatim>\<open>free\<close>: the free block after which \<open>bp\<close> goes.\<close>

primrec free_walk :: "nat \<Rightarrow> arena \<Rightarrow> uint \<Rightarrow> uint \<Rightarrow> uint result" where
  "free_walk 0 m bp p = Inl Out_Of_Fuel"
| "free_walk (Suc n) m bp p =
     (if bp > p \<and> bp < ptr_of m p then Inr p
      else if p \<ge> ptr_of m p \<and> (bp > p \<or> bp < ptr_of m p) then Inr p
      else free_walk n m bp (ptr_of m p))"

text \<open>Inserting \<open>bp\<close> after \<open>p\<close>, joined to the block above and to the block below where they meet.\<close>

definition join_upper :: "uint \<Rightarrow> uint \<Rightarrow> arena \<Rightarrow> arena" where
  "join_upper bp p m =
     (if bp + 8 * size_of m bp = ptr_of m p then
        let m = set_size bp (size_of m bp + size_of m (ptr_of m p)) m
        in set_ptr bp (ptr_of m (ptr_of m p)) m
      else set_ptr bp (ptr_of m p) m)"

definition join_lower :: "uint \<Rightarrow> uint \<Rightarrow> arena \<Rightarrow> arena" where
  "join_lower bp p m =
     (if p + 8 * size_of m p = bp then
        let m = set_size p (size_of m p + size_of m bp) m
        in set_ptr p (ptr_of m bp) m
      else set_ptr p bp m)"

definition free :: "uint \<Rightarrow> arena \<Rightarrow> arena result" where
  "free ap m =
     (let bp = ap - 8 in
      bindr (free_walk (2 ^ 30) m bp (freep m)) (\<lambda>p.
      Inr ((join_lower bp p (join_upper bp p m))\<lparr>freep := p\<rparr>)))"

definition morecore :: "uint \<Rightarrow> arena \<Rightarrow> (uint \<times> arena) user" where
  "morecore nu m =
     (let nu = (if nu < 4096 then 4096 else nu) in
      bindi (sys (U_sbrk (sint (nu * 8)))) (\<lambda>v.
      if v = -1 then ret (0, m)
      else
        let hp = word_of_int v in
        bindi (lift (free (hp + 8) (set_size hp nu m))) (\<lambda>m.
        ret (freep m, m))))"

text \<open>Taking \<open>nunits\<close> from the block \<open>p\<close>, which \<open>prevp\<close> points to.\<close>

definition carve :: "uint \<Rightarrow> uint \<Rightarrow> uint \<Rightarrow> arena \<Rightarrow> uint \<times> arena" where
  "carve nunits prevp p m =
     (let (p, m) =
        (if size_of m p = nunits then (p, set_ptr prevp (ptr_of m p) m)
         else
           let m = set_size p (size_of m p - nunits) m;
               p = p + 8 * size_of m p
           in (p, set_size p nunits m))
      in (p + 8, m\<lparr>freep := prevp\<rparr>))"

primrec malloc_loop :: "nat \<Rightarrow> uint \<Rightarrow> uint \<Rightarrow> uint \<Rightarrow> arena \<Rightarrow> (uint \<times> arena) user" where
  "malloc_loop 0 nunits prevp p m = fault Out_Of_Fuel"
| "malloc_loop (Suc n) nunits prevp p m =
     (if size_of m p \<ge> nunits then ret (carve nunits prevp p m)
      else if p = freep m then
        bindi (morecore nunits m) (\<lambda>(p, m).
        if p = 0 then ret (0, m) else malloc_loop n nunits p (ptr_of m p) m)
      else malloc_loop n nunits p (ptr_of m p) m)"

text \<open>\<open>base\<close> is the address of the variable of that name, which the linker chooses.\<close>

definition malloc_start :: "uint \<Rightarrow> arena \<Rightarrow> arena" where
  "malloc_start base m =
     (if freep m = 0 then set_size base 0 ((set_ptr base base m)\<lparr>freep := base\<rparr>) else m)"

definition malloc :: "uint \<Rightarrow> uint \<Rightarrow> arena \<Rightarrow> (uint \<times> arena) user" where
  "malloc base nbytes m =
     (let nunits = (nbytes + 8 - 1) div 8 + 1;
          m = malloc_start base m
      in malloc_loop (2 ^ 31) nunits (freep m) (ptr_of m (freep m)) m)"

section \<open>The free list\<close>

text \<open>\<open>fchain m p xs q\<close>: from \<open>p\<close> the pointers run through \<open>xs\<close> to \<open>q\<close>.\<close>

primrec fchain :: "arena \<Rightarrow> uint \<Rightarrow> uint list \<Rightarrow> uint \<Rightarrow> bool" where
  "fchain m p [] q \<longleftrightarrow> ptr_of m p = q"
| "fchain m p (x # xs) q \<longleftrightarrow> ptr_of m p = x \<and> fchain m x xs q"

text \<open>The end of a block, as a number, and the bytes it takes up.\<close>

definition bend :: "arena \<Rightarrow> uint \<Rightarrow> nat" where
  "bend m p = unat p + 8 * unat (size_of m p)"

definition region :: "arena \<Rightarrow> uint \<Rightarrow> nat set" where
  "region m p = {unat p ..< bend m p}"

definition units :: "arena \<Rightarrow> uint list \<Rightarrow> nat set" where
  "units m xs = (\<Union>x \<in> set xs. region m x)"

text \<open>Blocks in the order of their addresses, none empty, and with something between any two.\<close>

primrec spaced :: "arena \<Rightarrow> nat \<Rightarrow> uint list \<Rightarrow> bool" where
  "spaced m lo [] \<longleftrightarrow> True"
| "spaced m lo (x # xs) \<longleftrightarrow> lo < unat x \<and> 0 < unat (size_of m x) \<and> bend m x < 2 ^ 32 \<and> spaced m (bend m x) xs"

definition arena_ok :: "uint \<Rightarrow> arena \<Rightarrow> uint list \<Rightarrow> bool" where
  "arena_ok base m xs \<longleftrightarrow> base \<noteq> 0 \<and> size_of m base = 0 \<and> fchain m base xs base \<and> spaced m (unat base) xs \<and> freep m \<in> set (base # xs)"

lemma ptr_size_set [simp]:
  "ptr_of (set_ptr p v m) x = (if x = p then v else ptr_of m x)" "size_of (set_ptr p v m) x = size_of m x"
  "ptr_of (set_size p v m) x = ptr_of m x" "size_of (set_size p v m) x = (if x = p then v else size_of m x)"
  "ptr_of (m\<lparr>freep := f\<rparr>) = ptr_of m" "size_of (m\<lparr>freep := f\<rparr>) = size_of m"
  "freep (set_ptr p v m) = freep m" "freep (set_size p v m) = freep m"
  by (auto simp: ptr_of_def size_of_def set_ptr_def set_size_def)

lemma fchain_append: "fchain m p (xs @ ys) q \<longleftrightarrow> fchain m p xs (hd (ys @ [q])) \<and> fchain m (last (p # xs)) ys q"
proof (induction xs arbitrary: p)
  case Nil
  show ?case by (cases ys) auto
qed auto

lemma fchain_cong: "(\<And>x. x \<in> set (p # xs) \<Longrightarrow> ptr_of m' x = ptr_of m x) \<Longrightarrow> fchain m' p xs q = fchain m p xs q"
  by (induction xs arbitrary: p) auto

text \<open>A fchain may start at another node with the same pointer.\<close>

lemma fchain_start:
  assumes "fchain m p xs q" and "ptr_of m' p' = ptr_of m p" and "\<And>x. x \<in> set xs \<Longrightarrow> ptr_of m' x = ptr_of m x"
  shows "fchain m' p' xs q"
proof (cases xs)
  case (Cons y ys)
  have "fchain m' y ys q = fchain m y ys q" by (rule fchain_cong) (use assms(3) Cons in auto)
  then show ?thesis using assms(1,2) Cons by simp
qed (use assms in simp)

lemma fchain_set_last:
  assumes "fchain m p xs q" and "distinct (p # xs)" and "ptr_of m' (last (p # xs)) = r"
    and "\<And>x. x \<in> set (p # xs) \<Longrightarrow> x \<noteq> last (p # xs) \<Longrightarrow> ptr_of m' x = ptr_of m x"
  shows "fchain m' p xs r"
  using assms
proof (induction xs arbitrary: p)
  case (Cons x xs)
  then have "p \<noteq> last (x # xs)" by (metis distinct.simps(2) last_in_set list.discI)
  then show ?case using Cons by auto
qed simp

definition endl :: "arena \<Rightarrow> nat \<Rightarrow> uint list \<Rightarrow> nat" where
  "endl m lo xs = (if xs = [] then lo else bend m (last xs))"

lemma spaced_append: "spaced m lo (xs @ ys) \<longleftrightarrow> spaced m lo xs \<and> spaced m (endl m lo xs) ys"
  by (induction xs arbitrary: lo) (auto simp: endl_def)

lemma spaced_cong: "(\<And>x. x \<in> set xs \<Longrightarrow> size_of m' x = size_of m x) \<Longrightarrow> spaced m' lo xs = spaced m lo xs"
  by (induction xs arbitrary: lo) (auto simp: bend_def)

lemma spaced_endl: "spaced m lo xs \<Longrightarrow> lo \<le> endl m lo xs"
proof (induction xs arbitrary: lo)
  case (Cons y xs)
  have "endl m lo (y # xs) = endl m (bend m y) xs" by (simp add: endl_def)
  moreover have "lo < bend m y" using Cons.prems by (simp add: bend_def)
  ultimately show ?case using Cons.IH [of "bend m y"] Cons.prems by simp
qed (simp add: endl_def)

lemma spaced_member:
  "spaced m lo xs \<Longrightarrow> x \<in> set xs \<Longrightarrow> lo < unat x \<and> unat x < bend m x \<and> bend m x \<le> endl m lo xs \<and> bend m x < 2 ^ 32 \<and> 0 < unat (size_of m x)"
proof (induction xs arbitrary: lo)
  case (Cons y xs)
  have y: "spaced m (bend m y) xs" "lo < unat y" "unat y < bend m y" "bend m y < 2 ^ 32" "0 < unat (size_of m y)"
    using Cons.prems(1) by (simp_all add: bend_def)
  note IH = Cons.IH [OF y(1)]
  have e: "endl m lo (y # xs) = endl m (bend m y) xs" by (simp add: endl_def)
  show ?case
  proof (cases "x = y")
    case True
    then show ?thesis using y spaced_endl [OF y(1)] e by simp
  next
    case False
    then have "x \<in> set xs" using Cons.prems(2) by simp
    then show ?thesis using IH y e by fastforce
  qed
qed simp

lemma spaced_sorted: "spaced m lo xs \<Longrightarrow> sorted_wrt (<) xs"
proof (induction xs arbitrary: lo)
  case (Cons x xs)
  have "spaced m (bend m x) xs" "unat x < bend m x" using Cons.prems by (simp_all add: bend_def)
  then show ?case using Cons.IH spaced_member [of m "bend m x" xs] by (auto simp: word_less_nat_alt intro: less_trans)
qed simp

lemma spaced_disjoint:
  assumes "spaced m lo xs" and "x \<in> set xs" and "y \<in> set xs" and "x \<noteq> y"
  shows "region m x \<inter> region m y = {}"
  using assms
proof (induction xs arbitrary: lo)
  case (Cons z xs)
  have *: "region m z \<inter> region m w = {}" if "w \<in> set xs" for w
    using spaced_member [of m "bend m z" xs w] Cons.prems(1) that by (auto simp: region_def)
  show ?case using Cons.prems Cons.IH [of "bend m z"] * by (auto simp: Int_commute)
qed simp

text \<open>Where a new block goes.\<close>

lemma spaced_split:
  assumes "spaced m lo xs" and "lo \<le> unat b" and "0 < k" and "{unat b ..< unat b + k} \<inter> units m xs = {}"
  shows "\<exists>us vs. xs = us @ vs \<and> endl m lo us \<le> unat b \<and> (\<forall>v \<in> set vs. unat b + k \<le> unat v)"
  using assms
proof (induction xs arbitrary: lo)
  case Nil
  then show ?case by (auto simp: endl_def)
next
  case (Cons x xs)
  have x: "unat x < bend m x" "spaced m (bend m x) xs" using Cons.prems(1) by (simp_all add: bend_def)
  have d: "{unat b ..< unat b + k} \<inter> region m x = {}" "{unat b ..< unat b + k} \<inter> units m xs = {}"
    using Cons.prems(4) by (auto simp: units_def)
  have b: "unat b \<in> {unat b ..< unat b + k}" using Cons.prems(3) by simp
  show ?case
  proof (cases "unat x < unat b")
    case True
    have "unat b \<notin> region m x" using d(1) b by blast
    then have "bend m x \<le> unat b" using True by (simp add: region_def)
    then obtain us vs where "xs = us @ vs" "endl m (bend m x) us \<le> unat b" "\<forall>v \<in> set vs. unat b + k \<le> unat v"
      using Cons.IH [OF x(2) _ Cons.prems(3) d(2)] by blast
    then show ?thesis by (intro exI [of _ "x # us"] exI [of _ vs]) (auto simp: endl_def)
  next
    case False
    have "unat x \<in> region m x" using x(1) by (simp add: region_def)
    then have "unat x \<notin> {unat b ..< unat b + k}" using d(1) by blast
    then have "unat b + k \<le> unat x" using False by simp
    moreover have "unat x < unat v" if "v \<in> set xs" for v using spaced_member [OF x(2) that] x(1) by linarith
    ultimately have "\<forall>v \<in> set (x # xs). unat b + k \<le> unat v" by fastforce
    then show ?thesis using Cons.prems(2) by (intro exI [of _ "[]"] exI [of _ "x # xs"]) (auto simp: endl_def)
  qed
qed

section \<open>Giving a block back\<close>

lemma walk_up:
  assumes "fchain m f ws q" and "sorted_wrt (<) (f # ws)" and "last (f # ws) < b" and "b < q \<or> q \<le> last (f # ws)" and "length ws < n"
  shows "free_walk n m b f = Inr (last (f # ws))"
  using assms
proof (induction ws arbitrary: f n)
  case Nil
  then show ?case by (cases n) auto
next
  case (Cons g ws)
  obtain k where n: "n = Suc k" using Cons.prems(5) by (cases n) auto
  have g: "ptr_of m f = g" "f < g" using Cons.prems(1,2) by auto
  have "g \<le> last (g # ws)" using Cons.prems(2) by (cases "ws = []") (auto intro: less_imp_le)
  then have "\<not> b < g" "\<not> g \<le> f" using Cons.prems(3) g by auto
  moreover have "free_walk k m b g = Inr (last (g # ws))"
    by (rule Cons.IH) (use Cons.prems n in auto)
  ultimately show ?case using n g by auto
qed

lemma walk_round:
  assumes "fchain m f ws base" and "sorted_wrt (<) (f # ws)" and "b < f" and "base < b" and "length ws < n"
  shows "free_walk n m b f = free_walk (n - length ws - 1) m b base"
  using assms
proof (induction ws arbitrary: f n)
  case Nil
  then show ?case by (cases n) auto
next
  case (Cons g ws)
  obtain k where n: "n = Suc k" using Cons.prems(5) by (cases n) auto
  have g: "ptr_of m f = g" "f < g" using Cons.prems(1,2) by auto
  then have "\<not> f < b" "\<not> g \<le> f" using Cons.prems(3) by auto
  moreover have "free_walk k m b g = free_walk (k - length ws - 1) m b base"
    by (rule Cons.IH) (use Cons.prems n g in auto)
  ultimately show ?case using n g by auto
qed

text \<open>From anywhere in the list the search ends at the last block below \<open>b\<close>.\<close>

lemma free_walk_finds:
  assumes "arena_ok base m (us @ vs)" and "endl m (unat base) us \<le> unat b" and "\<forall>v \<in> set vs. b < v" and "base < b" and "f \<in> set (base # us @ vs)"
    and "\<forall>u \<in> set us. u < b" and "length (us @ vs) + 1 < n"
  shows "free_walk n m b f = Inr (last (base # us))"
proof -
  have c: "fchain m base us (hd (vs @ [base]))" "fchain m (last (base # us)) vs base"
    using assms(1) by (auto simp: arena_ok_def fchain_append)
  have sp: "spaced m (unat base) (us @ vs)" using assms(1) by (simp add: arena_ok_def)
  then have so: "sorted_wrt (<) (base # us @ vs)"
    using spaced_sorted [OF sp] spaced_member [OF sp] by (auto simp: word_less_nat_alt)
  have up: "free_walk k m b g = Inr (last (base # us))"
    if g: "base # us = as @ g # bs" and k: "length us + 1 \<le> k" for g as bs k
  proof -
    have l: "last (base # us) = last (g # bs)" using g by simp
    have "fchain m base us (hd (vs @ [base])) \<Longrightarrow> fchain m g bs (hd (vs @ [base]))"
      using g by (cases as) (auto simp: fchain_append)
    then have "fchain m g bs (hd (vs @ [base]))" using c(1) by simp
    moreover have "sorted_wrt (<) (g # bs)"
      using so g by (metis append_Cons sorted_wrt_append)
    moreover have "last (g # bs) < b" using assms(4,6) l by (metis last.simps last_in_set)
    moreover have "b < hd (vs @ [base]) \<or> hd (vs @ [base]) \<le> last (g # bs)"
    proof (cases vs)
      case Nil
      have "base \<le> last (base # us)" using so by (cases "us = []") (auto intro: less_imp_le)
      then show ?thesis using Nil l by simp
    qed (use assms(3) in simp)
    moreover have "length bs < k" using arg_cong [OF g, of length] k by simp
    ultimately show ?thesis using walk_up [of m g bs "hd (vs @ [base])" b k] l by simp
  qed
  show ?thesis
  proof (cases "f \<in> set (base # us)")
    case True
    then obtain as bs where "base # us = as @ f # bs" by (meson split_list)
    from up [OF this] show ?thesis using assms(7) by simp
  next
    case False
    then have "f \<in> set vs" using assms(5) by auto
    then obtain as bs where v: "vs = as @ f # bs" by (meson split_list)
    have "fchain m f bs base" using c(2) v by (auto simp: fchain_append)
    moreover have "sorted_wrt (<) (f # bs)" using so v by (simp add: sorted_wrt_append)
    ultimately have "free_walk n m b f = free_walk (n - length bs - 1) m b base"
      using walk_round [of m f bs base b n] assms(3,4,7) v by auto
    then show ?thesis using up [of "[]" base us "n - length bs - 1"] assms(7) v by simp
  qed
qed

lemma unat_unit: "unat (p + 8 * n :: uint) = unat p + 8 * unat n" if "unat p + 8 * unat n < 2 ^ 32"
  using that by (simp add: unat_word_ariths)

lemma unat_sum: "unat (a + b :: uint) = unat a + unat b" if "unat a + unat b < 2 ^ 32"
  using that by (simp add: unat_word_ariths)

lemma bend_iff: "bend m p < 2 ^ 32 \<Longrightarrow> p + 8 * size_of m p = q \<longleftrightarrow> bend m p = unat q"
  by (metis bend_def unat_unit word_unat_eq_iff)

text \<open>The two halves of \<^verbatim>\<open>free\<close>. First the block and what follows it.\<close>

lemma join_upper_ok:
  assumes c: "fchain m p vs base" and sp: "spaced m e vs" and pb: "p \<noteq> b"
    and b: "bend m b < 2 ^ 32" "0 < unat (size_of m b)" "unat base < unat b" and v: "\<forall>v \<in> set vs. bend m b \<le> unat v"
  defines "m1 \<equiv> join_upper b p m"
  shows "\<exists>vs1. fchain m1 b vs1 base \<and> set vs1 \<subseteq> set vs \<and> length vs1 \<le> length vs \<and> spaced m1 (bend m1 b) vs1 \<and> bend m1 b < 2 ^ 32 \<and> 0 < unat (size_of m1 b) \<and>
    region m1 b \<union> units m1 vs1 = region m b \<union> units m vs \<and> bend m b \<le> bend m1 b"
    and "\<And>x. x \<noteq> b \<Longrightarrow> ptr_of m1 x = ptr_of m x \<and> size_of m1 x = size_of m x" and "freep m1 = freep m"
proof -
  have ub: "unat b < bend m b" using b(2) by (simp add: bend_def)
  have nb: "b \<notin> set vs" using v ub by force
  show "\<And>x. x \<noteq> b \<Longrightarrow> ptr_of m1 x = ptr_of m x \<and> size_of m1 x = size_of m x" and "freep m1 = freep m"
    by (auto simp: m1_def join_upper_def Let_def)
  let ?q = "ptr_of m p"
  show "\<exists>vs1. fchain m1 b vs1 base \<and> set vs1 \<subseteq> set vs \<and> length vs1 \<le> length vs \<and> spaced m1 (bend m1 b) vs1 \<and> bend m1 b < 2 ^ 32 \<and> 0 < unat (size_of m1 b) \<and>
    region m1 b \<union> units m1 vs1 = region m b \<union> units m vs \<and> bend m b \<le> bend m1 b"
  proof (cases "bend m b = unat ?q")
    case True
    have "?q \<noteq> base" using True ub b(3) by auto
    then obtain vs1 where vs: "vs = ?q # vs1" using c by (cases vs) auto
    have q: "bend m ?q < 2 ^ 32" "spaced m (bend m ?q) vs1" "unat ?q < bend m ?q" using sp vs by (simp_all add: bend_def)
    have m1: "ptr_of m1 b = ptr_of m ?q" "size_of m1 b = size_of m b + size_of m ?q"
      using True bend_iff [OF b(1)] vs nb by (auto simp: m1_def join_upper_def Let_def)
    have s: "unat (size_of m1 b) = unat (size_of m b) + unat (size_of m ?q)"
      unfolding m1(2) using True q(1) by (intro unat_sum) (simp add: bend_def)
    then have e: "bend m1 b = bend m ?q" using True by (simp add: bend_def)
    have o: "ptr_of m1 x = ptr_of m x" "size_of m1 x = size_of m x" if "x \<noteq> b" for x
      using that by (auto simp: m1_def join_upper_def Let_def)
    have r: "region m1 x = region m x" if "x \<in> set vs1" for x
    proof -
      have "x \<noteq> b" using that nb vs by auto
      from o(2) [OF this] show ?thesis by (simp add: region_def bend_def)
    qed
    have "fchain m ?q vs1 base" using c vs by (metis fchain.simps(2))
    then have "fchain m1 b vs1 base" by (rule fchain_start [OF _ m1(1)]) (metis o(1) nb vs list.set_intros(2))
    moreover have "spaced m1 (bend m1 b) vs1" unfolding e by (subst spaced_cong [of vs1 m1 m]) (metis o(2) nb vs list.set_intros(2), rule q(2))
    moreover have "region m1 b = region m b \<union> region m ?q" unfolding region_def e using True q(3) ub by auto
    moreover have "units m1 vs1 = units m vs1" unfolding units_def using r by auto
    ultimately show ?thesis using e q True s b(2) vs by (intro exI [of _ vs1]) (auto simp: units_def)
  next
    case False
    have m1: "m1 = set_ptr b ?q m" using False bend_iff [OF b(1)] by (simp add: m1_def join_upper_def)
    have e: "bend m1 x = bend m x" for x by (simp add: m1 bend_def)
    have "fchain m1 b vs base" by (rule fchain_start [OF c]) (use nb in \<open>auto simp: m1\<close>)
    moreover have "spaced m1 (bend m1 b) vs"
    proof (cases vs)
      case (Cons x xs)
      have "x = ?q" using c Cons by simp
      then have "bend m b < unat x" using v Cons False by force
      then show ?thesis using sp Cons spaced_cong [of xs m1 m] by (simp add: e m1 bend_def)
    qed simp
    moreover have "region m1 = region m" "units m1 = units m" by (simp_all add: region_def units_def e fun_eq_iff)
    moreover have "size_of m1 b = size_of m b" by (simp add: m1)
    ultimately show ?thesis using b by (intro exI [of _ vs]) (simp add: e)
  qed
qed

text \<open>Then the block and what comes before it.\<close>

lemma join_lower_ok:
  assumes u: "fchain m base us q" "spaced m (unat base) us" "endl m (unat base) us \<le> unat b" "size_of m base = 0" "unat base < unat b"
    and v: "fchain m b vs base" "spaced m (bend m b) vs" "bend m b < 2 ^ 32" "0 < unat (size_of m b)"
    and d: "distinct (base # us)" "b \<notin> set (base # us)" "set vs \<inter> set (base # us) = {}" "b \<notin> set vs"
  defines "p \<equiv> last (base # us)"
  defines "m2 \<equiv> join_lower b p m"
  shows "\<exists>xs. fchain m2 base xs base \<and> spaced m2 (unat base) xs \<and> units m2 xs = units m us \<union> region m b \<union> units m vs \<and>
    size_of m2 base = 0 \<and> p \<in> set (base # xs) \<and> length xs \<le> length us + 1 + length vs \<and> set xs \<subseteq> set us \<union> {b} \<union> set vs"
    and "\<And>x. x \<noteq> p \<Longrightarrow> size_of m2 x = size_of m x" and "freep m2 = freep m"
proof -
  have ps: "p \<in> set (base # us)" unfolding p_def by (rule last_in_set) simp
  have pb: "p \<noteq> b" "p \<notin> set vs" using ps d by auto
  have o: "ptr_of m2 x = ptr_of m x" "size_of m2 x = size_of m x" if "x \<noteq> p" for x
    using that by (auto simp: m2_def join_lower_def Let_def)
  show "\<And>x. x \<noteq> p \<Longrightarrow> size_of m2 x = size_of m x" and "freep m2 = freep m"
    using o by (auto simp: m2_def join_lower_def Let_def)
  have be: "bend m p \<le> unat b" "bend m p < 2 ^ 32"
  proof -
    have "bend m p = endl m (unat base) us" by (simp add: p_def endl_def bend_def u(4))
    then show "bend m p \<le> unat b" using u(3) by simp
    then show "bend m p < 2 ^ 32" using v(3) by (simp add: bend_def)
  qed
  have up: "fchain m2 base us r" if "ptr_of m2 p = r" for r
    using fchain_set_last [OF u(1) d(1), of m2 r] that o(1) unfolding p_def by blast
  have rg: "region m2 x = region m x" if "x \<noteq> p" for x using o(2) [OF that] by (simp add: region_def bend_def)
  show "\<exists>xs. fchain m2 base xs base \<and> spaced m2 (unat base) xs \<and> units m2 xs = units m us \<union> region m b \<union> units m vs \<and>
    size_of m2 base = 0 \<and> p \<in> set (base # xs) \<and> length xs \<le> length us + 1 + length vs \<and> set xs \<subseteq> set us \<union> {b} \<union> set vs"
  proof (cases "bend m p = unat b")
    case True
    then have "us \<noteq> []" using u(4,5) by (auto simp: p_def bend_def)
    then obtain us' where us: "us = us' @ [p]" unfolding p_def by (metis append_butlast_last_id last_ConsR)
    have m2: "ptr_of m2 p = ptr_of m b" "size_of m2 p = size_of m p + size_of m b"
      using True bend_iff [OF be(2)] pb by (auto simp: m2_def join_lower_def Let_def)
    have s: "unat (size_of m2 p) = unat (size_of m p) + unat (size_of m b)"
      unfolding m2(2) using True v(3) by (intro unat_sum) (simp add: bend_def)
    then have e: "bend m2 p = bend m b" using True by (simp add: bend_def)
    have sz: "\<And>x. x \<in> set us' \<Longrightarrow> size_of m2 x = size_of m x" "\<And>x. x \<in> set vs \<Longrightarrow> size_of m2 x = size_of m x"
      using o(2) d(1) us pb by (metis UnCI distinct.simps(2) distinct_append in_set_conv_decomp not_distinct_conv_prefix set_append, metis)
    have "fchain m2 p vs base" by (rule fchain_start [OF v(1) m2(1)]) (metis o(1) pb(2))
    moreover have "ptr_of m2 p = hd (vs @ [base])" using m2(1) v(1) by (cases vs) auto
    then have "fchain m2 base us (hd (vs @ [base]))" by (rule up)
    ultimately have "fchain m2 base (us @ vs) base" by (simp add: fchain_append p_def)
    moreover have "spaced m2 (unat base) (us @ vs)"
    proof -
      have en: "endl m2 (unat base) us' = endl m (unat base) us'" using sz(1) by (simp add: endl_def bend_def)
      have s1: "spaced m (unat base) us'" "endl m (unat base) us' < unat p" using u(2) unfolding us spaced_append by auto
      have "endl m2 (unat base) (us' @ [p]) = bend m b" by (simp add: endl_def e)
      moreover have "spaced m2 (unat base) us'" "spaced m2 (bend m b) vs" using s1(1) v(2) sz spaced_cong [of us' m2 m] spaced_cong [of vs m2 m] by auto
      ultimately show ?thesis using s1(2) e s v(3,4) unfolding us spaced_append by (simp add: en)
    qed
    moreover have "units m2 (us @ vs) = units m us \<union> region m b \<union> units m vs"
    proof -
      have "region m2 p = region m p \<union> region m b" unfolding region_def e using True by (auto simp: bend_def)
      moreover have "region m2 x = region m x" if "x \<in> set us' \<union> set vs" for x using rg [of x] that d(1) us pb by auto
      ultimately show ?thesis unfolding us units_def by auto
    qed
    moreover have "size_of m2 base = 0" using o(2) [of base] d(1) us u(4) by auto
    ultimately show ?thesis by (intro exI [of _ "us @ vs"]) (auto simp: us)
  next
    case False
    have m2: "m2 = set_ptr p b m" using False bend_iff [OF be(2)] by (simp add: m2_def join_lower_def)
    have e: "size_of m2 = size_of m" "bend m2 = bend m" "region m2 = region m" "units m2 = units m"
      by (auto simp: m2 bend_def region_def units_def fun_eq_iff)
    have "fchain m2 base us b" using up by (simp add: m2)
    moreover have "fchain m2 b vs base" using v(1) pb by (subst fchain_cong [of b vs m2 m]) (auto simp: m2)
    ultimately have "fchain m2 base (us @ b # vs) base" by (simp add: fchain_append m2 p_def)
    moreover have "endl m (unat base) us < unat b" using be False u(4) by (auto simp: p_def endl_def bend_def split: if_splits)
    then have "spaced m2 (unat base) (us @ b # vs)"
      using u(2) v spaced_cong [of us m2 m] spaced_cong [of vs m2 m] by (auto simp: spaced_append endl_def e split: if_splits)
    ultimately show ?thesis using u(4) ps by (intro exI [of _ "us @ b # vs"]) (auto simp: e units_def)
  qed
qed

text \<open>Every block has at least 8 bytes, which bounds their number.\<close>

lemma spaced_length: "spaced m lo xs \<Longrightarrow> length xs < 2 ^ 29"
proof -
  have "spaced m lo xs \<Longrightarrow> lo + 8 * length xs \<le> endl m lo xs" for lo
  proof (induction xs arbitrary: lo)
    case (Cons x xs)
    have "endl m lo (x # xs) = endl m (bend m x) xs" by (simp add: endl_def)
    then show ?case using Cons.IH [of "bend m x"] Cons.prems by (simp add: bend_def)
  qed (simp add: endl_def)
  moreover assume sp: "spaced m lo xs"
  moreover have "xs \<noteq> [] \<Longrightarrow> endl m lo xs < 2 ^ 32" using spaced_member [OF sp, of "last xs"] by (simp add: endl_def)
  ultimately show ?thesis by (cases "xs = []") fastforce+
qed

text \<open>\<^verbatim>\<open>free\<close> adds the block to the free list and changes the size in no header outside the list.\<close>

lemma free_ok:
  assumes a: "arena_ok base m xs" and b: "unat base < unat b" "bend m b < 2 ^ 32" "0 < unat (size_of m b)" "region m b \<inter> units m xs = {}"
  shows "\<exists>m' ys. free (b + 8) m = Inr m' \<and> arena_ok base m' ys \<and> units m' ys = units m xs \<union> region m b \<and>
    length ys \<le> length xs + 1 \<and> (\<forall>x. x \<notin> set xs \<union> {b} \<longrightarrow> size_of m' x = size_of m x)"
proof -
  have sp: "spaced m (unat base) xs" and s0: "size_of m base = 0" and ch: "fchain m base xs base" and b0: "base \<noteq> 0"
    using a by (auto simp: arena_ok_def)
  have k: "unat b + 8 * unat (size_of m b) = bend m b" "unat b < bend m b" using b(3) by (simp_all add: bend_def)
  obtain us vs where x: "xs = us @ vs" "endl m (unat base) us \<le> unat b" "\<forall>v \<in> set vs. bend m b \<le> unat v"
    using spaced_split [OF sp, of b "8 * unat (size_of m b)"] b(1,3,4) unfolding k(1) region_def by auto
  have u: "spaced m (unat base) us" "spaced m (endl m (unat base) us) vs" using sp x(1) by (simp_all add: spaced_append)
  have c: "fchain m base us (hd (vs @ [base]))" "fchain m (last (base # us)) vs base" using ch x(1) by (simp_all add: fchain_append)
  have lu: "\<forall>y \<in> set us. y < b"
    using spaced_member [OF u(1)] x(2) by (fastforce simp: word_less_nat_alt)
  have lv: "\<forall>v \<in> set vs. b < v" using x(3) k(2) by (auto simp: word_less_nat_alt)
  have bb: "base < b" using b(1) by (simp add: word_less_nat_alt)
  have so: "sorted_wrt (<) (base # us @ vs)"
    using spaced_sorted [OF sp] spaced_member [OF sp] x(1) by (auto simp: word_less_nat_alt)
  then have di: "distinct (base # us @ vs)" using strict_sorted_iff by blast
  define p where "p = last (base # us)"
  have ps: "p \<in> set (base # us)" unfolding p_def by (rule last_in_set) simp
  have nb: "b \<notin> set (base # us)" "b \<notin> set vs" "p \<noteq> b" using lu lv bb ps by auto
  have w: "free_walk (2 ^ 30) m b (freep m) = Inr p"
    unfolding p_def using free_walk_finds [of base m us vs b "freep m" "2 ^ 30"] a x(1,2) lu lv bb spaced_length [OF sp] by (simp add: arena_ok_def)
  define m1 where "m1 = join_upper b p m"
  note ju = join_upper_ok [OF c(2) [folded p_def] u(2) nb(3) b(2,3,1) x(3), folded m1_def]
  obtain vs1 where v: "fchain m1 b vs1 base" "set vs1 \<subseteq> set vs" "length vs1 \<le> length vs" "spaced m1 (bend m1 b) vs1" "bend m1 b < 2 ^ 32"
      "0 < unat (size_of m1 b)" "region m1 b \<union> units m1 vs1 = region m b \<union> units m vs"
    using ju(1) by blast
  have o: "\<And>y. y \<in> set (base # us) \<Longrightarrow> ptr_of m1 y = ptr_of m y \<and> size_of m1 y = size_of m y" using ju(2) nb(1) by metis
  have r: "\<And>y. y \<in> set us \<Longrightarrow> region m1 y = region m y" using o by (simp add: region_def bend_def)
  have u1: "fchain m1 base us (hd (vs @ [base]))" "spaced m1 (unat base) us" "endl m1 (unat base) us \<le> unat b" "size_of m1 base = 0"
    using c(1) fchain_cong [of base us m1 m] o u(1) spaced_cong [of us m1 m] x(2) s0 by (auto simp: endl_def bend_def)
  note jl = join_lower_ok [OF u1 b(1) v(1,4,5,6), folded p_def]
  have d: "distinct (base # us)" "set vs1 \<inter> set (base # us) = {}" "b \<notin> set vs1" using di v(2) nb(2) by auto
  define m2 where "m2 = join_lower b p m1"
  obtain ys where y: "fchain m2 base ys base" "spaced m2 (unat base) ys" "units m2 ys = units m1 us \<union> region m1 b \<union> units m1 vs1" "size_of m2 base = 0"
      "p \<in> set (base # ys)" "length ys \<le> length us + 1 + length vs1"
    using jl(1) [OF d(1) nb(1) d(2,3)] unfolding m2_def by blast
  have "free (b + 8) m = Inr (m2\<lparr>freep := p\<rparr>)" using w by (simp add: free_def m2_def m1_def)
  moreover have "arena_ok base (m2\<lparr>freep := p\<rparr>) ys"
    using y b0 fchain_cong [of base ys "m2\<lparr>freep := p\<rparr>" m2] spaced_cong [of ys "m2\<lparr>freep := p\<rparr>" m2] by (simp add: arena_ok_def)
  moreover have "units (m2\<lparr>freep := p\<rparr>) ys = units m xs \<union> region m b"
  proof -
    have "units m1 us = units m us" using r by (simp add: units_def)
    then have "units m2 ys = units m xs \<union> region m b" using y(3) v(7) x(1) by (auto simp: units_def)
    then show ?thesis by (simp add: units_def region_def bend_def)
  qed
  moreover have "size_of (m2\<lparr>freep := p\<rparr>) z = size_of m z" if "z \<notin> set xs \<union> {b}" for z
  proof (cases "z = p")
    case True
    then have "z = base" using ps that x(1) by auto
    then show ?thesis using y(4) s0 by simp
  next
    case False
    then show ?thesis using jl(2) [OF d(1) nb(1) d(2,3) False] ju(2) [of z] that by (simp add: m2_def)
  qed
  ultimately show ?thesis using y(6) v(3) x(1) by (intro exI [of _ "m2\<lparr>freep := p\<rparr>"] exI [of _ ys]) auto
qed

section \<open>Taking a block\<close>

lemma fchain_last: "fchain m p xs q \<Longrightarrow> ptr_of m (last (p # xs)) = q"
  by (induction xs arbitrary: p) auto

lemma fchain_hd: "fchain m p xs q \<Longrightarrow> ptr_of m p = hd (xs @ [q])"
  by (cases xs) auto

lemma arena_distinct: "arena_ok base m xs \<Longrightarrow> distinct (base # xs)"
proof -
  assume a: "arena_ok base m xs"
  then have sp: "spaced m (unat base) xs" by (simp add: arena_ok_def)
  have "distinct xs" using spaced_sorted [OF sp] strict_sorted_iff by blast
  then show ?thesis using spaced_member [OF sp, of base] by auto
qed

text \<open>The list seen from any of its nodes.\<close>

lemma rotate_list:
  assumes "fchain m base xs base" and "distinct (base # xs)" and "f \<in> set (base # xs)"
  shows "\<exists>os. fchain m f os f \<and> set (f # os) = set (base # xs) \<and> length os = length xs \<and> distinct (f # os)"
proof (cases "f = base")
  case True
  then show ?thesis using assms(1,2) by (intro exI [of _ xs]) simp
next
  case False
  then obtain us vs where x: "xs = us @ f # vs" using assms(3) by (auto dest: split_list)
  have c: "fchain m base us f" "fchain m f vs base" using assms(1) by (auto simp: x fchain_append)
  have "fchain m f (vs @ base # us) f" using c fchain_last [OF c(2)] by (simp add: fchain_append)
  then show ?thesis using assms(2) by (intro exI [of _ "vs @ base # us"]) (auto simp: x)
qed

lemma pred_unique:
  assumes "fchain m base (us @ x # vs) base" and "distinct (base # us @ x # vs)" and "p \<in> set (base # us @ x # vs)" and "ptr_of m p = x"
  shows "p = last (base # us)"
proof -
  obtain as bs where s: "base # us @ x # vs = as @ p # bs" using assms(3) by (meson split_list)
  have "fchain m p bs base"
  proof (cases as)
    case (Cons a as')
    then have "us @ x # vs = as' @ p # bs" using s by simp
    then show ?thesis using assms(1) by (auto simp: fchain_append)
  qed (use s assms(1) in auto)
  then have h: "hd (bs @ [base]) = x" using fchain_hd assms(4) by metis
  have "bs \<noteq> []" using h assms(2) by auto
  then obtain cs where b: "bs = x # cs" using h by (cases bs) auto
  then have "(base # us) @ x # vs = (as @ [p]) @ x # cs" using s by simp
  moreover have "x \<notin> set (base # us)" "x \<notin> set vs" using assms(2) by auto
  ultimately have "base # us = as @ [p]" using append_Cons_eq_iff [of x "base # us" vs "as @ [p]" cs] by simp
  then show ?thesis by (metis last_snoc)
qed

lemma malloc_search:
  assumes "fchain m prev ws x" and "\<forall>w \<in> set ws. size_of m w < nunits \<and> w \<noteq> freep m"
  shows "malloc_loop (length ws + n) nunits prev (ptr_of m prev) m = malloc_loop n nunits (last (prev # ws)) x m"
  using assms by (induction ws arbitrary: prev) (auto simp: not_le)

lemma spaced_weaken: "spaced m lo xs \<Longrightarrow> lo' \<le> lo \<Longrightarrow> spaced m lo' xs"
  by (cases xs) auto

text \<open>The two ways the search can go.\<close>

lemma malloc_found:
  assumes a: "arena_ok base m xs" and f: "\<exists>x \<in> set xs. nunits \<le> size_of m x" and "0 < nunits" and "length xs < n"
  shows "\<exists>p x. malloc_loop n nunits (freep m) (ptr_of m (freep m)) m = ret (carve nunits p x m) \<and>
    x \<in> set xs \<and> p \<in> set (base # xs) \<and> ptr_of m p = x \<and> nunits \<le> size_of m x"
proof -
  let ?f = "freep m"
  obtain os where o: "fchain m ?f os ?f" "set (?f # os) = set (base # xs)" "length os = length xs" "distinct (?f # os)"
    using rotate_list [of m base xs ?f] a arena_distinct [OF a] by (auto simp: arena_ok_def)
  have z: "\<not> nunits \<le> size_of m base" using a assms(3) by (simp add: arena_ok_def)
  have ex: "\<exists>x \<in> set (os @ [?f]). nunits \<le> size_of m x" using f o(2) by auto
  then obtain ws x rest where s: "os @ [?f] = ws @ x # rest" "nunits \<le> size_of m x" "\<forall>w \<in> set ws. \<not> nunits \<le> size_of m w"
    using split_list_first_prop [OF ex] by blast
  have ws: "set ws \<subseteq> set os" "fchain m ?f ws x" "length ws \<le> length os"
  proof -
    have "rest = [] \<and> ws = os \<and> x = ?f \<or> (\<exists>r. rest = r @ [?f] \<and> os = ws @ x # r)"
      using s(1) by (cases rest rule: rev_cases) auto
    then show "set ws \<subseteq> set os" "fchain m ?f ws x" "length ws \<le> length os" using o(1) by (auto simp: fchain_append)
  qed
  have xs: "x \<in> set xs"
  proof -
    have "x \<in> set (os @ [?f])" using s(1) by simp
    then have "x \<in> set (base # xs)" using o(2) by auto
    then show ?thesis using z s(2) by auto
  qed
  have n: "n = length ws + Suc (n - length ws - 1)" using ws(3) o(3) assms(4) by simp
  have "malloc_loop n nunits ?f (ptr_of m ?f) m = malloc_loop (Suc (n - length ws - 1)) nunits (last (?f # ws)) x m"
    by (subst n) (rule malloc_search [OF ws(2)], use s(3) ws(1) o(4) in \<open>auto simp: not_le\<close>)
  also have "\<dots> = ret (carve nunits (last (?f # ws)) x m)" using s(2) by simp
  finally have "malloc_loop n nunits ?f (ptr_of m ?f) m = ret (carve nunits (last (?f # ws)) x m)" .
  moreover have "last (?f # ws) \<in> set (?f # ws)" by (rule last_in_set) simp
  then have "last (?f # ws) \<in> set (base # xs)" using ws(1) o(2) by (metis insert_mono list.simps(15) subsetD)
  ultimately show ?thesis using xs s(2) fchain_last [OF ws(2)] by blast
qed

lemma malloc_asks:
  assumes a: "arena_ok base m xs" and f: "\<forall>x \<in> set xs. size_of m x < nunits" and "0 < nunits" and "length xs < n"
  shows "malloc_loop n nunits (freep m) (ptr_of m (freep m)) m =
    bindi (morecore nunits m) (\<lambda>(p, m). if p = 0 then ret (0, m) else malloc_loop (n - length xs - 1) nunits p (ptr_of m p) m)"
proof -
  let ?f = "freep m"
  obtain os where o: "fchain m ?f os ?f" "set (?f # os) = set (base # xs)" "length os = length xs" "distinct (?f # os)"
    using rotate_list [of m base xs ?f] a arena_distinct [OF a] by (auto simp: arena_ok_def)
  have z: "size_of m w < nunits" if "w \<in> set (?f # os)" for w
  proof -
    have "w \<in> set (base # xs)" using that unfolding o(2) .
    then show ?thesis using f a assms(3) by (auto simp: arena_ok_def)
  qed
  have n: "n = length os + Suc (n - length xs - 1)" using o(3) assms(4) by simp
  have "malloc_loop n nunits ?f (ptr_of m ?f) m = malloc_loop (Suc (n - length xs - 1)) nunits (last (?f # os)) ?f m"
    by (subst n) (rule malloc_search [OF o(1)], use z o(4) in auto)
  also have "\<dots> = bindi (morecore nunits m) (\<lambda>(p, m). if p = 0 then ret (0, m) else malloc_loop (n - length xs - 1) nunits p (ptr_of m p) m)"
  proof -
    have "\<not> nunits \<le> size_of m ?f" using z [of ?f] by (simp add: not_le)
    then show ?thesis unfolding malloc_loop.simps by (simp only: if_False simp_thms if_True)
  qed
  finally show ?thesis .
qed

text \<open>The block handed out: its header at \<open>h\<close>, and the bytes it takes from the free list.\<close>

definition slab :: "uint \<Rightarrow> uint \<Rightarrow> nat set" where
  "slab h nunits = {unat h ..< unat h + 8 * unat nunits}"

lemma carve_whole:
  assumes a: "arena_ok base m (us @ x # vs)"
  defines "p \<equiv> last (base # us)"
  defines "m' \<equiv> (set_ptr p (ptr_of m x) m)\<lparr>freep := p\<rparr>"
  shows "arena_ok base m' (us @ vs)" and "units m' (us @ vs) = units m (us @ x # vs) - region m x"
proof -
  have d: "distinct (base # us @ x # vs)" by (rule arena_distinct [OF a])
  have ps: "p \<in> set (base # us)" unfolding p_def by (rule last_in_set) simp
  have c: "fchain m base us x" "fchain m x vs base" and sp: "spaced m (unat base) (us @ x # vs)"
    using a by (auto simp: arena_ok_def fchain_append)
  have m': "size_of m' = size_of m" "ptr_of m' p = ptr_of m x" "\<And>y. y \<noteq> p \<Longrightarrow> ptr_of m' y = ptr_of m y" "freep m' = p"
    by (auto simp: m'_def fun_eq_iff)
  have e: "bend m' = bend m" "region m' = region m" "units m' = units m" by (auto simp: bend_def region_def units_def m'(1) fun_eq_iff)
  have "fchain m' base us (hd (vs @ [base]))"
    by (rule fchain_set_last [OF c(1)]) (use d m'(2,3) fchain_hd [OF c(2)] in \<open>auto simp: p_def\<close>)
  moreover have "p \<notin> set vs" using ps d by auto
  then have "fchain m' p vs base" by (intro fchain_start [OF c(2) m'(2)]) (metis m'(3))
  ultimately have "fchain m' base (us @ vs) base" by (simp add: fchain_append p_def)
  moreover have "spaced m' (unat base) (us @ vs)"
  proof -
    have q: "spaced m (unat base) us" "endl m (unat base) us < unat x" "spaced m (bend m x) vs" using sp by (simp_all add: spaced_append)
    have "endl m (unat base) us \<le> bend m x" using q(2) by (simp add: bend_def)
    from spaced_weaken [OF q(3) this] have "spaced m' (endl m' (unat base) us) vs"
      using spaced_cong [of vs m' m] by (auto simp: endl_def e m'(1) split: if_splits)
    moreover have "spaced m' (unat base) us" using q(1) spaced_cong [of us m' m] by (simp add: m'(1))
    ultimately show ?thesis unfolding spaced_append by blast
  qed
  ultimately show "arena_ok base m' (us @ vs)" using a ps by (auto simp: arena_ok_def m'(1,4))
  have "region m y \<inter> region m x = {}" if "y \<in> set us \<union> set vs" for y
    using spaced_disjoint [OF sp, of y x] that d by auto
  then show "units m' (us @ vs) = units m (us @ x # vs) - region m x" unfolding e units_def by auto
qed

lemma carve_part:
  assumes a: "arena_ok base m xs" and x: "x \<in> set xs" and p: "p \<in> set (base # xs)" and n: "0 < nunits" "nunits < size_of m x"
  defines "h \<equiv> x + 8 * (size_of m x - nunits)"
  defines "m' \<equiv> (set_size h nunits (set_size x (size_of m x - nunits) m))\<lparr>freep := p\<rparr>"
  shows "arena_ok base m' xs" and "units m' xs = units m xs - slab h nunits" and "slab h nunits \<subseteq> region m x" and "h \<notin> set (base # xs)"
    and "unat h + 8 * unat nunits = bend m x"
proof -
  have sp: "spaced m (unat base) xs" using a by (simp add: arena_ok_def)
  have s: "unat (size_of m x - nunits) = unat (size_of m x) - unat nunits" "unat nunits < unat (size_of m x)" "0 < unat nunits"
    using n by (simp_all add: unat_sub less_imp_le unat_mono unat_gt_0)
  have bx: "bend m x < 2 ^ 32" "unat base < unat x" using spaced_member [OF sp x] by auto
  have h: "unat h = unat x + 8 * (unat (size_of m x) - unat nunits)"
    unfolding h_def s(1) [symmetric] by (rule unat_unit) (use bx s in \<open>simp add: bend_def\<close>)
  show hb: "unat h + 8 * unat nunits = bend m x" using h s(2) by (simp add: bend_def algebra_simps)
  have hx: "unat x < unat h" "unat h < bend m x" using h hb s by auto
  show cx: "slab h nunits \<subseteq> region m x" using hx hb by (auto simp: slab_def region_def)
  have hn: "h \<noteq> y" if "y \<in> set xs" for y
  proof
    assume "h = y"
    then have "unat h \<in> region m y" "y \<noteq> x" using spaced_member [OF sp that] hx by (auto simp: region_def)
    then show False using spaced_disjoint [OF sp that x] hx by (auto simp: region_def)
  qed
  then show nh: "h \<notin> set (base # xs)" using hx bx by auto
  have m': "ptr_of m' = ptr_of m" "size_of m' x = size_of m x - nunits" "\<And>y. y \<noteq> x \<Longrightarrow> y \<noteq> h \<Longrightarrow> size_of m' y = size_of m y"
    using hn [OF x] by (auto simp: m'_def fun_eq_iff)
  obtain us vs where xs: "xs = us @ x # vs" using x by (meson split_list)
  have d: "distinct (base # xs)" by (rule arena_distinct [OF a])
  have o: "size_of m' y = size_of m y" if "y \<in> set us \<union> set vs \<union> {base}" for y
    using m'(3) [of y] that d nh xs by auto
  have b': "bend m' x = unat h" using h s by (simp add: bend_def m'(2))
  have r: "region m' y = region m y" "bend m' y = bend m y" if "y \<in> set us \<union> set vs" for y using o [of y] that by (auto simp: region_def bend_def)
  have "fchain m' base xs base" using a fchain_cong [of base xs m' m] m'(1) by (simp add: arena_ok_def)
  moreover have "spaced m' (unat base) xs"
  proof -
    have q: "spaced m (unat base) us" "endl m (unat base) us < unat x" "spaced m (bend m x) vs" using sp by (auto simp: xs spaced_append)
    have "endl m' (unat base) us = endl m (unat base) us" using r(2) by (simp add: endl_def)
    moreover have "spaced m' (unat h) vs" using spaced_weaken [OF q(3), of "unat h"] hx spaced_cong [of vs m' m] o by auto
    moreover have "spaced m' (unat base) us" using q(1) spaced_cong [of us m' m] o by auto
    ultimately show ?thesis using q(2) b' bx hx s by (auto simp: xs spaced_append m'(2))
  qed
  ultimately show "arena_ok base m' xs" using a o [of base] p by (auto simp: arena_ok_def m'_def)
  have "region m' x = region m x - slab h nunits" unfolding region_def b' slab_def hb using hx by auto
  moreover have "region m y \<inter> slab h nunits = {}" if "y \<in> set us \<union> set vs" for y
  proof -
    have "y \<noteq> x" using that d xs by auto
    then show ?thesis using spaced_disjoint [OF sp, of y x] that xs cx by auto
  qed
  ultimately show "units m' xs = units m xs - slab h nunits" unfolding units_def xs using r(1) by auto
qed

lemma carve_ok:
  assumes a: "arena_ok base m xs" and x: "x \<in> set xs" and p: "p \<in> set (base # xs)" "ptr_of m p = x" and n: "0 < nunits" "nunits \<le> size_of m x"
  shows "\<exists>h m' ys. carve nunits p x m = (h + 8, m') \<and> arena_ok base m' ys \<and> size_of m' h = nunits \<and> slab h nunits \<subseteq> units m xs \<and>
    units m' ys = units m xs - slab h nunits \<and> unat base < unat h \<and> unat h + 8 * unat nunits < 2 ^ 32 \<and>
    (\<forall>z. z \<notin> set xs \<and> z \<noteq> h \<longrightarrow> size_of m' z = size_of m z)"
proof -
  have sp: "spaced m (unat base) xs" using a by (simp add: arena_ok_def)
  note sx = spaced_member [OF sp x]
  have rx: "region m x \<subseteq> units m xs" using x by (auto simp: units_def)
  show ?thesis
  proof (cases "size_of m x = nunits")
    case True
    obtain us vs where xs: "xs = us @ x # vs" using x by (meson split_list)
    have pl: "p = last (base # us)" using pred_unique [of m base us x vs p] a p xs arena_distinct [OF a] by (simp add: arena_ok_def)
    define m' where "m' = (set_ptr p (ptr_of m x) m)\<lparr>freep := p\<rparr>"
    have "carve nunits p x m = (x + 8, m')" using True by (simp add: carve_def m'_def)
    moreover note carve_whole [OF a [unfolded xs], folded pl, folded m'_def xs]
    moreover have "slab x nunits = region m x" using True by (simp add: slab_def region_def bend_def)
    moreover have "size_of m' = size_of m" by (auto simp: m'_def fun_eq_iff)
    moreover have "unat x + 8 * unat nunits < 2 ^ 32" using sx True by (simp add: bend_def)
    ultimately show ?thesis using rx sx True by (intro exI [of _ x] exI [of _ m'] exI [of _ "us @ vs"]) auto
  next
    case False
    then have n': "nunits < size_of m x" using n(2) by simp
    define h where "h = x + 8 * (size_of m x - nunits)"
    define m' where "m' = (set_size h nunits (set_size x (size_of m x - nunits) m))\<lparr>freep := p\<rparr>"
    note c = carve_part [OF a x p(1) n(1) n', folded h_def, folded m'_def]
    have "carve nunits p x m = (h + 8, m')" using False by (simp add: carve_def Let_def m'_def h_def)
    moreover have "size_of m' h = nunits" "\<forall>z. z \<notin> set xs \<and> z \<noteq> h \<longrightarrow> size_of m' z = size_of m z"
      using x by (auto simp: m'_def)
    moreover have "unat base < unat h" 
    proof -
      have "unat h \<in> slab h nunits" using n(1) by (simp add: slab_def unat_gt_0)
      then show ?thesis using c(3) sx by (auto simp: region_def)
    qed
    ultimately show ?thesis using c sx rx by (intro exI [of _ h] exI [of _ m'] exI [of _ xs]) auto
  qed
qed

lemma node_in_units: "arena_ok base m xs \<Longrightarrow> z \<in> set xs \<Longrightarrow> unat z \<in> units m xs"
  using spaced_member [of m "unat base" xs z] by (auto simp: arena_ok_def units_def region_def)

lemma spaced_gap:
  assumes "spaced m lo xs" and "y \<in> set xs" and "z \<in> set xs" and "y \<noteq> z"
  shows "bend m y < unat z \<or> bend m z < unat y"
  using assms
proof (induction xs arbitrary: lo)
  case (Cons x xs)
  have "bend m x < unat w" if "w \<in> set xs" for w using spaced_member [of m "bend m x" xs w] Cons.prems(1) that by simp
  then show ?case using Cons.prems Cons.IH [of "bend m x"] by auto
qed simp

text \<open>Memory without a gap is part of one block.\<close>

lemma interval_in_block:
  assumes sp: "spaced m lo xs" and s: "{v ..< v + k} \<subseteq> units m xs" and "0 < k"
  shows "\<exists>y \<in> set xs. k \<le> 8 * unat (size_of m y)"
proof -
  have "v \<in> units m xs" using s assms(3) by auto
  then obtain y where y: "y \<in> set xs" "unat y \<le> v" "v < bend m y" by (auto simp: units_def region_def)
  have "v + k \<le> bend m y"
  proof (rule ccontr)
    assume "\<not> ?thesis"
    then have "bend m y \<in> {v ..< v + k}" using y by simp
    then have "bend m y \<in> units m xs" using s by blast
    then obtain z where z: "z \<in> set xs" "unat z \<le> bend m y" "bend m y < bend m z" by (auto simp: units_def region_def)
    then have "y \<noteq> z" by auto
    from spaced_gap [OF sp y(1) z(1) this] show False using z y by linarith
  qed
  then show ?thesis using y by (intro bexI [of _ y]) (auto simp: bend_def)
qed

lemma arena_fresh_size:
  assumes a: "arena_ok base m xs" and h: "unat base < unat h" "unat h \<notin> units m xs"
  shows "arena_ok base (set_size h n m) xs" and "units (set_size h n m) xs = units m xs"
proof -
  have nh: "h \<notin> set (base # xs)" using h node_in_units [OF a] by auto
  then have o: "\<And>y. y \<in> set (base # xs) \<Longrightarrow> size_of (set_size h n m) y = size_of m y" by auto
  have "fchain (set_size h n m) base xs base" using a fchain_cong [of base xs "set_size h n m" m] by (simp add: arena_ok_def)
  moreover have "spaced (set_size h n m) (unat base) xs" using a o spaced_cong [of xs "set_size h n m" m] by (simp add: arena_ok_def)
  ultimately show "arena_ok base (set_size h n m) xs" using a o [of base] by (simp add: arena_ok_def)
  show "units (set_size h n m) xs = units m xs" unfolding units_def region_def bend_def using o by auto
qed

text \<open>The amount that \<^verbatim>\<open>morecore\<close> asks for, in units.\<close>

definition more_units :: "uint \<Rightarrow> uint" where
  "more_units nunits = (if nunits < 4096 then 4096 else nunits)"

text \<open>More memory from the system, put into the free list.\<close>

lemma morecore_ok:
  assumes a: "arena_ok base m xs" and v: "u_val r = int v" "unat base < v" "v + 8 * unat (more_units nunits) < 2 ^ 32"
    and d: "{v ..< v + 8 * unat (more_units nunits)} \<inter> units m xs = {}"
  shows "\<exists>m' ys. morecore nunits m (r # rs) = ([U_sbrk (sint (more_units nunits * 8))], Done (freep m', m') rs) \<and> arena_ok base m' ys \<and>
    units m' ys = units m xs \<union> {v ..< v + 8 * unat (more_units nunits)} \<and> length ys \<le> length xs + 1 \<and>
    (\<forall>z. unat z \<notin> units m xs \<union> {v ..< v + 8 * unat (more_units nunits)} \<longrightarrow> size_of m' z = size_of m z)"
proof -
  let ?n = "more_units nunits" and ?h = "word_of_int (u_val r) :: uint"
  have n0: "0 < unat ?n" by (auto simp: more_units_def word_less_nat_alt unat_gt_0 not_less)
  have vh: "unat ?h = v" using v by (simp add: unat_of_nat take_bit_eq_mod)
  define m0 where "m0 = set_size ?h ?n m"
  have s: "size_of m0 ?h = ?n" by (simp add: m0_def)
  have rg: "region m0 ?h = {v ..< v + 8 * unat ?n}" "bend m0 ?h = v + 8 * unat ?n" by (simp_all add: region_def bend_def s vh)
  have "v \<in> {v ..< v + 8 * unat ?n}" using n0 by simp
  then have "unat ?h \<notin> units m xs" using d vh by blast
  note f = arena_fresh_size [OF a _ this, of ?n, folded m0_def]
  obtain m' ys where m': "free (?h + 8) m0 = Inr m'" "arena_ok base m' ys" "units m' ys = units m0 xs \<union> region m0 ?h"
      "length ys \<le> length xs + 1" "\<forall>x. x \<notin> set xs \<union> {?h} \<longrightarrow> size_of m' x = size_of m0 x"
    using free_ok [OF f(1), of ?h] v(2,3) vh rg s n0 d f(2) by auto
  have "morecore nunits m (r # rs) = ([U_sbrk (sint (?n * 8))], Done (freep m', m') rs)"
    using m'(1) v(1) by (simp add: morecore_def sys_def Let_def more_units_def [symmetric] m0_def)
  moreover have "size_of m' z = size_of m z" if "unat z \<notin> units m xs \<union> {v ..< v + 8 * unat ?n}" for z
  proof -
    have "z \<noteq> ?h" "z \<notin> set xs" using that vh n0 node_in_units [OF a] by auto
    then show ?thesis using m'(5) by (simp add: m0_def)
  qed
  ultimately show ?thesis using m' f(2) v(2) vh rg by (intro exI [of _ m'] exI [of _ ys]) auto
qed

definition units_for :: "uint \<Rightarrow> uint" where
  "units_for nbytes = (nbytes + 8 - 1) div 8 + 1"

lemma units_for_enough:
  assumes "unat nbytes < 2 ^ 31 - 16"
  shows "unat nbytes + 8 \<le> 8 * unat (units_for nbytes)" and "unat (units_for nbytes) < 2 ^ 28" and "0 < units_for nbytes"
proof -
  have e: "unat (nbytes + 8 - 1) = unat nbytes + 7" using assms by (simp add: unat_word_ariths)
  have u: "unat (units_for nbytes) = (unat nbytes + 7) div 8 + 1"
  proof -
    have "unat ((nbytes + 8 - 1) div 8) = (unat nbytes + 7) div 8" unfolding unat_div e by simp
    moreover have "(unat nbytes + 7) div 8 < 2 ^ 28" using assms by (simp add: less_mult_imp_div_less)
    ultimately show ?thesis unfolding units_for_def by (simp add: unat_word_ariths)
  qed
  show "unat nbytes + 8 \<le> 8 * unat (units_for nbytes)" unfolding u by simp
  show "unat (units_for nbytes) < 2 ^ 28" unfolding u using assms by (simp add: less_mult_imp_div_less)
  have "0 < unat (units_for nbytes)" unfolding u by simp
  then show "0 < units_for nbytes" by (simp add: word_less_nat_alt)
qed

text \<open>What a successful \<^verbatim>\<open>malloc\<close> does to a free list over the memory \<open>U\<close>.\<close>

definition handed_out :: "uint \<Rightarrow> uint \<Rightarrow> nat set \<Rightarrow> arena \<Rightarrow> uint \<Rightarrow> arena \<Rightarrow> bool" where
  "handed_out base nunits U m t m' \<longleftrightarrow>
     (\<exists>h ys. t = h + 8 \<and> arena_ok base m' ys \<and> size_of m' h = nunits \<and> slab h nunits \<subseteq> U \<and> units m' ys = U - slab h nunits \<and>
        unat base < unat h \<and> unat h + 8 * unat nunits < 2 ^ 32 \<and> (\<forall>z. unat z \<notin> U \<longrightarrow> size_of m' z = size_of m z))"

lemma handed_out_carve:
  assumes a: "arena_ok base m xs" and x: "x \<in> set xs" "p \<in> set (base # xs)" "ptr_of m p = x" "nunits \<le> size_of m x" and n: "0 < nunits"
  shows "\<exists>t m'. carve nunits p x m = (t, m') \<and> handed_out base nunits (units m xs) m t m'"
proof -
  obtain h m' ys where c: "carve nunits p x m = (h + 8, m')" "arena_ok base m' ys" "size_of m' h = nunits" "slab h nunits \<subseteq> units m xs"
      "units m' ys = units m xs - slab h nunits" "unat base < unat h" "unat h + 8 * unat nunits < 2 ^ 32"
      "\<forall>z. z \<notin> set xs \<and> z \<noteq> h \<longrightarrow> size_of m' z = size_of m z"
    using carve_ok [OF a x(1,2,3) n x(4)] by blast
  have "unat h \<in> slab h nunits" using n by (simp add: slab_def unat_gt_0)
  then have "size_of m' z = size_of m z" if "unat z \<notin> units m xs" for z using that c(4,8) node_in_units [OF a] by blast
  then show ?thesis using c unfolding handed_out_def by blast
qed

lemma malloc_has:
  assumes a: "arena_ok base (malloc_start base m) xs" and f: "\<exists>x \<in> set xs. units_for nbytes \<le> size_of (malloc_start base m) x"
    and "0 < units_for nbytes"
  shows "\<exists>t m'. malloc base nbytes m = ret (t, m') \<and> handed_out base (units_for nbytes) (units (malloc_start base m) xs) (malloc_start base m) t m'"
proof -
  let ?m = "malloc_start base m"
  have "length xs < 2 ^ 31" using spaced_length [of ?m "unat base" xs] a by (simp add: arena_ok_def)
  from malloc_found [OF a f assms(3) this] obtain p x where l: "malloc_loop (2 ^ 31) (units_for nbytes) (freep ?m) (ptr_of ?m (freep ?m)) ?m = ret (carve (units_for nbytes) p x ?m)"
      "x \<in> set xs" "p \<in> set (base # xs)" "ptr_of ?m p = x" "units_for nbytes \<le> size_of ?m x" by blast
  from handed_out_carve [OF a l(2,3,4,5) assms(3)] obtain t m' where
      t: "carve (units_for nbytes) p x ?m = (t, m')" "handed_out base (units_for nbytes) (units ?m xs) ?m t m'" by blast
  have "malloc base nbytes m = ret (t, m')" unfolding malloc_def Let_def units_for_def [symmetric] l(1) t(1) ..
  then show ?thesis using t(2) by blast
qed

lemma malloc_grows:
  assumes a: "arena_ok base (malloc_start base m) xs" and f: "\<forall>x \<in> set xs. size_of (malloc_start base m) x < units_for nbytes"
    and n: "0 < units_for nbytes"
  defines "nu \<equiv> more_units (units_for nbytes)"
  shows "\<exists>qs. fst (malloc base nbytes m (r # rs)) = U_sbrk (sint (nu * 8)) # qs"
    and "u_val r = -1 \<Longrightarrow> malloc base nbytes m (r # rs) = ([U_sbrk (sint (nu * 8))], Done (0, malloc_start base m) rs)"
    and "u_val r = int v \<Longrightarrow> unat base < v \<Longrightarrow> v + 8 * unat nu < 2 ^ 32 \<Longrightarrow> {v ..< v + 8 * unat nu} \<inter> units (malloc_start base m) xs = {} \<Longrightarrow>
      \<exists>t m'. malloc base nbytes m (r # rs) = ([U_sbrk (sint (nu * 8))], Done (t, m') rs) \<and>
        handed_out base (units_for nbytes) (units (malloc_start base m) xs \<union> {v ..< v + 8 * unat nu}) (malloc_start base m) t m'"
proof -
  let ?m = "malloc_start base m" and ?n = "units_for nbytes"
  have len: "length xs < 2 ^ 29" using spaced_length [of ?m "unat base" xs] a by (simp add: arena_ok_def)
  have l: "malloc base nbytes m = bindi (morecore ?n ?m) (\<lambda>(p, m). if p = 0 then ret (0, m) else malloc_loop (2 ^ 31 - length xs - 1) ?n p (ptr_of m p) m)"
    using malloc_asks [OF a f n, of "2 ^ 31"] len unfolding malloc_def Let_def units_for_def [symmetric] by simp
  show "\<exists>qs. fst (malloc base nbytes m (r # rs)) = U_sbrk (sint (nu * 8)) # qs"
    unfolding l by (simp add: morecore_def sys_def Let_def nu_def more_units_def split: prod.split)
  show "malloc base nbytes m (r # rs) = ([U_sbrk (sint (nu * 8))], Done (0, ?m) rs)" if "u_val r = -1"
    using that unfolding l by (simp add: morecore_def sys_def Let_def nu_def more_units_def)
  assume v: "u_val r = int v" "unat base < v" "v + 8 * unat nu < 2 ^ 32" "{v ..< v + 8 * unat nu} \<inter> units ?m xs = {}"
  let ?U = "units ?m xs \<union> {v ..< v + 8 * unat nu}"
  obtain m1 ys where m1: "morecore ?n ?m (r # rs) = ([U_sbrk (sint (nu * 8))], Done (freep m1, m1) rs)" "arena_ok base m1 ys"
      "units m1 ys = ?U" "length ys \<le> length xs + 1" "\<forall>z. unat z \<notin> ?U \<longrightarrow> size_of m1 z = size_of ?m z"
    using morecore_ok [OF a v(1,2) v(3,4) [unfolded nu_def], of rs] unfolding nu_def by blast
  have f0: "freep m1 \<noteq> 0" using m1(2) spaced_member [of m1 "unat base" ys 0] by (auto simp: arena_ok_def)
  have nu: "?n \<le> nu" "0 < unat nu" using n by (auto simp: nu_def more_units_def not_less unat_gt_0)
  have "\<exists>y \<in> set ys. 8 * unat nu \<le> 8 * unat (size_of m1 y)"
    by (rule interval_in_block [of m1 "unat base" ys v]) (use m1(2,3) nu in \<open>auto simp: arena_ok_def\<close>)
  then have "\<exists>y \<in> set ys. ?n \<le> size_of m1 y" using nu(1) by (auto simp: word_le_nat_alt intro: le_trans)
  moreover have "length ys < 2 ^ 31 - length xs - 1" using len m1(4) by simp
  ultimately obtain p x where
      c: "malloc_loop (2 ^ 31 - length xs - 1) ?n (freep m1) (ptr_of m1 (freep m1)) m1 = ret (carve ?n p x m1)"
      "x \<in> set ys" "p \<in> set (base # ys)" "ptr_of m1 p = x" "?n \<le> size_of m1 x"
    using malloc_found [OF m1(2) _ n] by blast
  obtain t m' where t: "carve ?n p x m1 = (t, m')" "handed_out base ?n ?U m1 t m'"
    using handed_out_carve [OF m1(2) c(2,3,4,5) n] m1(3) by auto
  have "malloc base nbytes m (r # rs) = ([U_sbrk (sint (nu * 8))], Done (t, m') rs)"
    unfolding l by (subst bindi_run [where m = "morecore ?n ?m", OF m1(1)]) (use f0 c(1) t(1) in simp)
  moreover have "handed_out base ?n ?U ?m t m'" using t(2) m1(5) unfolding handed_out_def by auto
  ultimately show "\<exists>t m'. malloc base nbytes m (r # rs) = ([U_sbrk (sint (nu * 8))], Done (t, m') rs) \<and> handed_out base ?n ?U ?m t m'" by blast
qed

section \<open>Programs that allocate and free\<close>

text \<open>
  A program and its memory: the break, the allocator's headers, and the live blocks with the number
  of bytes asked for. Every \<^verbatim>\<open>sbrk\<close> is answered as the kernel does (\<^verbatim>\<open>sys_sbrk\<close>, \<^verbatim>\<open>growproc\<close>): with -1, or
  with the old break, which moves up by the amount and stays below \<^verbatim>\<open>KERNBASE\<close>. Requests are for
  less than 2 GB.
\<close>

definition sbrk_answer :: "nat \<Rightarrow> ucall list \<Rightarrow> ureply \<Rightarrow> nat \<Rightarrow> bool" where
  "sbrk_answer brk qs r brk' \<longleftrightarrow>
     (case qs of
        U_sbrk n # _ \<Rightarrow> u_val r = -1 \<and> brk' = brk \<or> u_val r = int brk \<and> brk' = brk + nat n \<and> brk' \<le> 0x80000000
      | _ \<Rightarrow> brk' = brk)"

inductive heap_step :: "uint \<Rightarrow> nat \<times> arena \<times> (uint \<rightharpoonup> uint) \<Rightarrow> nat \<times> arena \<times> (uint \<rightharpoonup> uint) \<Rightarrow> bool" for base where
  hs_malloc: "unat nbytes < 2 ^ 31 - 16 \<Longrightarrow> malloc base nbytes m [r] = (qs, Done (t, m') rs) \<Longrightarrow> sbrk_answer brk qs r brk' \<Longrightarrow>
    heap_step base (brk, m, live) (brk', m', if t = 0 then live else live(t \<mapsto> nbytes))"
| hs_free: "live t = Some nbytes \<Longrightarrow> free t m = Inr m' \<Longrightarrow> heap_step base (brk, m, live) (brk, m', live(t := None))"
| hs_sbrk: "brk \<le> brk' \<Longrightarrow> brk' \<le> 0x80000000 \<Longrightarrow> heap_step base (brk, m, live) (brk', m, live)"

definition heap_start :: "uint \<Rightarrow> nat \<times> arena \<times> (uint \<rightharpoonup> uint) \<Rightarrow> bool" where
  "heap_start base s \<longleftrightarrow> (case s of (brk, m, live) \<Rightarrow> base \<noteq> 0 \<and> unat base < brk \<and> brk \<le> 0x80000000 \<and> freep m = 0 \<and> live = Map.empty)"

text \<open>A live block at \<open>t\<close> has its header at \<open>t - 8\<close>, room for what was asked, and memory of its own.\<close>

definition live_ok :: "uint \<Rightarrow> nat \<Rightarrow> arena \<Rightarrow> nat set \<Rightarrow> uint \<Rightarrow> uint \<Rightarrow> bool" where
  "live_ok base brk m U t nbytes \<longleftrightarrow> unat base < unat (t - 8) \<and> bend m (t - 8) \<le> brk \<and> unat nbytes + 8 \<le> 8 * unat (size_of m (t - 8)) \<and>
     region m (t - 8) \<inter> U = {}"

definition heap_inv :: "uint \<Rightarrow> nat \<times> arena \<times> (uint \<rightharpoonup> uint) \<Rightarrow> bool" where
  "heap_inv base s \<longleftrightarrow> (case s of (brk, m, live) \<Rightarrow>
     unat base < brk \<and> brk \<le> 0x80000000 \<and> (freep m = 0 \<longrightarrow> live = Map.empty) \<and>
     (\<exists>xs. arena_ok base (malloc_start base m) xs \<and> units (malloc_start base m) xs \<subseteq> {..<brk} \<and>
        (\<forall>t n. live t = Some n \<longrightarrow> live_ok base brk m (units (malloc_start base m) xs) t n)) \<and>
     (\<forall>t n t' n'. live t = Some n \<and> live t' = Some n' \<and> t \<noteq> t' \<longrightarrow> region m (t - 8) \<inter> region m (t' - 8) = {}))"

lemma arena_freep: "arena_ok base m xs \<Longrightarrow> freep m \<noteq> 0"
  using spaced_member [of m "unat base" xs 0] by (auto simp: arena_ok_def)

lemma start_id: "freep m \<noteq> 0 \<Longrightarrow> malloc_start base m = m"
  by (simp add: malloc_start_def)

lemma heap_inv_start: "heap_start base s \<Longrightarrow> heap_inv base s"
  unfolding heap_start_def heap_inv_def by (auto simp: malloc_start_def arena_ok_def units_def intro!: exI [of _ "[]"])

lemma live_region: "live_ok base brk m U t n \<Longrightarrow> unat (t - 8) \<in> region m (t - 8)"
  by (auto simp: live_ok_def region_def bend_def)

text \<open>Freeing a live block.\<close>

lemma heap_free:
  assumes i: "heap_inv base (brk, m, live)" and l: "live t = Some n"
  shows "\<exists>m'. free t m = Inr m' \<and> heap_inv base (brk, m', live(t := None))"
proof -
  have fp: "freep m \<noteq> 0" using i l by (auto simp: heap_inv_def)
  note st = start_id [OF fp]
  obtain xs where x: "arena_ok base m xs" "units m xs \<subseteq> {..<brk}" "\<And>u k. live u = Some k \<Longrightarrow> live_ok base brk m (units m xs) u k"
    using i unfolding heap_inv_def prod.case st by blast
  have dj: "\<And>u k u' k'. live u = Some k \<Longrightarrow> live u' = Some k' \<Longrightarrow> u \<noteq> u' \<Longrightarrow> region m (u - 8) \<inter> region m (u' - 8) = {}"
    and b: "unat base < brk" "brk \<le> 0x80000000" using i by (auto simp: heap_inv_def)
  have t: "unat base < unat (t - 8)" "bend m (t - 8) \<le> brk" "0 < unat (size_of m (t - 8))" "region m (t - 8) \<inter> units m xs = {}"
    using x(3) [OF l] by (auto simp: live_ok_def)
  obtain m' ys where f: "free t m = Inr m'" "arena_ok base m' ys" "units m' ys = units m xs \<union> region m (t - 8)"
      "\<And>z. z \<notin> set xs \<union> {t - 8} \<Longrightarrow> size_of m' z = size_of m z"
    using free_ok [OF x(1) t(1) _ t(3,4)] t(2) b(2) by auto
  have st': "malloc_start base m' = m'" using start_id [OF arena_freep [OF f(2)]] .
  have keep: "region m' (u - 8) = region m (u - 8)" "size_of m' (u - 8) = size_of m (u - 8)" "bend m' (u - 8) = bend m (u - 8)" if u: "live u = Some k" "u \<noteq> t" for u k
  proof -
    have "unat (u - 8) \<in> region m (u - 8)" using live_region [OF x(3) [OF u(1)]] .
    moreover have "region m (u - 8) \<inter> units m xs = {}" using x(3) [OF u(1)] by (simp add: live_ok_def)
    ultimately have "u - 8 \<notin> set xs" using node_in_units [OF x(1)] by blast
    then show s: "size_of m' (u - 8) = size_of m (u - 8)" using f(4) [of "u - 8"] u(2) by simp
    show "region m' (u - 8) = region m (u - 8)" "bend m' (u - 8) = bend m (u - 8)" by (simp_all add: region_def bend_def s)
  qed
  have "live_ok base brk m' (units m' ys) u k" if u: "live u = Some k" "u \<noteq> t" for u k
    using x(3) [OF u(1)] dj [OF u(1) l u(2)] unfolding live_ok_def f(3) keep [OF u] by auto
  then have lo: "\<forall>u k. (live(t := None)) u = Some k \<longrightarrow> live_ok base brk m' (units m' ys) u k"
    by (metis fun_upd_apply option.distinct(1))
  have "region m' (u - 8) \<inter> region m' (u' - 8) = {}" if "live u = Some k" "u \<noteq> t" "live u' = Some k'" "u' \<noteq> t" "u \<noteq> u'" for u k u' k'
    unfolding keep(1) [OF that(1,2)] keep(1) [OF that(3,4)] using dj that by blast
  then have "\<forall>u k u' k'. (live(t := None)) u = Some k \<and> (live(t := None)) u' = Some k' \<and> u \<noteq> u' \<longrightarrow> region m' (u - 8) \<inter> region m' (u' - 8) = {}"
    by (metis fun_upd_apply option.distinct(1))
  moreover have "units m' ys \<subseteq> {..<brk}" unfolding f(3) using x(2) t(2) by (auto simp: region_def)
  ultimately have "heap_inv base (brk, m', live(t := None))"
    unfolding heap_inv_def prod.case st' using b f(2) arena_freep [OF f(2)] lo by blast
  then show ?thesis using f(1) by blast
qed

text \<open>A block taken from memory that no live block uses.\<close>

lemma heap_handed_out:
  assumes i: "heap_inv base (brk, m, live)" and x: "arena_ok base (malloc_start base m) xs"
    and o: "\<And>u k. live u = Some k \<Longrightarrow> live_ok base brk m U u k" and U: "U \<subseteq> {..<brk'}" "brk \<le> brk'" "brk' \<le> 0x80000000"
    and h: "handed_out base (units_for nbytes) U (malloc_start base m) t m'" and n: "unat nbytes < 2 ^ 31 - 16"
  shows "t \<noteq> 0 \<and> live t = None \<and> heap_inv base (brk', m', live(t \<mapsto> nbytes))"
proof -
  obtain ys where y: "arena_ok base m' ys" "size_of m' (t - 8) = units_for nbytes" "slab (t - 8) (units_for nbytes) \<subseteq> U"
      "units m' ys = U - slab (t - 8) (units_for nbytes)" "unat base < unat (t - 8)" "unat (t - 8) + 8 * unat (units_for nbytes) < 2 ^ 32"
      "\<And>z. unat z \<notin> U \<Longrightarrow> size_of m' z = size_of (malloc_start base m) z"
    using h unfolding handed_out_def by auto
  note e = units_for_enough [OF n]
  have rt: "region m' (t - 8) = slab (t - 8) (units_for nbytes)" "bend m' (t - 8) = unat (t - 8) + 8 * unat (units_for nbytes)"
    by (simp_all add: region_def slab_def bend_def y(2))
  have b: "unat base < brk" using i by (simp add: heap_inv_def)
  have top: "bend m' (t - 8) \<le> brk'"
  proof -
    have "bend m' (t - 8) - 1 \<in> slab (t - 8) (units_for nbytes)" using e(1) by (simp add: rt slab_def)
    then show ?thesis using y(3) U(1) by force
  qed
  have keep: "size_of m' (u - 8) = size_of m (u - 8)" "region m' (u - 8) = region m (u - 8)" "bend m' (u - 8) = bend m (u - 8)" if u: "live u = Some k" for u k
  proof -
    have "unat (u - 8) \<notin> U" "unat base < unat (u - 8)" using live_region [OF o [OF u]] o [OF u] by (auto simp: live_ok_def)
    then show s: "size_of m' (u - 8) = size_of m (u - 8)" using y(7) [of "u - 8"] by (auto simp: malloc_start_def)
    show "region m' (u - 8) = region m (u - 8)" "bend m' (u - 8) = bend m (u - 8)" by (simp_all add: region_def bend_def s)
  qed
  have away: "region m (u - 8) \<inter> U = {}" if "live u = Some k" for u k using o [OF that] by (simp add: live_ok_def)
  have new: "live t = None"
  proof (rule ccontr)
    assume "\<not> ?thesis"
    then obtain k where k: "live t = Some k" by auto
    have "unat (t - 8) \<in> slab (t - 8) (units_for nbytes)" using e(1) by (simp add: slab_def)
    then show False using away [OF k] live_region [OF o [OF k]] y(3) by blast
  qed
  have t0: "t \<noteq> 0"
  proof
    assume "t = 0"
    then have "unat (t - 8) = 2 ^ 32 - 8" by simp
    then show False using top U(3) e(1) unfolding rt by simp
  qed
  have st: "malloc_start base m' = m'" "freep m' \<noteq> 0" using start_id arena_freep [OF y(1)] by auto
  have old: "live_ok base brk' m' (units m' ys) u k" if "live u = Some k" for u k
    using o [OF that] U(2) away [OF that] unfolding live_ok_def keep [OF that] y(4) by auto
  have "live_ok base brk' m' (units m' ys) t nbytes"
    unfolding live_ok_def using y(5) top e(1) y(2) by (auto simp: rt y(4))
  then have lo: "\<forall>u k. (live(t \<mapsto> nbytes)) u = Some k \<longrightarrow> live_ok base brk' m' (units m' ys) u k"
    using old by (metis fun_upd_apply option.inject)
  have dj: "region m (u - 8) \<inter> region m (u' - 8) = {}" if "live u = Some k" "live u' = Some k'" "u \<noteq> u'" for u k u' k'
    using i that unfolding heap_inv_def by blast
  have "region m' (u - 8) \<inter> region m' (u' - 8) = {}"
    if q: "(live(t \<mapsto> nbytes)) u = Some k" "(live(t \<mapsto> nbytes)) u' = Some k'" "u \<noteq> u'" for u k u' k'
  proof -
    have one: "region m' (t - 8) \<inter> region m' (w - 8) = {}" if "live w = Some j" for w j
      using away [OF that] y(3) unfolding rt keep(2) [OF that] by blast
    consider "u = t" "live u' = Some k'" | "u' = t" "live u = Some k" | "live u = Some k" "live u' = Some k'" using q by (auto split: if_splits)
    then show ?thesis by cases (use one dj keep(2) q(3) in \<open>auto simp: Int_commute\<close>)
  qed
  then have dq: "\<forall>u k u' k'. (live(t \<mapsto> nbytes)) u = Some k \<and> (live(t \<mapsto> nbytes)) u' = Some k' \<and> u \<noteq> u' \<longrightarrow> region m' (u - 8) \<inter> region m' (u' - 8) = {}"
    by blast
  have "units m' ys \<subseteq> {..<brk'}" "unat base < brk'" using y(4) U(1,2) b by auto
  then have "heap_inv base (brk', m', live(t \<mapsto> nbytes))"
    unfolding heap_inv_def prod.case st(1) using U(3) y(1) st(2) lo dq by blast
  then show ?thesis using t0 new by blast
qed

lemma heap_refused: "heap_inv base (brk, m, live) \<Longrightarrow> heap_inv base (brk, malloc_start base m, live)"
proof (cases "freep m = 0")
  case True
  assume i: "heap_inv base (brk, m, live)"
  then have l: "live = Map.empty" using True by (simp add: heap_inv_def)
  obtain xs where x: "arena_ok base (malloc_start base m) xs" "units (malloc_start base m) xs \<subseteq> {..<brk}" using i by (auto simp: heap_inv_def)
  then show ?thesis using i start_id [OF arena_freep [OF x(1)]] by (auto simp: heap_inv_def l)
qed (simp add: start_id)

lemma sint_units: "sint (n * 8 :: uint) = int (8 * unat n)" if "8 * unat n < 2 ^ 31"
proof -
  have "unat (n * 8) = 8 * unat n" using that by (simp add: unat_word_ariths)
  then have u: "uint (n * 8) = int (8 * unat n)" by (simp only: uint_nat)
  have "signed_take_bit 31 (int k) = int k" if "k < 2 ^ 31" for k
    by (rule signed_take_bit_int_eq_self) (use that in simp_all)
  from this [OF that] have "signed_take_bit 31 (int (8 * unat n)) = int (8 * unat n)" .
  then show ?thesis unfolding sint_uint u by simp
qed

text \<open>Every call of \<^verbatim>\<open>malloc\<close> returns, and keeps the invariant.\<close>

lemma heap_malloc:
  assumes i: "heap_inv base (brk, m, live)" and n: "unat nbytes < 2 ^ 31 - 16"
  defines "nu \<equiv> more_units (units_for nbytes)"
  shows "(\<exists>t m'. malloc base nbytes m = ret (t, m') \<and> t \<noteq> 0 \<and> live t = None \<and> heap_inv base (brk, m', live(t \<mapsto> nbytes))) \<or>
    (\<forall>r. \<exists>qs. fst (malloc base nbytes m [r]) = U_sbrk (int (8 * unat nu)) # qs) \<and>
    (\<forall>r. u_val r = -1 \<longrightarrow> malloc base nbytes m [r] = ([U_sbrk (int (8 * unat nu))], Done (0, malloc_start base m) [])) \<and>
    (\<forall>r. u_val r = int brk \<and> brk + 8 * unat nu \<le> 0x80000000 \<longrightarrow>
       (\<exists>t m'. malloc base nbytes m [r] = ([U_sbrk (int (8 * unat nu))], Done (t, m') []) \<and> t \<noteq> 0 \<and> live t = None \<and>
          heap_inv base (brk + 8 * unat nu, m', live(t \<mapsto> nbytes))))"
proof -
  let ?m = "malloc_start base m"
  obtain xs where x: "arena_ok base ?m xs" "units ?m xs \<subseteq> {..<brk}" "\<And>u k. live u = Some k \<Longrightarrow> live_ok base brk m (units ?m xs) u k"
    using i unfolding heap_inv_def prod.case by blast
  have b: "unat base < brk" "brk \<le> 0x80000000" using i by (auto simp: heap_inv_def)
  note e = units_for_enough [OF n]
  have nu: "8 * unat nu < 2 ^ 31" using e(2) by (simp add: nu_def more_units_def)
  show ?thesis
  proof (cases "\<exists>y \<in> set xs. units_for nbytes \<le> size_of ?m y")
    case True
    from malloc_has [OF x(1) True e(3)] obtain t m' where
        t: "malloc base nbytes m = ret (t, m')" "handed_out base (units_for nbytes) (units ?m xs) ?m t m'" by blast
    then show ?thesis using heap_handed_out [OF i x(1,3,2) le_refl b(2) t(2) n] by blast
  next
    case False
    then have f: "\<forall>y \<in> set xs. size_of ?m y < units_for nbytes" by (simp add: not_le)
    note g = malloc_grows [OF x(1) f e(3), folded nu_def, unfolded sint_units [OF nu]]
    have "\<exists>t m'. malloc base nbytes m [r] = ([U_sbrk (int (8 * unat nu))], Done (t, m') []) \<and> t \<noteq> 0 \<and> live t = None \<and>
        heap_inv base (brk + 8 * unat nu, m', live(t \<mapsto> nbytes))" if r: "u_val r = int brk" "brk + 8 * unat nu \<le> 0x80000000" for r
    proof -
      let ?U = "units ?m xs \<union> {brk ..< brk + 8 * unat nu}"
      have "{brk ..< brk + 8 * unat nu} \<inter> units ?m xs = {}" using x(2) by auto
      from g(3) [OF r(1) b(1) _ this] r(2) obtain t m' where
          t: "malloc base nbytes m [r] = ([U_sbrk (int (8 * unat nu))], Done (t, m') [])" "handed_out base (units_for nbytes) ?U ?m t m'" by fastforce
      have "live_ok base brk m ?U u k" if "live u = Some k" for u k
        using x(3) [OF that] by (auto simp: live_ok_def region_def)
      moreover have "?U \<subseteq> {..<brk + 8 * unat nu}" using x(2) by auto
      ultimately show ?thesis using heap_handed_out [OF i x(1) _ _ _ r(2) t(2) n] t(1) by auto
    qed
    then show ?thesis using g(1) [of _ "[]"] g(2) [of _ "[]"] by blast
  qed
qed

lemma sbrk_answer_grow:
  "sbrk_answer brk (U_sbrk (int k) # qs) r brk' \<longleftrightarrow> u_val r = -1 \<and> brk' = brk \<or> u_val r = int brk \<and> brk' = brk + k \<and> brk' \<le> 0x80000000"
  by (simp add: sbrk_answer_def)

lemma heap_inv_step:
  assumes i: "heap_inv base s" and s: "heap_step base s s'"
  shows "heap_inv base s'"
  using s i
proof (cases rule: heap_step.cases)
  case (hs_malloc nbytes m r qs t m' rs brk brk' live)
  note k = heap_malloc [OF i [unfolded hs_malloc(1)] hs_malloc(3)]
  let ?nu = "more_units (units_for nbytes)"
  show ?thesis
  proof (cases "\<exists>u m1. malloc base nbytes m = ret (u, m1) \<and> u \<noteq> 0 \<and> live u = None \<and> heap_inv base (brk, m1, live(u \<mapsto> nbytes))")
    case True
    then obtain u m1 where u: "malloc base nbytes m = ret (u, m1)" "u \<noteq> 0" "heap_inv base (brk, m1, live(u \<mapsto> nbytes))" by blast
    have "qs = []" "t = u" "m' = m1" using u(1) hs_malloc(4) by auto
    then show ?thesis using u hs_malloc(2,5) by (simp add: sbrk_answer_def)
  next
    case False
    with k have q: "\<exists>q. fst (malloc base nbytes m [r]) = U_sbrk (int (8 * unat ?nu)) # q"
      and no: "u_val r = -1 \<Longrightarrow> malloc base nbytes m [r] = ([U_sbrk (int (8 * unat ?nu))], Done (0, malloc_start base m) [])"
      and yes: "u_val r = int brk \<Longrightarrow> brk + 8 * unat ?nu \<le> 0x80000000 \<Longrightarrow> \<exists>t m'. malloc base nbytes m [r] = ([U_sbrk (int (8 * unat ?nu))], Done (t, m') []) \<and>
          t \<noteq> 0 \<and> heap_inv base (brk + 8 * unat ?nu, m', live(t \<mapsto> nbytes))"
      by blast+
    have a: "u_val r = -1 \<and> brk' = brk \<or> u_val r = int brk \<and> brk' = brk + 8 * unat ?nu \<and> brk' \<le> 0x80000000"
      using hs_malloc(5) q unfolding hs_malloc(4) by (elim exE) (simp only: fst_conv sbrk_answer_grow)
    then show ?thesis
    proof (elim disjE conjE)
      assume r: "u_val r = -1" "brk' = brk"
      then have "t = 0" "m' = malloc_start base m" using no hs_malloc(4) by auto
      then show ?thesis using heap_refused [OF i [unfolded hs_malloc(1)]] hs_malloc(2) r by simp
    next
      assume r: "u_val r = int brk" "brk' = brk + 8 * unat ?nu" "brk' \<le> 0x80000000"
      then obtain u m1 where u: "malloc base nbytes m [r] = ([U_sbrk (int (8 * unat ?nu))], Done (u, m1) [])" "u \<noteq> 0"
          "heap_inv base (brk', m1, live(u \<mapsto> nbytes))" using yes by blast
      then have "t = u" "m' = m1" using hs_malloc(4) by auto
      then show ?thesis using hs_malloc(2) u(2,3) by simp
    qed
  qed
next
  case (hs_free live t nbytes m m' brk)
  then show ?thesis using heap_free [of base brk m live t nbytes] i by auto
next
  case (hs_sbrk brk brk' m live)
  obtain xs where "arena_ok base (malloc_start base m) xs" "units (malloc_start base m) xs \<subseteq> {..<brk}"
      "\<forall>t n. live t = Some n \<longrightarrow> live_ok base brk m (units (malloc_start base m) xs) t n"
    using i unfolding hs_sbrk(1) heap_inv_def prod.case by blast
  moreover have "live_ok base brk m U t n \<Longrightarrow> live_ok base brk' m U t n" for U t n using hs_sbrk(3) by (auto simp: live_ok_def)
  moreover have "{..<brk} \<subseteq> {..<brk'}" "\<And>b. b < brk \<Longrightarrow> b < brk'" using hs_sbrk(3) by auto
  ultimately show ?thesis using i hs_sbrk(4) unfolding hs_sbrk(1,2) heap_inv_def prod.case by blast
qed

interpretation heap_sys: invariant_system "heap_start base" "heap_step base" "heap_inv base" for base
  by unfold_locales (auto intro: heap_inv_start heap_inv_step)

text \<open>The bytes the program may use of a block at \<open>t\<close>.\<close>

definition payload :: "uint \<Rightarrow> uint \<Rightarrow> nat set" where
  "payload t nbytes = {unat t ..< unat t + unat nbytes}"

lemma live_payload:
  assumes "live_ok base brk m U t n" and "brk \<le> 0x80000000"
  shows "payload t n \<subseteq> region m (t - 8)" and "unat t + unat n \<le> brk"
proof -
  have b: "unat (t - 8) + 8 * unat (size_of m (t - 8)) \<le> brk" "unat n + 8 \<le> 8 * unat (size_of m (t - 8))"
    using assms(1) by (auto simp: live_ok_def bend_def)
  have "unat (t - 8 + 8) = unat (t - 8) + 8" by (rule unat_sum [where b = 8, simplified]) (use b assms(2) in simp)
  then have "unat t = unat (t - 8) + 8" by simp
  then show "payload t n \<subseteq> region m (t - 8)" "unat t + unat n \<le> brk" using b by (auto simp: payload_def region_def bend_def)
qed

lemma heap_payloads:
  assumes "heap_inv base (brk, m, live)"
  shows "live t = Some n \<Longrightarrow> unat t + unat n \<le> brk"
    and "live t = Some n \<Longrightarrow> live u = Some k \<Longrightarrow> t \<noteq> u \<Longrightarrow> payload t n \<inter> payload u k = {}"
proof -
  obtain U where o: "\<And>t n. live t = Some n \<Longrightarrow> live_ok base brk m U t n" and b: "brk \<le> 0x80000000"
    using assms unfolding heap_inv_def prod.case by blast
  show "unat t + unat n \<le> brk" if "live t = Some n" using live_payload(2) [OF o [OF that] b] .
  have "region m (t - 8) \<inter> region m (u - 8) = {}" if "live t = Some n" "live u = Some k" "t \<noteq> u"
    using assms that unfolding heap_inv_def prod.case by blast
  then show "payload t n \<inter> payload u k = {}" if "live t = Some n" "live u = Some k" "t \<noteq> u"
    using that live_payload(1) [OF o b] by blast
qed

text \<open>Every request is answered: with a block of its own, or with 0 if the kernel refuses memory.\<close>

lemma heap_serves:
  assumes i: "heap_inv base (brk, m, live)" and n: "unat nbytes < 2 ^ 31 - 16"
    and r: "u_val r = -1 \<or> u_val r = int brk \<and> brk + 8 * unat (more_units (units_for nbytes)) \<le> 0x80000000"
  shows "\<exists>qs t m' rs brk'. malloc base nbytes m [r] = (qs, Done (t, m') rs) \<and> sbrk_answer brk qs r brk' \<and>
      (if t = 0 then qs \<noteq> [] \<and> u_val r = -1
       else live t = None \<and> unat t + unat nbytes \<le> brk' \<and> (\<forall>u k. live u = Some k \<longrightarrow> payload t nbytes \<inter> payload u k = {}))"
proof -
  let ?nu = "more_units (units_for nbytes)"
  have new: "unat t + unat nbytes \<le> b \<and> (\<forall>u k. live u = Some k \<longrightarrow> payload t nbytes \<inter> payload u k = {})"
    if h: "heap_inv base (b, m', live(t \<mapsto> nbytes))" "live t = None" for b t m'
  proof -
    have "payload t nbytes \<inter> payload u k = {}" if u: "live u = Some k" for u k
    proof -
      have "t \<noteq> u" using u h(2) by auto
      then show ?thesis using heap_payloads(2) [OF h(1), of t nbytes u k] u by simp
    qed
    then show ?thesis using heap_payloads(1) [OF h(1), of t nbytes] by simp
  qed
  from heap_malloc [OF i n] show ?thesis
  proof (elim disjE exE conjE)
    fix t m'
    assume t: "malloc base nbytes m = ret (t, m')" "t \<noteq> 0" "live t = None" "heap_inv base (brk, m', live(t \<mapsto> nbytes))"
    moreover have "malloc base nbytes m [r] = ([], Done (t, m') [r])" using t(1) by simp
    moreover have "sbrk_answer brk [] r brk" by (simp add: sbrk_answer_def)
    ultimately show ?thesis using new [OF t(4,3)] by (metis (no_types))
  next
    assume no: "\<forall>r. u_val r = -1 \<longrightarrow> malloc base nbytes m [r] = ([U_sbrk (int (8 * unat ?nu))], Done (0, malloc_start base m) [])"
      and yes: "\<forall>r. u_val r = int brk \<and> brk + 8 * unat ?nu \<le> 0x80000000 \<longrightarrow>
        (\<exists>t m'. malloc base nbytes m [r] = ([U_sbrk (int (8 * unat ?nu))], Done (t, m') []) \<and> t \<noteq> 0 \<and> live t = None \<and>
          heap_inv base (brk + 8 * unat ?nu, m', live(t \<mapsto> nbytes)))"
    show ?thesis
    proof (cases "u_val r = -1")
      case True
      then have "malloc base nbytes m [r] = ([U_sbrk (int (8 * unat ?nu))], Done (0, malloc_start base m) [])" using no by blast
      moreover have "sbrk_answer brk [U_sbrk (int (8 * unat ?nu))] r brk" unfolding sbrk_answer_grow using True by simp
      ultimately show ?thesis using True by (metis (no_types) list.distinct(1))
    next
      case False
      with r yes obtain t m' where t: "malloc base nbytes m [r] = ([U_sbrk (int (8 * unat ?nu))], Done (t, m') [])" "t \<noteq> 0" "live t = None"
          "heap_inv base (brk + 8 * unat ?nu, m', live(t \<mapsto> nbytes))" by blast
      have "sbrk_answer brk [U_sbrk (int (8 * unat ?nu))] r (brk + 8 * unat ?nu)"
        unfolding sbrk_answer_grow using False r by simp
      then show ?thesis using t(1,2,3) new [OF t(4,3)] by (metis (no_types))
    qed
  qed
qed

text \<open>One turn of the loops, to follow a concrete run.\<close>

lemma loop_turns:
  "free_walk (numeral k) m bp p =
     (if bp > p \<and> bp < ptr_of m p then Inr p
      else if p \<ge> ptr_of m p \<and> (bp > p \<or> bp < ptr_of m p) then Inr p
      else free_walk (pred_numeral k) m bp (ptr_of m p))"
  "malloc_loop (numeral k) nunits prevp p m =
     (if size_of m p \<ge> nunits then ret (carve nunits prevp p m)
      else if p = freep m then
        bindi (morecore nunits m) (\<lambda>(p, m).
        if p = 0 then ret (0, m) else malloc_loop (pred_numeral k) nunits p (ptr_of m p) m)
      else malloc_loop (pred_numeral k) nunits p (ptr_of m p) m)"
  by (simp_all add: numeral_eq_Suc)

text \<open>A program with its variable at 0x1000 asks for 100 bytes and then for 40.\<close>

definition heap_empty :: arena where
  "heap_empty = \<lparr>hdrs = (\<lambda>_. \<lparr>h_ptr = 0, h_size = 0\<rparr>), freep = 0\<rparr>"



definition heap_at :: "uint \<Rightarrow> uint \<Rightarrow> (uint \<Rightarrow> header) \<Rightarrow> arena" where
  "heap_at f n h = \<lparr>hdrs = h(0x1000 := \<lparr>h_ptr = f, h_size = 0\<rparr>, 0x2000 := \<lparr>h_ptr = 0x1000, h_size = n\<rparr>), freep = 0x1000\<rparr>"

definition heap_one :: arena where
  "heap_one = heap_at 0x2000 4082 ((hdrs heap_empty)(40848 := \<lparr>h_ptr = 0, h_size = 14\<rparr>))"

definition heap_two :: arena where
  "heap_two = heap_at 0x2000 4076 ((hdrs heap_one)(40800 := \<lparr>h_ptr = 0, h_size = 6\<rparr>))"

lemmas heap_eval = size_of_def ptr_of_def set_size_def set_ptr_def malloc_start_def heap_empty_def heap_at_def heap_one_def heap_two_def
  loop_turns lift_def morecore_def sys_def free_def join_upper_def join_lower_def carve_def Let_def

lemma heap_more:
  "morecore 14 (malloc_start 0x1000 heap_empty) [\<lparr>u_val = 0x2000, u_data = [], u_nums = []\<rparr>] =
     ([U_sbrk 32768], Done (0x1000, heap_at 0x2000 4096 (hdrs heap_empty)) [])"
  by (simp add: heap_eval fun_upd_twist)

lemma heap_runs:
  "malloc 0x1000 100 heap_empty [\<lparr>u_val = 0x2000, u_data = [], u_nums = []\<rparr>] = ([U_sbrk 32768], Done (40856, heap_one) [])"
  "malloc 0x1000 40 heap_one [r] = ([], Done (40808, heap_two) [r])"
proof -
  let ?m = "malloc_start 0x1000 heap_empty"
  have e: "malloc 0x1000 100 heap_empty = bindi (morecore 14 ?m) (\<lambda>(p, m). if p = 0 then ret (0, m) else malloc_loop 0x7FFFFFFF 14 p (ptr_of m p) m)"
    unfolding malloc_def Let_def by (simp, subst loop_turns(2)) (simp add: malloc_start_def heap_empty_def size_of_def ptr_of_def set_size_def set_ptr_def cong: if_cong)
  show "malloc 0x1000 100 heap_empty [\<lparr>u_val = 0x2000, u_data = [], u_nums = []\<rparr>] = ([U_sbrk 32768], Done (40856, heap_one) [])"
    unfolding e by (subst bindi_run [where m = "morecore 14 ?m", OF heap_more]) (simp add: heap_eval fun_upd_twist)
  show "malloc 0x1000 40 heap_one [r] = ([], Done (40808, heap_two) [r])"
    by (simp add: malloc_def heap_eval fun_upd_twist)
qed

lemma heap_two_reached: "reach (heap_start 0x1000) (heap_step 0x1000) (40960, heap_two, [40856 \<mapsto> 100, 40808 \<mapsto> 40])"
proof -
  have "reach (heap_start 0x1000) (heap_step 0x1000) (0x2000, heap_empty, Map.empty)"
    by (rule reach_start) (simp add: heap_start_def heap_empty_def)
  moreover have "heap_step 0x1000 (0x2000, heap_empty, Map.empty) (40960, heap_one, if (40856 :: uint) = 0 then Map.empty else [40856 \<mapsto> 100])"
    by (rule hs_malloc [OF _ heap_runs(1)]) (simp_all add: sbrk_answer_def)
  moreover have "heap_step 0x1000 (40960, heap_one, [40856 \<mapsto> 100])
      (40960, heap_two, if (40808 :: uint) = 0 then [40856 \<mapsto> 100] else [40856 \<mapsto> 100, 40808 \<mapsto> 40])"
    by (rule hs_malloc [OF _ heap_runs(2)]) (simp_all add: sbrk_answer_def)
  ultimately show ?thesis by (simp, blast intro: reach_step)
qed



end
