(* ===== verification/Spec2Isabelle.thy ===== *)
theory Spec2Isabelle
  imports Trap Pagetable Wal Boot Grep Programs Shell Mkfs Umalloc
begin

text \<open>
  A verification of an xv6 system with multilevel feedback scheduling, semaphores and
  copy-on-write: the kernel, its drivers and start-up code, the builder of the disk image, and
  the user programs. All files named here are under \<^verbatim>\<open>src/\<close>.

  \<^bold>\<open>The model.\<close> C code is translated function by function into HOL functions with the same names.
  The global variables of the kernel are the fields of one record \<open>kernel\<close>; an array is a function on
  indices, a pointer into it an index, a nullable pointer an index option. Unsigned numbers are
  machine words and wrap; signed numbers are integers with an error on overflow where the code
  computes with unbounded input. Memory is a function from 32-bit addresses to bytes, and page
  tables, free pages and user memory live in it. A function returns \<open>c_error + 'a\<close>: a panic, a null
  dereference, an index out of bounds and so on are values (\<open>Xv6_Prelude\<close>), sequenced by \<open>bindr\<close>. \<open>wp m Q\<close>
  says that \<open>m\<close> returns and \<open>Q\<close> holds of what it returns.

  Processes switch inside \<^verbatim>\<open>sched\<close>. A function that may sleep is cut there: \<open>f_enter\<close> or \<open>f_pass\<close> is what runs
  up to the return or the switch, \<open>f_again\<close> what runs after the process has been chosen again. Steps
  of several processes and CPUs interleave at these cuts and, for spin locks, between operations;
  the step relations are inductive, and what holds in every reachable state is proved by rule
  induction through the locale \<open>invariant_system\<close>.

  Drivers and user programs talk to devices and to the kernel. Such code is a function from the
  list of answers it will get to the requests it makes and the way it ends (\<open>Interact\<close>). Polling
  and reading loops consume an answer each time round and so are total functions of that list.

  \<^bold>\<open>Kernel.\<close>
  \<^item> \<open>Xv6_Prelude\<close>, \<open>Kernel_Types\<close>: errors, sequencing, loops, transition systems; constants and structures of
    \<^verbatim>\<open>param.h\<close>, \<^verbatim>\<open>proc.h\<close>, \<^verbatim>\<open>spinlock.h\<close>, \<^verbatim>\<open>sleeplock.h\<close>, \<^verbatim>\<open>semaphore.h\<close>, \<^verbatim>\<open>file.h\<close>, \<^verbatim>\<open>buf.h\<close>, \<^verbatim>\<open>fs.h\<close>, \<^verbatim>\<open>stat.h\<close>.
  \<^item> \<open>Spinlock\<close> (\<^verbatim>\<open>spinlock.c\<close>; \<^verbatim>\<open>mycpu\<close>, \<^verbatim>\<open>cpuid\<close>, \<^verbatim>\<open>myproc\<close> of \<^verbatim>\<open>proc.c\<close>): mutual exclusion over all interleavings, and
    closed forms of \<open>acquire\<close> and \<open>release\<close> that every client uses.
  \<^item> \<open>Runqueue\<close>, \<open>Sched\<close> (\<^verbatim>\<open>proc.c\<close>): the linked priority levels implement FIFO queues (locale
    \<open>multilevel_fifo\<close>); the scheduler takes the oldest process of the best level; \<open>wakeup\<close> and \<open>aging\<close> do what
    they should to exactly the right processes; the invariant \<open>sched_inv\<close> ties states to queues.
  \<^item> \<open>Semaphore\<close> (\<^verbatim>\<open>semaphore.c\<close>): all outcomes of \<^verbatim>\<open>semdown\<close> and \<^verbatim>\<open>semup\<close>; no lost wakeup and no use of freed
    semaphores over all interleavings; the leak of \<^verbatim>\<open>sems.used\<close>.
  \<^item> \<open>Mmu\<close>, \<open>Kalloc\<close>, \<open>Vm\<close>, \<open>Pagetable\<close> (\<^verbatim>\<open>mmu.h\<close>, \<^verbatim>\<open>memlayout.h\<close>, \<^verbatim>\<open>kalloc.c\<close>, \<^verbatim>\<open>vm.c\<close>): the allocator hands out only
    free pages (locale \<open>page_allocator\<close>); a two-level table refines a partial map, \<open>mappages\<close> changes exactly
    the range, and the copy-on-write fault gives a process its own page.
  \<^item> \<open>Cstring\<close> (\<^verbatim>\<open>string.c\<close>): \<open>memmove\<close>, \<open>memset\<close>, \<open>strlen\<close>, \<open>safestrcpy\<close>. \<open>Cprintf\<close>, \<open>Console\<close> (\<^verbatim>\<open>console.c\<close>): printed numbers read
    back, the cursor stays on the screen, and input editing refines a list of characters.
  \<^item> \<open>Ring\<close>, \<open>Pipe\<close> (\<^verbatim>\<open>pipe.c\<close>): ring buffers with wrapping counters (locales \<open>ring\<close>, \<open>bounded_queue\<close>, interpreted
    for pipes and the console); a pipe is a FIFO of 512 bytes, and a full pipe hands over without loss.
  \<^item> \<open>Sleeplock\<close>, \<open>Bio\<close>, \<open>Log\<close>, \<open>Wal\<close> (\<^verbatim>\<open>sleeplock.c\<close>, \<^verbatim>\<open>bio.c\<close>, \<^verbatim>\<open>memide.c\<close>, \<^verbatim>\<open>log.c\<close>): the buffer cache is coherent
    with the disk, and a transaction survives a crash at any block write entirely or not at all.
  \<^item> \<open>Inode\<close>, \<open>Fs\<close>, \<open>File\<close>, \<open>Proc\<close>, \<open>Exec\<close>, \<open>Syscall\<close>, \<open>Sysfile\<close>, \<open>Trap\<close> (\<^verbatim>\<open>fs.c\<close>, \<^verbatim>\<open>file.c\<close>, \<^verbatim>\<open>proc.c\<close>, \<^verbatim>\<open>exec.c\<close>, \<^verbatim>\<open>syscall.c\<close>,
    \<^verbatim>\<open>sysproc.c\<close>, \<^verbatim>\<open>sysfile.c\<close>, \<^verbatim>\<open>trap.c\<close>): complete models of every operation, from the trap to the disk.

  \<^bold>\<open>Drivers and start-up.\<close>
  \<^item> \<open>Devices\<close> (\<^verbatim>\<open>kbd.c\<close>, \<^verbatim>\<open>uart.c\<close>, \<^verbatim>\<open>picirq.c\<close>, \<^verbatim>\<open>ioapic.c\<close>, \<^verbatim>\<open>lapic.c\<close>): every register access in order; the keyboard
    delivers bytes and keeps its modifiers in range; the clock is read twice alike.
  \<^item> \<open>Mp\<close> (\<^verbatim>\<open>mp.c\<close>): the walk over the configuration table returns exactly on well-formed tables, and then
    lists the processors. \<open>Ide\<close> (\<^verbatim>\<open>ide.c\<close>): the completion interrupt serves the head of the request queue.
  \<^item> \<open>Boot\<close> (\<^verbatim>\<open>bootmain.c\<close>, \<^verbatim>\<open>main.c\<close>, \<^verbatim>\<open>seginit\<close>, \<^verbatim>\<open>tvinit\<close>): the loader, the descriptor tables, the order of
    initialisation; user mode can raise only the system call gate.

  \<^bold>\<open>User side.\<close>
  \<^item> \<open>User\<close> (\<^verbatim>\<open>user/ulib.c\<close>, \<^verbatim>\<open>user/printf.c\<close>, \<^verbatim>\<open>user/usys.S\<close>), \<open>Programs\<close> (the small programs).
  \<^item> \<open>Grep\<close> (\<^verbatim>\<open>user/grep.c\<close>): the matcher decides the language of the pattern; matching lines are printed; a
    line that arrives in two reads is dropped.
  \<^item> \<open>Shell\<close> (\<^verbatim>\<open>user/sh.c\<close>): the parser ends on every line and its commands are well-formed; the words it
    cuts out of the line do not disturb each other.
  \<^item> \<open>Umalloc\<close> (\<^verbatim>\<open>user/umalloc.c\<close>): the blocks a program holds never overlap, and every call returns.
  \<^item> \<open>Mkfs\<close> (\<^verbatim>\<open>mkfs.c\<close>): the maker of disk images.

  \<^bold>\<open>Bounds.\<close> A loop whose end the types do not show carries a bound, and reaching it is the error
  \<open>Out_Of_Fuel\<close>, never a result. The bounds are the largest number of iterations the data allows: \<open>2 ^ 20\<close>
  pages of a 32-bit address space, \<open>2 ^ 24\<close> and \<open>2 ^ 28\<close> block and directory steps of a 32-bit file size, the
  64 processes of a level, the 30 buffers of a list, \<open>4 * length b + 4\<close> for the depth of the shell's parser,
  \<open>2 ^ 30\<close> and \<open>2 ^ 31\<close> for walks along a free list, which has fewer than \<open>2 ^ 29\<close> blocks.
  Where a property says that a function returns, that covers the bound: the value is \<open>Inr\<close>.

  \<^bold>\<open>Not modelled.\<close> The assembly files (\<^verbatim>\<open>bootasm.S\<close>, \<^verbatim>\<open>entry.S\<close>, \<^verbatim>\<open>entryother.S\<close>, \<^verbatim>\<open>swtch.S\<close>, \<^verbatim>\<open>trapasm.S\<close>, \<^verbatim>\<open>initcode.S\<close>)
  are machine code; the C code sees them as the cut of a context switch, the layout of the trap
  frame, and the bytes of the first program, which is an argument of \<^verbatim>\<open>userinit\<close>. The vectors are
  generated by the build and an argument of \<^verbatim>\<open>tvinit\<close>. \<^verbatim>\<open>defs.h\<close> has only prototypes. \<^verbatim>\<open>user/usertests.c\<close> is a
  script of calls with expected results, and \<^verbatim>\<open>user/levelstest.c\<close> a loop over an array that does not fit
  its stack. The translation look-aside buffer, caches and memory ordering of the hardware are not
  modelled beyond the reload of the page-table base.
\<close>

end
